(* ===== verification/Bf_Prelude.thy ===== *)
theory Bf_Prelude
  imports "HOL-Library.Word"
begin

text \<open>
  The shared layer of the development: the machine types of the source, the
  checked and saturating arithmetic of \<^verbatim>\<open>usize\<close>, the two result monads the
  components are written in (plain results \<^typ>\<open>'e + 'a\<close> and results that thread
  a state), and the generic facts about them that carry the component proofs.
\<close>

unbundle bit_operations_syntax

section \<open>Machine types\<close>

text \<open>Signed and unsigned integers share the word type; a signed reading is \<^const>\<open>sint\<close>.\<close>

type_synonym u8 = "8 word"
type_synonym u16 = "16 word"
type_synonym u32 = "32 word"
type_synonym u64 = "64 word"
type_synonym u128 = "128 word"
type_synonym i32 = "32 word"
type_synonym i64 = "64 word"

text \<open>Little-endian byte sequences of a word, for any width.\<close>

definition to_le_bytes :: "nat \<Rightarrow> 'a::len word \<Rightarrow> u8 list" where
  "to_le_bytes n w = map (\<lambda>i. ucast (drop_bit (8 * i) w)) [0..<n]"

definition from_le_bytes :: "u8 list \<Rightarrow> 'a::len word" where
  "from_le_bytes bytes = foldr (\<lambda>b acc. push_bit 8 acc OR ucast b) bytes 0"

text \<open>
  A \<^verbatim>\<open>usize\<close> is a natural number; every operation that the source performs on one
  is checked or saturating, and the bound is written out here.
\<close>

type_synonym usize = nat

definition usize_max :: nat where
  "usize_max = 2 ^ 64 - 1"

definition checked_add :: "usize \<Rightarrow> usize \<Rightarrow> usize option" where
  "checked_add a b = (if a + b \<le> usize_max then Some (a + b) else None)"

definition checked_mul :: "usize \<Rightarrow> usize \<Rightarrow> usize option" where
  "checked_mul a b = (if a * b \<le> usize_max then Some (a * b) else None)"

definition saturating_add :: "usize \<Rightarrow> usize \<Rightarrow> usize" where
  "saturating_add a b = min usize_max (a + b)"

section \<open>Collections of rules\<close>

named_theorems result_simps \<open>inversion of successful and failing results\<close>
named_theorems wf_intros \<open>preservation of component invariants\<close>

section \<open>Results\<close>

fun bindE :: "'e + 'a \<Rightarrow> ('a \<Rightarrow> 'e + 'b) \<Rightarrow> 'e + 'b" where
  "bindE (Inl e) f = Inl e"
| "bindE (Inr x) f = f x"

fun is_ok :: "'e + 'a \<Rightarrow> bool" where
  "is_ok (Inr _) = True"
| "is_ok (Inl _) = False"

definition ok_or :: "'e \<Rightarrow> 'a option \<Rightarrow> 'e + 'a" where
  "ok_or e m = (case m of None \<Rightarrow> Inl e | Some x \<Rightarrow> Inr x)"

definition guardE :: "bool \<Rightarrow> 'e \<Rightarrow> 'e + unit" where
  "guardE b e = (if b then Inr () else Inl e)"

primrec mapE :: "('a \<Rightarrow> 'e + 'b) \<Rightarrow> 'a list \<Rightarrow> 'e + 'b list" where
  "mapE f [] = Inr []"
| "mapE f (x # xs) = bindE (f x) (\<lambda>y. bindE (mapE f xs) (\<lambda>ys. Inr (y # ys)))"

text \<open>A \<^verbatim>\<open>for\<close> loop whose body may return an error.\<close>

primrec foldE :: "('a \<Rightarrow> 's \<Rightarrow> 'e + 's) \<Rightarrow> 'a list \<Rightarrow> 's \<Rightarrow> 'e + 's" where
  "foldE f [] s = Inr s"
| "foldE f (x # xs) s = bindE (f x s) (foldE f xs)"

text \<open>The same loop for a body that returns an option.\<close>

primrec foldO :: "('a \<Rightarrow> 's \<Rightarrow> 's option) \<Rightarrow> 'a list \<Rightarrow> 's \<Rightarrow> 's option" where
  "foldO f [] s = Some s"
| "foldO f (x # xs) s = Option.bind (f x s) (foldO f xs)"

lemma foldO_cong [fundef_cong]:
  assumes "xs = ys" and "\<And>x s. x \<in> set ys \<Longrightarrow> f x s = g x s" and "s = t"
  shows "foldO f xs s = foldO g ys t"
  using assms by (induction ys arbitrary: xs s t) (auto intro!: Option.bind_cong)

lemma bindE_cong [fundef_cong]:
  "m = m' \<Longrightarrow> (\<And>x. m' = Inr x \<Longrightarrow> f x = g x) \<Longrightarrow> bindE m f = bindE m' g"
  by (cases m') auto

lemma mapE_cong [fundef_cong]:
  "xs = ys \<Longrightarrow> (\<And>x. x \<in> set ys \<Longrightarrow> f x = g x) \<Longrightarrow> mapE f xs = mapE g ys"
  by (induction ys arbitrary: xs) auto

lemma foldE_cong [fundef_cong]:
  assumes "xs = ys" and "\<And>x s. x \<in> set ys \<Longrightarrow> f x s = g x s" and "s = t"
  shows "foldE f xs s = foldE g ys t"
  using assms by (induction ys arbitrary: xs s t) (auto intro!: bindE_cong)

lemma bindE_eq_Inr [result_simps]:
  "bindE m f = Inr y \<longleftrightarrow> (\<exists>x. m = Inr x \<and> f x = Inr y)"
  by (cases m) auto

lemma bindE_eq_Inl [result_simps]:
  "bindE m f = Inl e \<longleftrightarrow> m = Inl e \<or> (\<exists>x. m = Inr x \<and> f x = Inl e)"
  by (cases m) auto

lemma ok_or_eq [result_simps]:
  "ok_or e m = Inr x \<longleftrightarrow> m = Some x"
  "ok_or e m = Inl e' \<longleftrightarrow> m = None \<and> e' = e"
  by (auto simp: ok_or_def split: option.splits)

lemma ok_or_simps [simp]:
  "ok_or e (Some x) = Inr x"
  "ok_or e None = Inl e"
  by (simp_all add: ok_or_def)

lemma guardE_eq [result_simps]:
  "guardE b e = Inr u \<longleftrightarrow> b"
  "guardE b e = Inl e' \<longleftrightarrow> \<not> b \<and> e' = e"
  by (auto simp: guardE_def)

lemma guardE_simps [simp]:
  "guardE True e = Inr ()"
  "guardE False e = Inl e"
  by (simp_all add: guardE_def)

lemma is_ok_iff: "is_ok r \<longleftrightarrow> (\<exists>x. r = Inr x)"
  by (cases r) auto

lemma mapE_length: "mapE f xs = Inr ys \<Longrightarrow> length ys = length xs"
  by (induction xs arbitrary: ys) (auto simp: result_simps)

lemma mapE_nth: "mapE f xs = Inr ys \<Longrightarrow> i < length xs \<Longrightarrow> f (xs ! i) = Inr (ys ! i)"
  by (induction xs arbitrary: ys i) (auto simp: result_simps nth_Cons' split: if_splits)

lemma foldE_append:
  "foldE f (xs @ ys) s = bindE (foldE f xs s) (foldE f ys)"
proof (induction xs arbitrary: s)
  case (Cons x xs)
  then show ?case by (cases "f x s") auto
qed simp

text \<open>A property that every iteration keeps holds after the loop.\<close>

lemma foldE_invariant:
  assumes "foldE f xs s = Inr t" and "P s"
    and "\<And>x s s'. x \<in> set xs \<Longrightarrow> P s \<Longrightarrow> f x s = Inr s' \<Longrightarrow> P s'"
  shows "P t"
  using assms by (induction xs arbitrary: s) (auto simp: result_simps)

text \<open>A \<^verbatim>\<open>for\<close> loop that only checks: it fails with the error of the first item that fails.\<close>

definition forE :: "('a \<Rightarrow> 'e + unit) \<Rightarrow> 'a list \<Rightarrow> 'e + unit" where
  "forE f xs = foldE (\<lambda>x u. f x) xs ()"

lemma forE_simps [simp]:
  "forE f [] = Inr ()"
  "forE f (x # xs) = bindE (f x) (\<lambda>u. forE f xs)"
  by (simp_all add: forE_def)

lemma forE_cong [fundef_cong]:
  "xs = ys \<Longrightarrow> (\<And>x. x \<in> set ys \<Longrightarrow> f x = g x) \<Longrightarrow> forE f xs = forE g ys"
  by (auto simp: forE_def intro!: foldE_cong)

lemma forE_ok_iff: "forE f xs = Inr u \<longleftrightarrow> (\<forall>x \<in> set xs. f x = Inr ())"
  by (induction xs) (auto simp: bindE_eq_Inr)

lemma forE_first_error:
  "forE f xs = Inl e \<longleftrightarrow> (\<exists>i < length xs. f (xs ! i) = Inl e \<and> (\<forall>j < i. f (xs ! j) = Inr ()))"
proof (induction xs)
  case (Cons x xs)
  then show ?case by (cases "f x") (simp_all add: Ex_less_Suc2 All_less_Suc2)
qed simp

section \<open>Results that thread a state\<close>

text \<open>
  The source passes closures that mutate captured state and may fail; a failing
  call keeps the mutations made before it, so the state is returned in both cases.
\<close>

type_synonym ('s, 'e, 'a) fallible = "'s \<Rightarrow> ('e + 'a) \<times> 's"

definition returnS :: "'a \<Rightarrow> ('s, 'e, 'a) fallible" where
  "returnS x s = (Inr x, s)"

definition throwS :: "'e \<Rightarrow> ('s, 'e, 'a) fallible" where
  "throwS e s = (Inl e, s)"

definition bindS :: "('s, 'e, 'a) fallible \<Rightarrow> ('a \<Rightarrow> ('s, 'e, 'b) fallible) \<Rightarrow> ('s, 'e, 'b) fallible" where
  "bindS m f s = (case m s of (Inl e, s') \<Rightarrow> (Inl e, s') | (Inr x, s') \<Rightarrow> f x s')"

definition liftS :: "'e + 'a \<Rightarrow> ('s, 'e, 'a) fallible" where
  "liftS r s = (r, s)"

primrec mapS :: "('a \<Rightarrow> ('s, 'e, 'b) fallible) \<Rightarrow> 'a list \<Rightarrow> ('s, 'e, 'b list) fallible" where
  "mapS f [] = returnS []"
| "mapS f (x # xs) = bindS (f x) (\<lambda>y. bindS (mapS f xs) (\<lambda>ys. returnS (y # ys)))"

lemma bindS_cong [fundef_cong]:
  assumes "m s = m' s'" and "\<And>x t. m' s' = (Inr x, t) \<Longrightarrow> f x t = g x t"
  shows "bindS m f s = bindS m' g s'"
  using assms by (auto simp: bindS_def split: prod.split sum.split)

lemma mapS_cong [fundef_cong]:
  assumes "xs = ys" and "\<And>x t. x \<in> set ys \<Longrightarrow> f x t = g x t" and "s = s'"
  shows "mapS f xs s = mapS g ys s'"
  using assms by (induction ys arbitrary: xs s s') (auto intro!: bindS_cong)

lemma returnS_eq [result_simps]: "returnS x s = (r, s') \<longleftrightarrow> r = Inr x \<and> s' = s"
  by (auto simp: returnS_def)

lemma throwS_eq [result_simps]: "throwS e s = (r, s') \<longleftrightarrow> r = Inl e \<and> s' = s"
  by (auto simp: throwS_def)

lemma liftS_eq [result_simps]: "liftS m s = (r, s') \<longleftrightarrow> m = r \<and> s' = s"
  by (auto simp: liftS_def)

lemma bindS_eq_Inr [result_simps]:
  "bindS m f s = (Inr y, s') \<longleftrightarrow> (\<exists>x t. m s = (Inr x, t) \<and> f x t = (Inr y, s'))"
  by (auto simp: bindS_def split: prod.splits sum.splits)

lemma bindS_eq_Inl [result_simps]:
  "bindS m f s = (Inl e, s') \<longleftrightarrow>
     m s = (Inl e, s') \<or> (\<exists>x t. m s = (Inr x, t) \<and> f x t = (Inl e, s'))"
  by (auto simp: bindS_def split: prod.splits sum.splits)

text \<open>Every element of the result of \<^const>\<open>mapS\<close> came from one successful call.\<close>

lemma mapS_all2:
  assumes "mapS f xs s = (Inr ys, s')"
  shows "list_all2 (\<lambda>x y. \<exists>t t'. f x t = (Inr y, t')) xs ys"
  using assms by (induction xs arbitrary: ys s) (auto simp: result_simps)

lemma mapS_length: "mapS f xs s = (Inr ys, s') \<Longrightarrow> length ys = length xs"
  by (induction xs arbitrary: ys s) (auto simp: result_simps)

text \<open>A computation that leaves the state as it found it, whatever its result.\<close>

definition readonly :: "('s, 'e, 'a) fallible \<Rightarrow> bool" where
  "readonly m \<longleftrightarrow> (\<forall>s. snd (m s) = s)"

lemma readonly_bindS [wf_intros]:
  "readonly m \<Longrightarrow> (\<And>x. readonly (f x)) \<Longrightarrow> readonly (bindS m f)"
  by (simp add: readonly_def bindS_def split_beta split: sum.split)

lemma readonlyD: "readonly m \<Longrightarrow> m s = (r, s') \<Longrightarrow> s' = s"
  by (metis readonly_def snd_conv)

section \<open>Byte sequences\<close>

lemma length_to_le_bytes [simp]: "length (to_le_bytes n w) = n"
  by (simp add: to_le_bytes_def)

lemma bit_u8_less: "bit (b :: u8) n \<Longrightarrow> n < 8"
  using bit_imp_le_length [of b n] by simp

lemma bit_from_le_bytes:
  "bit (from_le_bytes bs :: 'a::len word) k \<longleftrightarrow>
     k < LENGTH('a) \<and> k div 8 < length bs \<and> bit (bs ! (k div 8)) (k mod 8)"
proof (induction bs arbitrary: k)
  case (Cons b bs)
  have "from_le_bytes (b # bs) = (push_bit 8 (from_le_bytes bs) OR ucast b :: 'a word)"
    by (simp add: from_le_bytes_def)
  with Cons [of "k - 8"] show ?case
    by (cases "k < 8") (auto simp: bit_simps le_div_geq le_mod_geq dest: bit_u8_less)
qed (simp add: from_le_bytes_def)

lemma from_to_le_bytes:
  "8 * n = LENGTH('a) \<Longrightarrow> from_le_bytes (to_le_bytes n (w :: 'a::len word)) = w"
  by (rule bit_eqI) (auto simp: bit_from_le_bytes to_le_bytes_def bit_simps dest: bit_imp_le_length)

lemma to_from_le_bytes:
  assumes "8 * length bs = LENGTH('a)"
  shows "to_le_bytes (length bs) (from_le_bytes bs :: 'a::len word) = bs"
proof (rule nth_equalityI)
  fix i assume "i < length (to_le_bytes (length bs) (from_le_bytes bs :: 'a word))"
  then have i: "i < length bs" by simp
  show "to_le_bytes (length bs) (from_le_bytes bs :: 'a word) ! i = bs ! i"
  proof (rule bit_word_eqI)
    fix n assume n: "n < LENGTH(8)"
    then have "8 * i + n < LENGTH('a)" using i assms by simp
    moreover have "(8 * i + n) div 8 = i" "(8 * i + n) mod 8 = n" using n by simp_all
    ultimately show "bit (to_le_bytes (length bs) (from_le_bytes bs :: 'a word) ! i) n = bit (bs ! i) n"
      using i n by (simp add: to_le_bytes_def bit_simps bit_from_le_bytes)
  qed
qed simp

section \<open>Checked arithmetic\<close>

lemma usize_max_eq [simp]: "usize_max = 18446744073709551615"
  by (simp add: usize_max_def)

lemma checked_add_eq [result_simps]:
  "checked_add a b = Some c \<longleftrightarrow> c = a + b \<and> a + b \<le> usize_max"
  "checked_add a b = None \<longleftrightarrow> usize_max < a + b"
  by (auto simp: checked_add_def)

lemma checked_mul_eq [result_simps]:
  "checked_mul a b = Some c \<longleftrightarrow> c = a * b \<and> a * b \<le> usize_max"
  "checked_mul a b = None \<longleftrightarrow> usize_max < a * b"
  by (auto simp: checked_mul_def)

lemma saturating_add_bounds:
  "saturating_add a b \<le> usize_max" "a \<le> usize_max \<Longrightarrow> a \<le> saturating_add a b"
  by (auto simp: saturating_add_def)

end
