(* ===== verification/Bf_Float.thy ===== *)
theory Bf_Float
  imports Bf_Prelude
begin

text \<open>
  The part of \<^verbatim>\<open>f64\<close> that the interpreter uses, as executable functions on the
  64-bit pattern: IEEE 754 binary64 comparison, negation, the four operations
  with rounding to nearest even, and the conversion from \<^verbatim>\<open>i64\<close>.  The exact result of
  an operation is a rational; \<^verbatim>\<open>f64_round\<close> finds its neighbour.  A result that is not
  a number is the canonical quiet pattern, since the language leaves its payload open.
\<close>

type_synonym f64 = "64 word"

definition f64_sign :: "f64 \<Rightarrow> bool" where
  "f64_sign x = bit x 63"

definition f64_exponent :: "f64 \<Rightarrow> nat" where
  "f64_exponent x = unat x div 2 ^ 52 mod 2 ^ 11"

definition f64_fraction :: "f64 \<Rightarrow> nat" where
  "f64_fraction x = unat x mod 2 ^ 52"

definition f64_magnitude :: "f64 \<Rightarrow> nat" where
  "f64_magnitude x = unat x mod 2 ^ 63"

definition f64_is_nan :: "f64 \<Rightarrow> bool" where
  "f64_is_nan x \<longleftrightarrow> f64_exponent x = 2047 \<and> f64_fraction x \<noteq> 0"

definition f64_is_inf :: "f64 \<Rightarrow> bool" where
  "f64_is_inf x \<longleftrightarrow> f64_exponent x = 2047 \<and> f64_fraction x = 0"

definition f64_is_zero :: "f64 \<Rightarrow> bool" where
  "f64_is_zero x \<longleftrightarrow> f64_magnitude x = 0"

definition f64_nan :: f64 where
  "f64_nan = 0x7FF8000000000000"

definition f64_inf :: "bool \<Rightarrow> f64" where
  "f64_inf s = (if s then 0xFFF0000000000000 else 0x7FF0000000000000)"

definition f64_zero :: "bool \<Rightarrow> f64" where
  "f64_zero s = (if s then 0x8000000000000000 else 0)"

section \<open>Comparison\<close>

text \<open>The order key: the magnitude with the sign applied, so both zeros are \<open>0\<close>.\<close>

definition f64_key :: "f64 \<Rightarrow> int" where
  "f64_key x = (if f64_sign x then - int (f64_magnitude x) else int (f64_magnitude x))"

definition f64_eq :: "f64 \<Rightarrow> f64 \<Rightarrow> bool" where
  "f64_eq x y \<longleftrightarrow> \<not> f64_is_nan x \<and> \<not> f64_is_nan y \<and> f64_key x = f64_key y"

definition f64_lt :: "f64 \<Rightarrow> f64 \<Rightarrow> bool" where
  "f64_lt x y \<longleftrightarrow> \<not> f64_is_nan x \<and> \<not> f64_is_nan y \<and> f64_key x < f64_key y"

definition f64_le :: "f64 \<Rightarrow> f64 \<Rightarrow> bool" where
  "f64_le x y \<longleftrightarrow> \<not> f64_is_nan x \<and> \<not> f64_is_nan y \<and> f64_key x \<le> f64_key y"

definition f64_neg :: "f64 \<Rightarrow> f64" where
  "f64_neg x = x XOR 0x8000000000000000"

section \<open>Rounding\<close>

text \<open>Integer quotient rounded to nearest, ties to even.\<close>

definition div_half_even :: "nat \<Rightarrow> nat \<Rightarrow> nat" where
  "div_half_even n d =
     (let q = n div d; r = n mod d in
      if 2 * r < d \<or> 2 * r = d \<and> even q then q else q + 1)"

text \<open>
  \<open>f64_round s n d\<close> is the pattern of \<open>n / d\<close> with sign \<open>s\<close> (\<open>0 < n\<close>, \<open>0 < d\<close>).
  \<open>e\<close> is the quotient's binary exponent, \<open>q\<close> the exponent of the last place, clamped
  to the subnormal one.  Adding the rounded significand to the exponent field carries
  into the next binade by itself; past the last finite binade the result is infinite.
\<close>

fun bit_length :: "nat \<Rightarrow> nat" where
  "bit_length n = (if n = 0 then 0 else Suc (bit_length (n div 2)))"

declare bit_length.simps [simp del]

definition f64_ratio_exponent :: "nat \<Rightarrow> nat \<Rightarrow> int" where
  "f64_ratio_exponent n d =
     (let e = int (bit_length n) - int (bit_length d) in
      if (if 0 \<le> e then d * 2 ^ nat e \<le> n else d \<le> n * 2 ^ nat (- e)) then e else e - 1)"

definition f64_round :: "bool \<Rightarrow> nat \<Rightarrow> nat \<Rightarrow> f64" where
  "f64_round s n d =
     (let e = f64_ratio_exponent n d;
          q = max (e - 52) (- 1074);
          m = (if 0 \<le> q then div_half_even n (d * 2 ^ nat q)
               else div_half_even (n * 2 ^ nat (- q)) d);
          mag = nat (q + 1074) * 2 ^ 52 + m
      in if 2047 * 2 ^ 52 \<le> mag then f64_inf s
         else f64_zero s OR word_of_nat mag)"

text \<open>A finite pattern is \<open>significand * 2 ^ exponent\<close>; as a signed ratio:\<close>

definition f64_ratio :: "f64 \<Rightarrow> int \<times> nat" where
  "f64_ratio x =
     (let e = f64_exponent x; f = f64_fraction x;
          m = (if e = 0 then f else f + 2 ^ 52);
          p = int (if e = 0 then 1 else e) - 1075;
          sm = (if f64_sign x then - int m else int m)
      in if 0 \<le> p then (sm * 2 ^ nat p, 1) else (sm, 2 ^ nat (- p)))"

definition f64_of_ratio :: "bool \<Rightarrow> int \<Rightarrow> nat \<Rightarrow> f64" where
  "f64_of_ratio zero_sign n d =
     (if n = 0 then f64_zero zero_sign else f64_round (n < 0) (nat \<bar>n\<bar>) d)"

section \<open>Operations\<close>

definition f64_add :: "f64 \<Rightarrow> f64 \<Rightarrow> f64" where
  "f64_add x y =
     (if f64_is_nan x \<or> f64_is_nan y then f64_nan
      else if f64_is_inf x then (if f64_is_inf y \<and> f64_sign x \<noteq> f64_sign y then f64_nan else x)
      else if f64_is_inf y then y
      else case (f64_ratio x, f64_ratio y) of ((nx, dx), (ny, dy)) \<Rightarrow>
        f64_of_ratio (f64_sign x \<and> f64_sign y) (nx * int dy + ny * int dx) (dx * dy))"

definition f64_sub :: "f64 \<Rightarrow> f64 \<Rightarrow> f64" where
  "f64_sub x y = f64_add x (f64_neg y)"

definition f64_mul :: "f64 \<Rightarrow> f64 \<Rightarrow> f64" where
  "f64_mul x y =
     (let s = (f64_sign x \<noteq> f64_sign y) in
      if f64_is_nan x \<or> f64_is_nan y then f64_nan
      else if f64_is_inf x \<or> f64_is_inf y then
        (if f64_is_zero x \<or> f64_is_zero y then f64_nan else f64_inf s)
      else case (f64_ratio x, f64_ratio y) of ((nx, dx), (ny, dy)) \<Rightarrow>
        f64_of_ratio s (nx * ny) (dx * dy))"

definition f64_div :: "f64 \<Rightarrow> f64 \<Rightarrow> f64" where
  "f64_div x y =
     (let s = (f64_sign x \<noteq> f64_sign y) in
      if f64_is_nan x \<or> f64_is_nan y then f64_nan
      else if f64_is_inf x then (if f64_is_inf y then f64_nan else f64_inf s)
      else if f64_is_inf y then f64_zero s
      else if f64_is_zero y then (if f64_is_zero x then f64_nan else f64_inf s)
      else case (f64_ratio x, f64_ratio y) of ((nx, dx), (ny, dy)) \<Rightarrow>
        f64_of_ratio s (nx * int dy * sgn ny) (dx * nat \<bar>ny\<bar>))"

definition f64_of_i64 :: "64 word \<Rightarrow> f64" where
  "f64_of_i64 i = f64_of_ratio False (sint i) 1"

section \<open>Facts the interpreter proofs use\<close>

lemma f64_nan_unequal: "f64_is_nan x \<Longrightarrow> \<not> f64_eq x y \<and> \<not> f64_eq y x"
  by (simp add: f64_eq_def)

lemma f64_eq_sym: "f64_eq x y \<longleftrightarrow> f64_eq y x"
  by (auto simp: f64_eq_def)

lemma f64_eq_refl_iff: "f64_eq x x \<longleftrightarrow> \<not> f64_is_nan x"
  by (simp add: f64_eq_def)

end
