(* ===== verification/Bf_Value.thy ===== *)
theory Bf_Value
  imports Bf_Float
begin

text \<open>
  Runtime values and message envelopes (\<^verbatim>\<open>bytecode/value.rs\<close>, \<^verbatim>\<open>bytecode/pattern.rs\<close>).
  A value is a tree; \<^verbatim>\<open>Arc\<close> only shares immutable nodes and is not visible here.
  Text is its UTF-8 byte sequence.  The walks over a value are written with the
  depth parameter and the early returns of the source, and then shown equal to
  two reference measures, the nesting depth and the number of owned heap bytes.
\<close>

section \<open>Data\<close>

type_synonym cap_id = u128

definition cap_NONE :: cap_id where
  "cap_NONE = 0"

definition cap_is_none :: "cap_id \<Rightarrow> bool" where
  "cap_is_none c \<longleftrightarrow> c = 0"

datatype 'v message = Message
  (msg_sender: u64) (msg_reply_cap: cap_id) (msg_request_id: u64) (msg_tag: u16) (msg_payload: 'v)

datatype map_key = KInt i64 | KStr "u8 list"

datatype "value" =
    VUnit
  | VBool bool
  | VInt i64
  | VFloat f64
  | VPid u64
  | VMessage "value message"
  | VCap cap_id
  | VStr "u8 list"
  | VBytes "u8 list"
  | VList "value list"
  | VMap "(map_key \<times> value) list"
  | VRecord "value list"

definition TAG_SYS_DOWN :: u16 where "TAG_SYS_DOWN = 0xFF01"
definition TAG_SYS_EXIT :: u16 where "TAG_SYS_EXIT = 0xFF02"
definition TAG_SYS_AWAIT :: u16 where "TAG_SYS_AWAIT = 0xFF03"

definition MAX_LIST_LEN :: nat where "MAX_LIST_LEN = 256"
definition MAX_MAP_LEN :: nat where "MAX_MAP_LEN = 256"
definition MAX_RECORD_LEN :: nat where "MAX_RECORD_LEN = 256"

text \<open>The nesting ceiling of the decoder (\<^verbatim>\<open>bytecode/format.rs\<close>).\<close>

definition MAX_VALUE_DEPTH :: nat where "MAX_VALUE_DEPTH = 16"

text \<open>
  \<^verbatim>\<open>size_of::<Value>()\<close> of a 64-bit target: the 48 bytes of an envelope and the
  discriminant, at the alignment of \<^verbatim>\<open>u128\<close>.  No theorem depends on the number
  beyond \<open>0 < size_of_value\<close> and \<open>size_of_value \<le> 64\<close>.
\<close>

definition size_of_value :: nat where "size_of_value = 64"

section \<open>Envelopes\<close>

definition Message_new :: "u64 \<Rightarrow> u64 \<Rightarrow> u16 \<Rightarrow> value \<Rightarrow> value message" where
  "Message_new sender request_id tag payload = Message sender cap_NONE request_id tag payload"

definition Message_request :: "u64 \<Rightarrow> u16 \<Rightarrow> value \<Rightarrow> value message" where
  "Message_request request_id tag payload = Message_new 0 request_id tag payload"

definition Message_reply_to :: "value message \<Rightarrow> u16 \<Rightarrow> value \<Rightarrow> value message" where
  "Message_reply_to req tag payload = Message_new 0 (msg_request_id req) tag payload"

definition Message_down :: "u64 \<Rightarrow> u64 \<Rightarrow> u64 \<Rightarrow> value message" where
  "Message_down monitor target_flow reason =
     Message_new target_flow monitor TAG_SYS_DOWN (VInt reason)"

definition Message_linked_exit :: "u64 \<Rightarrow> u64 \<Rightarrow> value message" where
  "Message_linked_exit target_flow reason = Message_new target_flow 0 TAG_SYS_EXIT (VInt reason)"

definition Message_is_down :: "value message \<Rightarrow> bool" where
  "Message_is_down m \<longleftrightarrow> msg_tag m = TAG_SYS_DOWN"

definition Message_is_exit :: "value message \<Rightarrow> bool" where
  "Message_is_exit m \<longleftrightarrow> msg_tag m = TAG_SYS_EXIT"

definition authenticate :: "value message \<Rightarrow> u64 \<Rightarrow> cap_id \<Rightarrow> value message" where
  "authenticate m sender reply_cap =
     Message sender reply_cap (msg_request_id m) (msg_tag m) (msg_payload m)"

definition with_payload :: "value message \<Rightarrow> value \<Rightarrow> value message" where
  "with_payload m payload =
     Message (msg_sender m) (msg_reply_cap m) (msg_request_id m) (msg_tag m) payload"

section \<open>Observers\<close>

fun wire_tag :: "value \<Rightarrow> u8" where
  "wire_tag VUnit = 0"
| "wire_tag (VBool _) = 1"
| "wire_tag (VInt _) = 2"
| "wire_tag (VFloat _) = 3"
| "wire_tag (VPid _) = 4"
| "wire_tag (VMessage _) = 5"
| "wire_tag (VCap _) = 6"
| "wire_tag (VStr _) = 7"
| "wire_tag (VBytes _) = 8"
| "wire_tag (VList _) = 9"
| "wire_tag (VMap _) = 10"
| "wire_tag (VRecord _) = 11"

fun map_get :: "value \<Rightarrow> map_key \<Rightarrow> value option" where
  "map_get (VMap entries) key = map_option snd (find (\<lambda>(existing, _). existing = key) entries)"
| "map_get _ key = None"

fun is_scalar :: "value \<Rightarrow> bool" where
  "is_scalar VUnit = True"
| "is_scalar (VBool _) = True"
| "is_scalar (VInt _) = True"
| "is_scalar (VFloat _) = True"
| "is_scalar (VPid _) = True"
| "is_scalar (VCap _) = True"
| "is_scalar _ = False"

fun is_truthy :: "value \<Rightarrow> bool" where
  "is_truthy VUnit = False"
| "is_truthy (VBool b) = b"
| "is_truthy (VInt i) = (i \<noteq> 0)"
| "is_truthy (VStr s) = (s \<noteq> [])"
| "is_truthy (VBytes b) = (b \<noteq> [])"
| "is_truthy (VList items) = (items \<noteq> [])"
| "is_truthy (VRecord items) = (items \<noteq> [])"
| "is_truthy (VMap entries) = (entries \<noteq> [])"
| "is_truthy _ = True"

fun as_int :: "value \<Rightarrow> i64 option" where
  "as_int (VInt i) = Some i"
| "as_int (VBool b) = Some (if b then 1 else 0)"
| "as_int _ = None"

fun as_pid :: "value \<Rightarrow> u64 option" where
  "as_pid (VPid p) = Some p"
| "as_pid _ = None"

fun as_cap :: "value \<Rightarrow> cap_id option" where
  "as_cap (VCap c) = Some c"
| "as_cap _ = None"

fun as_message :: "value \<Rightarrow> value message option" where
  "as_message (VMessage m) = Some m"
| "as_message _ = None"

fun as_str :: "value \<Rightarrow> u8 list option" where
  "as_str (VStr s) = Some s"
| "as_str _ = None"

fun as_bytes :: "value \<Rightarrow> u8 list option" where
  "as_bytes (VBytes b) = Some b"
| "as_bytes (VStr s) = Some s"
| "as_bytes _ = None"

fun type_name :: "value \<Rightarrow> string" where
  "type_name VUnit = ''unit''"
| "type_name (VBool _) = ''bool''"
| "type_name (VInt _) = ''int''"
| "type_name (VFloat _) = ''float''"
| "type_name (VPid _) = ''pid''"
| "type_name (VMessage _) = ''message''"
| "type_name (VCap _) = ''cap''"
| "type_name (VStr _) = ''str''"
| "type_name (VBytes _) = ''bytes''"
| "type_name (VList _) = ''list''"
| "type_name (VMap _) = ''map''"
| "type_name (VRecord _) = ''record''"

definition value_from_u64 :: "u64 \<Rightarrow> value" where
  "value_from_u64 v = VInt (if unat v < 2 ^ 63 then v else 2 ^ 63 - 1)"

text \<open>The derived equality: structural, with the IEEE comparison on floats.\<close>

lemma size_entry_lt [termination_simp]:
  "e \<in> set es \<Longrightarrow> size (snd e) < Suc (size_list (size_prod (\<lambda>_. 0) size) es)"
proof (induction es)
  case (Cons a es)
  then show ?case by (cases a) (auto simp del: size_prod_simp)
qed simp

fun value_eq :: "value \<Rightarrow> value \<Rightarrow> bool" where
  "value_eq VUnit w = (w = VUnit)"
| "value_eq (VBool a) w = (case w of VBool b \<Rightarrow> a = b | _ \<Rightarrow> False)"
| "value_eq (VInt a) w = (case w of VInt b \<Rightarrow> a = b | _ \<Rightarrow> False)"
| "value_eq (VFloat a) w = (case w of VFloat b \<Rightarrow> f64_eq a b | _ \<Rightarrow> False)"
| "value_eq (VPid a) w = (case w of VPid b \<Rightarrow> a = b | _ \<Rightarrow> False)"
| "value_eq (VMessage (Message s r q t p)) w =
     (case w of VMessage m \<Rightarrow> s = msg_sender m \<and> r = msg_reply_cap m \<and> q = msg_request_id m \<and>
        t = msg_tag m \<and> value_eq p (msg_payload m) | _ \<Rightarrow> False)"
| "value_eq (VCap a) w = (case w of VCap b \<Rightarrow> a = b | _ \<Rightarrow> False)"
| "value_eq (VStr a) w = (case w of VStr b \<Rightarrow> a = b | _ \<Rightarrow> False)"
| "value_eq (VBytes a) w = (case w of VBytes b \<Rightarrow> a = b | _ \<Rightarrow> False)"
| "value_eq (VList a) w =
     (case w of VList b \<Rightarrow> list_all2 (\<lambda>x y. value_eq x y) a b | _ \<Rightarrow> False)"
| "value_eq (VMap a) w =
     (case w of VMap b \<Rightarrow> list_all2 (\<lambda>x y. fst x = fst y \<and> value_eq (snd x) (snd y)) a b
      | _ \<Rightarrow> False)"
| "value_eq (VRecord a) w =
     (case w of VRecord b \<Rightarrow> list_all2 (\<lambda>x y. value_eq x y) a b | _ \<Rightarrow> False)"

definition payload_matches :: "u16 \<Rightarrow> value \<Rightarrow> value \<Rightarrow> bool" where
  "payload_matches tag expected hop =
     (case as_message hop of
        Some m \<Rightarrow> msg_tag m = tag \<and> value_eq (msg_payload m) expected
      | None \<Rightarrow> False)"

section \<open>Nesting and construction\<close>

fun nesting_walk :: "value \<Rightarrow> nat \<Rightarrow> bool" where
  "nesting_walk (VMessage (Message s r q t p)) depth =
     (if depth > MAX_VALUE_DEPTH then False else nesting_walk p (depth + 1))"
| "nesting_walk (VList items) depth =
     (if depth > MAX_VALUE_DEPTH then False else list_all (\<lambda>item. nesting_walk item (depth + 1)) items)"
| "nesting_walk (VRecord items) depth =
     (if depth > MAX_VALUE_DEPTH then False else list_all (\<lambda>item. nesting_walk item (depth + 1)) items)"
| "nesting_walk (VMap entries) depth =
     (if depth > MAX_VALUE_DEPTH then False
      else list_all (\<lambda>e. nesting_walk (snd e) (depth + 1)) entries)"
| "nesting_walk _ depth = (if depth > MAX_VALUE_DEPTH then False else True)"

definition within_nesting_limit :: "value \<Rightarrow> bool" where
  "within_nesting_limit v = nesting_walk v 0"

primrec dup_walk :: "(map_key \<times> value) list \<Rightarrow> map_key list \<Rightarrow> bool" where
  "dup_walk [] seen = False"
| "dup_walk (e # es) seen = (if fst e \<in> set seen then True else dup_walk es (fst e # seen))"

definition map_has_duplicate_key :: "(map_key \<times> value) list \<Rightarrow> bool" where
  "map_has_duplicate_key entries = dup_walk entries []"

definition try_map :: "(map_key \<times> value) list \<Rightarrow> value option" where
  "try_map entries =
     (if length entries > MAX_MAP_LEN \<or> map_has_duplicate_key entries then None
      else if within_nesting_limit (VMap entries) then Some (VMap entries) else None)"

definition try_list :: "value list \<Rightarrow> value option" where
  "try_list items =
     (if length items > MAX_LIST_LEN then None
      else if within_nesting_limit (VList items) then Some (VList items) else None)"

definition try_record :: "value list \<Rightarrow> value option" where
  "try_record fields =
     (if length fields > MAX_RECORD_LEN then None
      else if within_nesting_limit (VRecord fields) then Some (VRecord fields) else None)"

section \<open>Rewriting capabilities and envelopes\<close>

text \<open>
  The two closures of \<^verbatim>\<open>map_caps\<close> may change captured state and may fail, so they
  are functions in the state-threading result monad; \<open>on_message\<close> mutates the
  envelope it is given and returns the new one.
\<close>

fun map_caps ::
  "'e \<Rightarrow> (cap_id \<Rightarrow> ('s, 'e, cap_id) fallible) \<Rightarrow>
   (value message \<Rightarrow> ('s, 'e, value message) fallible) \<Rightarrow>
   value \<Rightarrow> nat \<Rightarrow> ('s, 'e, value) fallible" where
  "map_caps too_nested on_cap on_message (VCap c) depth st =
     (if depth > MAX_VALUE_DEPTH then (Inl too_nested, st)
      else if cap_is_none c then (Inr (VCap c), st)
      else bindS (on_cap c) (\<lambda>c'. returnS (VCap c')) st)"
| "map_caps too_nested on_cap on_message (VMessage (Message s r q t p)) depth st =
     (if depth > MAX_VALUE_DEPTH then (Inl too_nested, st)
      else bindS (\<lambda>u. map_caps too_nested on_cap on_message p (depth + 1) u) (\<lambda>payload.
           bindS (on_message (with_payload (Message s r q t p) payload)) (\<lambda>m.
           returnS (VMessage m))) st)"
| "map_caps too_nested on_cap on_message (VList items) depth st =
     (if depth > MAX_VALUE_DEPTH then (Inl too_nested, st)
      else bindS (mapS (\<lambda>item u. map_caps too_nested on_cap on_message item (depth + 1) u) items)
             (\<lambda>vs. liftS (ok_or too_nested (try_list vs))) st)"
| "map_caps too_nested on_cap on_message (VMap entries) depth st =
     (if depth > MAX_VALUE_DEPTH then (Inl too_nested, st)
      else bindS (mapS (\<lambda>e u. bindS (\<lambda>u'. map_caps too_nested on_cap on_message (snd e) (depth + 1) u')
                          (\<lambda>v. returnS (fst e, v)) u) entries)
             (\<lambda>es. liftS (ok_or too_nested (try_map es))) st)"
| "map_caps too_nested on_cap on_message (VRecord fields) depth st =
     (if depth > MAX_VALUE_DEPTH then (Inl too_nested, st)
      else bindS (mapS (\<lambda>f u. map_caps too_nested on_cap on_message f (depth + 1) u) fields)
             (\<lambda>vs. liftS (ok_or too_nested (try_record vs))) st)"
| "map_caps too_nested on_cap on_message other depth st =
     (if depth > MAX_VALUE_DEPTH then (Inl too_nested, st) else (Inr other, st))"

text \<open>\<open>mint\<close> draws the next request id from captured state.\<close>

definition stamp_message :: "u64 \<Rightarrow> ('s \<Rightarrow> u64 \<times> 's) \<Rightarrow> value message \<Rightarrow> 's \<Rightarrow> value message \<times> 's" where
  "stamp_message sender_if_unset mint m st =
     (let sender = (if msg_sender m = 0 \<and> sender_if_unset \<noteq> 0 then sender_if_unset else msg_sender m);
          (request_id, st') = (if msg_request_id m = 0 then mint st else (msg_request_id m, st))
      in (Message sender (msg_reply_cap m) request_id (msg_tag m) (msg_payload m), st'))"

fun stamp_unset_envelopes ::
  "u64 \<Rightarrow> ('s \<Rightarrow> u64 \<times> 's) \<Rightarrow> value \<Rightarrow> nat \<Rightarrow> ('s, unit, value) fallible" where
  "stamp_unset_envelopes sender mint (VMessage (Message s r q t p)) depth st =
     (if depth > MAX_VALUE_DEPTH then (Inl (), st)
      else bindS (\<lambda>u. stamp_unset_envelopes sender mint p (depth + 1) u) (\<lambda>payload u.
           case stamp_message sender mint (with_payload (Message s r q t p) payload) u of
             (m, u') \<Rightarrow> (Inr (VMessage m), u')) st)"
| "stamp_unset_envelopes sender mint (VList items) depth st =
     (if depth > MAX_VALUE_DEPTH then (Inl (), st)
      else bindS (mapS (\<lambda>item u. stamp_unset_envelopes sender mint item (depth + 1) u) items)
             (\<lambda>vs. liftS (ok_or () (try_list vs))) st)"
| "stamp_unset_envelopes sender mint (VMap entries) depth st =
     (if depth > MAX_VALUE_DEPTH then (Inl (), st)
      else bindS (mapS (\<lambda>e u. bindS (\<lambda>u'. stamp_unset_envelopes sender mint (snd e) (depth + 1) u')
                          (\<lambda>v. returnS (fst e, v)) u) entries)
             (\<lambda>es. liftS (ok_or () (try_map es))) st)"
| "stamp_unset_envelopes sender mint (VRecord fields) depth st =
     (if depth > MAX_VALUE_DEPTH then (Inl (), st)
      else bindS (mapS (\<lambda>f u. stamp_unset_envelopes sender mint f (depth + 1) u) fields)
             (\<lambda>vs. liftS (ok_or () (try_record vs))) st)"
| "stamp_unset_envelopes sender mint other depth st =
     (if depth > MAX_VALUE_DEPTH then (Inl (), st) else (Inr other, st))"

fun contains_live_cap :: "value \<Rightarrow> nat \<Rightarrow> bool" where
  "contains_live_cap (VCap c) depth =
     (if depth > MAX_VALUE_DEPTH then True else \<not> cap_is_none c)"
| "contains_live_cap (VMessage (Message s r q t p)) depth =
     (if depth > MAX_VALUE_DEPTH then True
      else \<not> cap_is_none r \<or> contains_live_cap p (depth + 1))"
| "contains_live_cap (VList items) depth =
     (if depth > MAX_VALUE_DEPTH then True
      else list_ex (\<lambda>item. contains_live_cap item (depth + 1)) items)"
| "contains_live_cap (VRecord items) depth =
     (if depth > MAX_VALUE_DEPTH then True
      else list_ex (\<lambda>item. contains_live_cap item (depth + 1)) items)"
| "contains_live_cap (VMap entries) depth =
     (if depth > MAX_VALUE_DEPTH then True
      else list_ex (\<lambda>e. contains_live_cap (snd e) (depth + 1)) entries)"
| "contains_live_cap _ depth = (if depth > MAX_VALUE_DEPTH then True else False)"

section \<open>Sizes\<close>

text \<open>
  The loop of \<^verbatim>\<open>heap_size_limited\<close>: \<open>extra\<close> accumulates along a chain of envelopes
  and along the elements of a container; an element starts its own walk at \<open>0\<close>.
\<close>

fun heap_walk :: "value \<Rightarrow> nat \<Rightarrow> usize \<Rightarrow> usize option" where
  "heap_walk (VMessage (Message s r q t p)) depth extra =
     (if depth \<ge> MAX_VALUE_DEPTH then None
      else Option.bind (checked_add extra size_of_value) (\<lambda>extra. heap_walk p (depth + 1) extra))"
| "heap_walk (VList items) depth extra =
     (if depth \<ge> MAX_VALUE_DEPTH then None
      else Option.bind (checked_mul (length items) size_of_value) (\<lambda>slots.
           Option.bind (checked_add extra slots) (\<lambda>extra.
           foldO (\<lambda>item extra. Option.bind (heap_walk item (depth + 1) 0) (checked_add extra))
             items extra)))"
| "heap_walk (VRecord items) depth extra =
     (if depth \<ge> MAX_VALUE_DEPTH then None
      else Option.bind (checked_mul (length items) size_of_value) (\<lambda>slots.
           Option.bind (checked_add extra slots) (\<lambda>extra.
           foldO (\<lambda>item extra. Option.bind (heap_walk item (depth + 1) 0) (checked_add extra))
             items extra)))"
| "heap_walk (VMap entries) depth extra =
     (if depth \<ge> MAX_VALUE_DEPTH then None
      else Option.bind (checked_mul (length entries) size_of_value) (\<lambda>slots.
           Option.bind (checked_add extra slots) (\<lambda>extra.
           foldO (\<lambda>e extra.
             Option.bind (case fst e of KStr text \<Rightarrow> checked_add extra (length text) | KInt _ \<Rightarrow> Some extra)
               (\<lambda>extra. Option.bind (heap_walk (snd e) (depth + 1) 0) (checked_add extra)))
             entries extra)))"
| "heap_walk (VStr s) depth extra = checked_add extra (length s)"
| "heap_walk (VBytes b) depth extra = checked_add extra (length b)"
| "heap_walk _ depth extra = Some extra"

definition heap_size_limited :: "value \<Rightarrow> usize option" where
  "heap_size_limited v = heap_walk v 0 0"

definition heap_size :: "value \<Rightarrow> usize" where
  "heap_size v = (case heap_size_limited v of Some n \<Rightarrow> n | None \<Rightarrow> usize_max)"

definition memory_size :: "value \<Rightarrow> usize" where
  "memory_size v =
     (case heap_size_limited v of
        Some heap \<Rightarrow> saturating_add size_of_value heap
      | None \<Rightarrow> usize_max)"

section \<open>Reference measures\<close>

lemma value_induct [case_names Unit Bool Int Float Pid Message Cap Str Bytes List Map Record]:
  assumes "P VUnit" "\<And>b. P (VBool b)" "\<And>i. P (VInt i)" "\<And>f. P (VFloat f)" "\<And>p. P (VPid p)"
    and "\<And>s r q t p. P p \<Longrightarrow> P (VMessage (Message s r q t p))"
    and "\<And>c. P (VCap c)" "\<And>s. P (VStr s)" "\<And>b. P (VBytes b)"
    and "\<And>xs. (\<And>x. x \<in> set xs \<Longrightarrow> P x) \<Longrightarrow> P (VList xs)"
    and "\<And>es. (\<And>e. e \<in> set es \<Longrightarrow> P (snd e)) \<Longrightarrow> P (VMap es)"
    and "\<And>xs. (\<And>x. x \<in> set xs \<Longrightarrow> P x) \<Longrightarrow> P (VRecord xs)"
  shows "P v"
proof (induction v)
  case (VMessage m)
  then show ?case using assms(6) by (cases m) auto
next
  case (VMap es)
  show ?case
  proof (rule assms(11))
    fix e assume "e \<in> set es"
    then show "P (snd e)" using VMap [of e "snd e"] by (cases e) (auto simp: snds.simps)
  qed
qed (use assms in auto)

text \<open>Levels below the value, and levels counting an empty container as one more.\<close>

fun depth_below :: "value \<Rightarrow> nat" where
  "depth_below (VMessage (Message s r q t p)) = Suc (depth_below p)"
| "depth_below (VList xs) = foldr max (map (\<lambda>x. Suc (depth_below x)) xs) 0"
| "depth_below (VRecord xs) = foldr max (map (\<lambda>x. Suc (depth_below x)) xs) 0"
| "depth_below (VMap es) = foldr max (map (\<lambda>e. Suc (depth_below (snd e))) es) 0"
| "depth_below _ = 0"

fun container_levels :: "value \<Rightarrow> nat" where
  "container_levels (VMessage (Message s r q t p)) = Suc (container_levels p)"
| "container_levels (VList xs) = Suc (foldr max (map (\<lambda>x. container_levels x) xs) 0)"
| "container_levels (VRecord xs) = Suc (foldr max (map (\<lambda>x. container_levels x) xs) 0)"
| "container_levels (VMap es) = Suc (foldr max (map (\<lambda>e. container_levels (snd e)) es) 0)"
| "container_levels _ = 0"

fun key_bytes :: "map_key \<Rightarrow> nat" where
  "key_bytes (KInt _) = 0"
| "key_bytes (KStr s) = length s"

fun heap_bytes :: "value \<Rightarrow> nat" where
  "heap_bytes (VMessage (Message s r q t p)) = size_of_value + heap_bytes p"
| "heap_bytes (VList xs) = length xs * size_of_value + sum_list (map (\<lambda>x. heap_bytes x) xs)"
| "heap_bytes (VRecord xs) = length xs * size_of_value + sum_list (map (\<lambda>x. heap_bytes x) xs)"
| "heap_bytes (VMap es) =
     length es * size_of_value + sum_list (map (\<lambda>e. key_bytes (fst e) + heap_bytes (snd e)) es)"
| "heap_bytes (VStr s) = length s"
| "heap_bytes (VBytes b) = length b"
| "heap_bytes _ = 0"

lemma foldr_max_le:
  "d + foldr max (map f xs) 0 \<le> (n :: nat) \<longleftrightarrow> d \<le> n \<and> (\<forall>x \<in> set xs. d + f x \<le> n)"
  by (induction xs) auto

lemma nesting_walk_iff: "nesting_walk v d \<longleftrightarrow> d + depth_below v \<le> MAX_VALUE_DEPTH"
  by (induction v arbitrary: d rule: value_induct)
    (auto simp: list_all_iff foldr_max_le simp flip: add_Suc_shift)

lemma within_nesting_limit_iff: "within_nesting_limit v \<longleftrightarrow> depth_below v \<le> MAX_VALUE_DEPTH"
  by (simp add: within_nesting_limit_def nesting_walk_iff)

lemma foldO_sum:
  assumes "\<And>x e. x \<in> set xs \<Longrightarrow> e \<le> n \<Longrightarrow>
    f x e = (if P x \<and> e + g x \<le> n then Some (e + g x) else None)"
    and "e \<le> (n :: nat)"
  shows "foldO f xs e =
    (if (\<forall>x \<in> set xs. P x) \<and> e + sum_list (map g xs) \<le> n then Some (e + sum_list (map g xs)) else None)"
  using assms by (induction xs arbitrary: e) (auto simp: add.assoc)

lemma slots_walk_eq:
  assumes "\<And>x e. x \<in> set xs \<Longrightarrow> e \<le> usize_max \<Longrightarrow>
    f x e = (if P x \<and> e + g x \<le> usize_max then Some (e + g x) else None)"
  shows "Option.bind (checked_mul (length xs) size_of_value)
      (\<lambda>slots. Option.bind (checked_add e slots) (foldO f xs)) =
    (if (\<forall>x \<in> set xs. P x) \<and> e + (length xs * size_of_value + sum_list (map g xs)) \<le> usize_max
     then Some (e + (length xs * size_of_value + sum_list (map g xs))) else None)"
  using foldO_sum [of xs usize_max f P g "e + length xs * size_of_value", OF assms]
  by (auto simp: checked_add_def checked_mul_def add.assoc simp del: usize_max_eq)

lemma container_levels_le:
  "Suc (d + foldr max (map f xs) 0) \<le> n \<longleftrightarrow> d < n \<and> (\<forall>x \<in> set xs. f x = 0 \<or> Suc (d + f x) \<le> (n :: nat))"
  using foldr_max_le [of "Suc d" f xs n] by fastforce

lemma heap_walk_eq:
  assumes "e \<le> usize_max"
  shows "heap_walk v d e =
    (if (container_levels v = 0 \<or> d + container_levels v \<le> MAX_VALUE_DEPTH) \<and> e + heap_bytes v \<le> usize_max
     then Some (e + heap_bytes v) else None)"
  using assms
proof (induction v arbitrary: d e rule: value_induct)
  case (Message s r q t p)
  then show ?case
    by (auto simp: checked_add_def)
next
  case (List xs)
  have "Option.bind (heap_walk x (d + 1) 0) (checked_add e) =
      (if (container_levels x = 0 \<or> Suc (d + container_levels x) \<le> MAX_VALUE_DEPTH) \<and>
         e + heap_bytes x \<le> usize_max then Some (e + heap_bytes x) else None)" if "x \<in> set xs" for x e
    using List.IH [OF that, of 0 "d + 1"] by (auto simp: checked_add_def)
  from slots_walk_eq [of xs, OF this] show ?case
    by (simp add: container_levels_le del: usize_max_eq)
next
  case (Map es)
  have "Option.bind (case fst x of KStr text \<Rightarrow> checked_add e (length text) | KInt _ \<Rightarrow> Some e)
       (\<lambda>e. Option.bind (heap_walk (snd x) (d + 1) 0) (checked_add e)) =
      (if (container_levels (snd x) = 0 \<or> Suc (d + container_levels (snd x)) \<le> MAX_VALUE_DEPTH) \<and>
         e + (key_bytes (fst x) + heap_bytes (snd x)) \<le> usize_max
       then Some (e + (key_bytes (fst x) + heap_bytes (snd x))) else None)"
    if "x \<in> set es" "e \<le> usize_max" for x e
    using Map.IH [OF that(1), of 0 "d + 1"] that(2)
    by (auto simp: checked_add_def split: map_key.split)
  from slots_walk_eq [of es, OF this] show ?case
    by (simp add: container_levels_le del: usize_max_eq)
next
  case (Record xs)
  have "Option.bind (heap_walk x (d + 1) 0) (checked_add e) =
      (if (container_levels x = 0 \<or> Suc (d + container_levels x) \<le> MAX_VALUE_DEPTH) \<and>
         e + heap_bytes x \<le> usize_max then Some (e + heap_bytes x) else None)" if "x \<in> set xs" for x e
    using Record.IH [OF that, of 0 "d + 1"] by (auto simp: checked_add_def)
  from slots_walk_eq [of xs, OF this] show ?case
    by (simp add: container_levels_le del: usize_max_eq)
qed (auto simp: checked_add_def)

lemma le_foldr_max: "x \<in> set xs \<Longrightarrow> f x \<le> foldr max (map f xs) (0 :: nat)"
  by (induction xs) auto

lemma le_foldr_max_entry:
  "(a, b) \<in> set es \<Longrightarrow> f b \<le> foldr max (map (\<lambda>e. f (snd e)) es) (0 :: nat)"
  using le_foldr_max [of "(a, b)" es "\<lambda>e. f (snd e)"] by simp

lemma depth_below_le_container_levels: "depth_below v \<le> container_levels v"
proof (induction v rule: value_induct)
  case (Map es)
  then show ?case
    using le_foldr_max_entry [of _ _ es container_levels]
    by (auto simp: foldr_max_le [of 0, simplified]) (meson order_trans)
qed (auto simp: foldr_max_le [of 0, simplified] intro: le_foldr_max order_trans)

lemma memory_size_eq:
  "memory_size v =
     (if container_levels v \<le> MAX_VALUE_DEPTH \<and> heap_bytes v \<le> usize_max
      then min usize_max (size_of_value + heap_bytes v) else usize_max)"
  by (auto simp: memory_size_def heap_size_limited_def heap_walk_eq saturating_add_def
      simp del: usize_max_eq)

section \<open>Where tokens and envelopes occur\<close>

text \<open>Tokens held as values, and the envelopes, outermost first.\<close>

fun tokens :: "value \<Rightarrow> cap_id set" where
  "tokens (VCap c) = {c}"
| "tokens (VMessage (Message s r q t p)) = tokens p"
| "tokens (VList xs) = (\<Union>x \<in> set xs. tokens x)"
| "tokens (VRecord xs) = (\<Union>x \<in> set xs. tokens x)"
| "tokens (VMap es) = (\<Union>e \<in> set es. tokens (snd e))"
| "tokens _ = {}"

fun envelopes :: "value \<Rightarrow> value message list" where
  "envelopes (VMessage (Message s r q t p)) = Message s r q t p # envelopes p"
| "envelopes (VList xs) = concat (map (\<lambda>x. envelopes x) xs)"
| "envelopes (VRecord xs) = concat (map (\<lambda>x. envelopes x) xs)"
| "envelopes (VMap es) = concat (map (\<lambda>e. envelopes (snd e)) es)"
| "envelopes _ = []"

definition reply_caps :: "value \<Rightarrow> cap_id set" where
  "reply_caps v = msg_reply_cap ` set (envelopes v)"

lemma reply_caps_simps [simp]:
  "reply_caps (VMessage (Message s r q t p)) = insert r (reply_caps p)"
  "reply_caps (VList xs) = (\<Union>x \<in> set xs. reply_caps x)"
  "reply_caps (VRecord xs) = (\<Union>x \<in> set xs. reply_caps x)"
  "reply_caps (VMap es) = (\<Union>e \<in> set es. reply_caps (snd e))"
  "reply_caps (VCap c) = {}" "reply_caps VUnit = {}" "reply_caps (VBool b) = {}"
  "reply_caps (VInt i) = {}" "reply_caps (VFloat f) = {}" "reply_caps (VPid p') = {}"
  "reply_caps (VStr t') = {}" "reply_caps (VBytes t') = {}"
  by (auto simp: reply_caps_def)

lemma contains_live_cap_iff:
  "contains_live_cap v d \<longleftrightarrow>
     \<not> nesting_walk v d \<or> (\<exists>c \<in> tokens v \<union> reply_caps v. \<not> cap_is_none c)"
  by (induction v arbitrary: d rule: value_induct) (auto simp: list_ex_iff list_all_iff)

text \<open>A constructor that succeeds returns the container it was given.\<close>

lemma try_constructors [result_simps]:
  "try_list xs = Some v \<longleftrightarrow> v = VList xs \<and> length xs \<le> MAX_LIST_LEN \<and> within_nesting_limit v"
  "try_record xs = Some v \<longleftrightarrow> v = VRecord xs \<and> length xs \<le> MAX_RECORD_LEN \<and> within_nesting_limit v"
  "try_map es = Some v \<longleftrightarrow> v = VMap es \<and> length es \<le> MAX_MAP_LEN \<and>
     \<not> map_has_duplicate_key es \<and> within_nesting_limit v"
  by (auto simp: try_list_def try_record_def try_map_def)

lemma dup_walk_iff: "dup_walk es seen \<longleftrightarrow> \<not> distinct (map fst es) \<or> set (map fst es) \<inter> set seen \<noteq> {}"
  by (induction es arbitrary: seen) auto

lemma map_has_duplicate_key_iff: "map_has_duplicate_key es \<longleftrightarrow> \<not> distinct (map fst es)"
  by (simp add: map_has_duplicate_key_def dup_walk_iff)

lemma list_all2_elem2: "list_all2 P xs ys \<Longrightarrow> \<forall>y \<in> set ys. \<exists>x \<in> set xs. P x y"
  by (induction rule: list_all2_induct) auto

text \<open>What a successful rewrite of a container did to its elements.\<close>

lemma map_caps_containerD:
  "map_caps e oc om (VList xs) d st = (Inr w, st') \<Longrightarrow> d \<le> MAX_VALUE_DEPTH \<and>
     (\<exists>ys. w = VList ys \<and> (\<forall>y \<in> set ys. \<exists>x \<in> set xs. \<exists>u u'. map_caps e oc om x (d + 1) u = (Inr y, u')))"
  "map_caps e oc om (VRecord xs) d st = (Inr w, st') \<Longrightarrow> d \<le> MAX_VALUE_DEPTH \<and>
     (\<exists>ys. w = VRecord ys \<and> (\<forall>y \<in> set ys. \<exists>x \<in> set xs. \<exists>u u'. map_caps e oc om x (d + 1) u = (Inr y, u')))"
  "map_caps e oc om (VMap es) d st = (Inr w, st') \<Longrightarrow> d \<le> MAX_VALUE_DEPTH \<and>
     (\<exists>fs. w = VMap fs \<and> (\<forall>y \<in> set fs. \<exists>x \<in> set es. \<exists>u u'.
        map_caps e oc om (snd x) (d + 1) u = (Inr (snd y), u')))"
  by (fastforce simp: result_simps split: if_splits dest!: mapS_all2 list_all2_elem2)+

text \<open>
  Every token and every reply grant of a rewritten value was produced by one of the
  closures, and the result respects the nesting ceiling.
\<close>

lemma map_caps_result:
  assumes "map_caps e oc om v d st = (Inr w, st')"
    and om: "\<And>m s m' s'. om m s = (Inr m', s') \<Longrightarrow> msg_payload m' = msg_payload m"
  shows "(\<forall>c \<in> tokens w. cap_is_none c \<or> (\<exists>c0 \<in> tokens v. \<not> cap_is_none c0 \<and> (\<exists>s s'. oc c0 s = (Inr c, s')))) \<and>
    (\<forall>c \<in> reply_caps w. \<exists>m s m' s'. om m s = (Inr m', s') \<and> c = msg_reply_cap m') \<and>
    nesting_walk w d"
  using assms(1)
proof (induction v arbitrary: d st w st' rule: value_induct)
  case (Message s r q t p)
  then obtain p' u m u' where m: "map_caps e oc om p (d + 1) st = (Inr p', u)"
    "om (Message s r q t p') u = (Inr m, u')" "w = VMessage m" "d \<le> MAX_VALUE_DEPTH"
    by (auto simp: result_simps with_payload_def split: if_splits)
  moreover from om [OF m(2)] obtain s' r' q' t' where "m = Message s' r' q' t' p'" by (cases m) auto
  ultimately show ?case using Message.IH [OF m(1)] by fastforce
next
  case (List xs)
  from map_caps_containerD(1) [OF List.prems] List.IH show ?case
    by (fastforce simp: list_all_iff)
next
  case (Map es)
  from map_caps_containerD(3) [OF Map.prems] Map.IH show ?case
    by (fastforce simp: list_all_iff)
next
  case (Record xs)
  from map_caps_containerD(2) [OF Record.prems] Record.IH show ?case
    by (fastforce simp: list_all_iff)
qed (auto simp: result_simps split: if_splits)

text \<open>
  What stamping may change of a value: unset senders and unset request ids, nothing else.
\<close>

definition stamped :: "u64 \<Rightarrow> value message \<Rightarrow> value message \<Rightarrow> bool" where
  "stamped S m m' \<longleftrightarrow> msg_tag m' = msg_tag m \<and> msg_reply_cap m' = msg_reply_cap m \<and>
     msg_sender m' = (if msg_sender m = 0 then S else msg_sender m) \<and>
     (msg_request_id m \<noteq> 0 \<longrightarrow> msg_request_id m' = msg_request_id m)"

definition stamp_ok :: "u64 \<Rightarrow> ('s \<Rightarrow> u64 \<times> 's) \<Rightarrow> value \<Rightarrow> value \<Rightarrow> bool" where
  "stamp_ok S mint v w \<longleftrightarrow> list_all2 (stamped S) (envelopes v) (envelopes w) \<and> tokens w = tokens v \<and>
     ((\<forall>s. fst (mint s) \<noteq> 0) \<longrightarrow> (\<forall>m \<in> set (envelopes w). msg_request_id m \<noteq> 0))"

lemma stamp_ok_VList: "list_all2 (stamp_ok S mint) xs ys \<Longrightarrow> stamp_ok S mint (VList xs) (VList ys)"
  by (induction rule: list_all2_induct) (auto simp: stamp_ok_def intro: list_all2_appendI)

lemma stamp_ok_VRecord: "list_all2 (stamp_ok S mint) xs ys \<Longrightarrow> stamp_ok S mint (VRecord xs) (VRecord ys)"
  by (drule stamp_ok_VList) (simp add: stamp_ok_def)

lemma stamp_ok_VMap:
  "list_all2 (\<lambda>x y. stamp_ok S mint (snd x) (snd y)) es fs \<Longrightarrow> stamp_ok S mint (VMap es) (VMap fs)"
  by (induction rule: list_all2_induct) (auto simp: stamp_ok_def intro: list_all2_appendI)

lemmas stamp_ok_container = stamp_ok_VList stamp_ok_VRecord stamp_ok_VMap

lemma stamp_containerD:
  "stamp_unset_envelopes S mint (VList xs) d st = (Inr w, st') \<Longrightarrow>
     \<exists>ys. w = VList ys \<and> list_all2 (\<lambda>x y. \<exists>u u'. stamp_unset_envelopes S mint x (d + 1) u = (Inr y, u')) xs ys"
  "stamp_unset_envelopes S mint (VRecord xs) d st = (Inr w, st') \<Longrightarrow>
     \<exists>ys. w = VRecord ys \<and> list_all2 (\<lambda>x y. \<exists>u u'. stamp_unset_envelopes S mint x (d + 1) u = (Inr y, u')) xs ys"
  "stamp_unset_envelopes S mint (VMap es) d st = (Inr w, st') \<Longrightarrow>
     \<exists>fs. w = VMap fs \<and> list_all2 (\<lambda>x y. fst y = fst x \<and>
       (\<exists>u u'. stamp_unset_envelopes S mint (snd x) (d + 1) u = (Inr (snd y), u'))) es fs"
  by (auto simp: result_simps split: if_splits dest!: mapS_all2 elim!: list_all2_mono) blast

lemma stamp_message_ok:
  assumes "stamp_message S mint (Message s r q t p') u = (m, u')" and "stamp_ok S mint p p'"
  shows "stamp_ok S mint (VMessage (Message s r q t p)) (VMessage m)"
proof -
  have "m = Message (if s = 0 then S else s) r (if q = 0 then fst (mint u) else q) t p'"
    using assms(1) by (auto simp: stamp_message_def Let_def split: prod.splits if_splits)
  then show ?thesis using assms(2) by (simp add: stamp_ok_def stamped_def)
qed

lemma stamp_result:
  assumes "stamp_unset_envelopes S mint v d st = (Inr w, st')"
  shows "stamp_ok S mint v w"
  using assms
proof (induction v arbitrary: d st w st' rule: value_induct)
  case (Message s r q t p)
  then obtain p' u where p': "stamp_unset_envelopes S mint p (d + 1) st = (Inr p', u)"
    and w: "(case stamp_message S mint (Message s r q t p') u of (m, u') \<Rightarrow> (Inr (VMessage m), u')) =
      (Inr w :: unit + value, st')"
    by (auto simp: result_simps with_payload_def split: if_splits)
  obtain m u' where "stamp_message S mint (Message s r q t p') u = (m, u')"
    by (cases "stamp_message S mint (Message s r q t p') u")
  with w stamp_message_ok [OF this Message.IH [OF p']] show ?case by simp
next
  case (List xs)
  from stamp_containerD(1) [OF List.prems] List.IH show ?case
    by (auto intro!: stamp_ok_container elim!: list.rel_mono_strong)
next
  case (Map es)
  from stamp_containerD(3) [OF Map.prems] Map.IH show ?case
    by (auto intro!: stamp_ok_container elim!: list.rel_mono_strong)
next
  case (Record xs)
  from stamp_containerD(2) [OF Record.prems] Record.IH show ?case
    by (auto intro!: stamp_ok_container elim!: list.rel_mono_strong)
qed (auto simp: result_simps stamp_ok_def split: if_splits)

text \<open>\<open>n\<close> envelopes around a payload.\<close>

fun hop_chain :: "nat \<Rightarrow> value \<Rightarrow> value" where
  "hop_chain 0 v = v"
| "hop_chain (Suc n) v = VMessage (Message 0 0 1 1 (hop_chain n v))"

section \<open>Properties\<close>

text \<open>
  C1: the size charged to a mailbox is exactly the value's own size plus the heap bytes
  it owns, saturated at \<^verbatim>\<open>usize::MAX\<close>; a value whose containers and envelopes nest past the
  ceiling, and in particular every value the nesting check refuses, is charged \<^verbatim>\<open>usize::MAX\<close>.
\<close>

theorem memory_size_reference:
  "memory_size v =
     (if container_levels v \<le> MAX_VALUE_DEPTH \<and> heap_bytes v \<le> usize_max
      then min usize_max (size_of_value + heap_bytes v) else usize_max) \<and>
   (\<not> within_nesting_limit v \<longrightarrow> memory_size v = usize_max)"
  using depth_below_le_container_levels [of v]
  by (auto simp: memory_size_eq within_nesting_limit_iff simp del: usize_max_eq)

theorem memory_size_reference_witness:
  "\<not> within_nesting_limit (hop_chain 17 VUnit) \<and> memory_size (hop_chain 17 VUnit) = usize_max"
  using memory_size_reference [of "hop_chain 17 VUnit"]
  by (simp add: within_nesting_limit_def MAX_VALUE_DEPTH_def eval_nat_numeral del: usize_max_eq)


text \<open>
  C3: the live-capability scan is exact and fails closed: it answers no only if the value
  is within the nesting ceiling and neither a token nor a reply grant in it is live.
\<close>

theorem contains_live_cap_exact:
  "\<not> contains_live_cap v 0 \<longleftrightarrow>
     within_nesting_limit v \<and> \<not> (\<exists>c. c \<in> tokens v \<union> reply_caps v \<and> \<not> cap_is_none c)"
  by (auto simp: contains_live_cap_iff within_nesting_limit_def)

text \<open>
  C4: after a successful rewrite of a value's capabilities, every live token in the result
  is the answer of the token closure for a live token of the source, every reply grant was
  put there by the envelope closure, and the result respects the nesting ceiling; so no
  capability crosses the boundary unchanged by hiding in a container.
\<close>

theorem map_caps_no_leak:
  assumes "map_caps too_nested on_cap on_message v 0 st = (Inr w, st')"
    and "\<And>m s m' s'. on_message m s = (Inr m', s') \<Longrightarrow> msg_payload m' = msg_payload m"
  shows "(\<forall>c \<in> tokens w. cap_is_none c \<or>
      (\<exists>c0 \<in> tokens v. \<not> cap_is_none c0 \<and> (\<exists>s s'. on_cap c0 s = (Inr c, s')))) \<and>
    (\<forall>c \<in> reply_caps w. \<exists>m s m' s'. on_message m s = (Inr m', s') \<and> c = msg_reply_cap m') \<and>
    within_nesting_limit w"
  using map_caps_result [OF assms] by (simp add: within_nesting_limit_def)

theorem map_caps_no_leak_witness:
  "(\<exists>c0 \<in> tokens (VList [VCap 5, VCap 0]). \<not> cap_is_none c0 \<and> 6 = c0 + 1) \<and>
     within_nesting_limit (VList [VCap 6, VCap 0])"
proof -
  have "map_caps () (\<lambda>c s. (Inr (c + 1), s)) (\<lambda>m s. (Inr m, s)) (VList [VCap 5, VCap 0]) 0 () =
      (Inr (VList [VCap 6, VCap 0]), ())"
    by (simp add: bindS_def returnS_def liftS_def try_list_def within_nesting_limit_def
        MAX_VALUE_DEPTH_def MAX_LIST_LEN_def cap_is_none_def)
  from map_caps_no_leak [OF this] show ?thesis by (auto simp: cap_is_none_def)
qed

text \<open>
  Stamping a value for a sender writes the sender only into envelopes that had none,
  keeps every request id that was set, changes no tag, reply grant or token, and leaves
  no envelope without a request id when the mint never draws zero.
\<close>

theorem stamp_unset_envelopes_exact:
  assumes "stamp_unset_envelopes sender mint v 0 st = (Inr w, st')"
  shows "list_all2 (stamped sender) (envelopes v) (envelopes w) \<and> tokens w = tokens v \<and>
    ((\<forall>s. fst (mint s) \<noteq> 0) \<longrightarrow> (\<forall>m \<in> set (envelopes w). msg_request_id m \<noteq> 0))"
  using stamp_result [OF assms] by (auto simp: stamp_ok_def)

theorem stamp_unset_envelopes_exact_witness:
  "list_all2 (stamped 7) (envelopes (VMessage (Message 0 3 0 9 VUnit)))
     (envelopes (VMessage (Message 7 3 41 9 VUnit)))"
proof -
  have "stamp_unset_envelopes 7 (\<lambda>n. (n, n + 1)) (VMessage (Message 0 3 0 9 VUnit)) 0 41 =
      (Inr (VMessage (Message 7 3 41 9 VUnit)), 42)"
    by (simp add: bindS_def stamp_message_def with_payload_def MAX_VALUE_DEPTH_def)
  from stamp_unset_envelopes_exact [OF this] show ?thesis by blast
qed

end
