(* ===== verification/Bf_HashMap.thy ===== *)
theory Bf_HashMap
  imports Bf_Prelude "HOL-Library.AList"
begin

text \<open>
  The \<^verbatim>\<open>HashMap\<close> operations the runtime tables are built from, as an association
  list with distinct keys, and the interface the table proofs use: what a lookup
  returns after an insert, a removal and a \<^verbatim>\<open>retain\<close>.
\<close>

type_synonym ('k, 'v) hash_map = "('k \<times> 'v) list"

definition hm_wf :: "('k, 'v) hash_map \<Rightarrow> bool" where
  "hm_wf m \<longleftrightarrow> distinct (map fst m)"

definition hm_get :: "('k, 'v) hash_map \<Rightarrow> 'k \<Rightarrow> 'v option" where
  "hm_get m k = map_of m k"

definition hm_insert :: "'k \<Rightarrow> 'v \<Rightarrow> ('k, 'v) hash_map \<Rightarrow> ('k, 'v) hash_map" where
  "hm_insert k v m = AList.update k v m"

definition hm_remove :: "'k \<Rightarrow> ('k, 'v) hash_map \<Rightarrow> ('k, 'v) hash_map" where
  "hm_remove k m = AList.delete k m"

definition hm_retain :: "('k \<Rightarrow> 'v \<Rightarrow> bool) \<Rightarrow> ('k, 'v) hash_map \<Rightarrow> ('k, 'v) hash_map" where
  "hm_retain P m = filter (\<lambda>(k, v). P k v) m"

definition hm_contains_key :: "('k, 'v) hash_map \<Rightarrow> 'k \<Rightarrow> bool" where
  "hm_contains_key m k \<longleftrightarrow> hm_get m k \<noteq> None"

section \<open>The interface\<close>

locale keyed_store =
  fixes get :: "'m \<Rightarrow> 'k \<Rightarrow> 'v option"
    and put :: "'k \<Rightarrow> 'v \<Rightarrow> 'm \<Rightarrow> 'm"
    and del :: "'k \<Rightarrow> 'm \<Rightarrow> 'm"
    and keep :: "('k \<Rightarrow> 'v \<Rightarrow> bool) \<Rightarrow> 'm \<Rightarrow> 'm"
    and wf_store :: "'m \<Rightarrow> bool"
  assumes get_put: "wf_store m \<Longrightarrow> get (put k v m) k' = (if k' = k then Some v else get m k')"
    and get_del: "wf_store m \<Longrightarrow> get (del k m) k' = (if k' = k then None else get m k')"
    and get_keep: "wf_store m \<Longrightarrow>
      get (keep P m) k = (case get m k of Some v \<Rightarrow> if P k v then Some v else None | None \<Rightarrow> None)"
    and wf_put: "wf_store m \<Longrightarrow> wf_store (put k v m)"
    and wf_del: "wf_store m \<Longrightarrow> wf_store (del k m)"
    and wf_keep: "wf_store m \<Longrightarrow> wf_store (keep P m)"
begin

text \<open>A sweep leaves exactly the entries that satisfy the predicate.\<close>

lemma keep_Some_iff: "wf_store m \<Longrightarrow> get (keep P m) k = Some v \<longleftrightarrow> get m k = Some v \<and> P k v"
  by (auto simp: get_keep split: option.splits)

text \<open>A table property of single entries survives inserting an entry that has it.\<close>

lemma put_entries:
  assumes "wf_store m" and "\<And>k v. get m k = Some v \<Longrightarrow> Q k v" and "Q k v"
    and "get (put k v m) k' = Some v'"
  shows "Q k' v'"
  using assms by (auto simp: get_put split: if_splits)

lemma keep_entries:
  assumes "wf_store m" and "\<And>k v. get m k = Some v \<Longrightarrow> Q k v" and "get (keep P m) k' = Some v'"
  shows "Q k' v'"
  using assms by (auto simp: keep_Some_iff)

lemma del_entries:
  assumes "wf_store m" and "\<And>k v. get m k = Some v \<Longrightarrow> Q k v" and "get (del k m) k' = Some v'"
  shows "Q k' v' \<and> k' \<noteq> k"
  using assms by (auto simp: get_del split: if_splits)

end

lemma map_of_filter_distinct:
  "distinct (map fst m) \<Longrightarrow> map_of (filter (\<lambda>(k, v). P k v) m) k =
     (case map_of m k of Some v \<Rightarrow> if P k v then Some v else None | None \<Rightarrow> None)"
  by (induction m) (auto split: option.splits simp: map_of_eq_None_iff image_iff)

interpretation hm: keyed_store hm_get hm_insert hm_remove hm_retain hm_wf
proof
  show "hm_get (hm_insert k v m) k' = (if k' = k then Some v else hm_get m k')"
    for k k' :: 'k and v :: 'v and m
    by (simp add: hm_get_def hm_insert_def update_conv')
  show "hm_get (hm_remove k m) k' = (if k' = k then None else hm_get m k')"
    for k k' :: 'k and m :: "('k \<times> 'v) list"
    by (simp add: hm_get_def hm_remove_def delete_conv')
qed (auto simp: hm_wf_def hm_get_def hm_insert_def hm_remove_def hm_retain_def
    map_of_filter_distinct distinct_update distinct_delete distinct_map_filter)

lemma hm_get_Nil [simp]: "hm_get [] k = None"
  by (simp add: hm_get_def)

lemma hm_wf_Nil [simp]: "hm_wf []"
  by (simp add: hm_wf_def)

lemma hm_get_insert [simp]: "hm_get (hm_insert k v m) k' = (if k' = k then Some v else hm_get m k')"
  by (simp add: hm_get_def hm_insert_def update_conv')

lemma hm_get_remove [simp]: "hm_get (hm_remove k m) k' = (if k' = k then None else hm_get m k')"
  by (simp add: hm_get_def hm_remove_def delete_conv')

lemmas hm_wf_ops [simp, wf_intros] = hm.wf_put hm.wf_del hm.wf_keep

lemma hm_get_SomeD: "hm_get m k = Some v \<Longrightarrow> (k, v) \<in> set m"
  by (simp add: hm_get_def map_of_SomeD)

lemma hm_in_set_iff: "hm_wf m \<Longrightarrow> (k, v) \<in> set m \<longleftrightarrow> hm_get m k = Some v"
  by (auto simp: hm_wf_def hm_get_def)

end
