(* ===== verification/Bf_Cap.thy ===== *)
theory Bf_Cap
  imports Bf_Value
begin

text \<open>
  Capabilities (\<^verbatim>\<open>bytecode/cap.rs\<close>), delegation (\<^verbatim>\<open>scheduler/delegate.rs\<close>) and the
  link, monitor and administration checks (\<^verbatim>\<open>scheduler/link_admin.rs\<close>).
  Rights are a 32-bit set, a native mask is a list of 64-bit words over native
  indices.  A revocation cell is its epoch counter; where several holders share
  one cell the cell table of \<^verbatim>\<open>Bf_CapTable\<close> keeps it behind a reference.
\<close>

section \<open>Identifiers drawn from the operating system\<close>

text \<open>
  \<^verbatim>\<open>entropy::fill_bytes\<close> is a parameter: a function that draws the sixteen bytes from
  a generator state or reports a platform error.
\<close>

type_synonym ('r, 'x) csprng = "'r \<Rightarrow> ('x + u8 list) \<times> 'r"

datatype 'x cap_id_error = CIEntropy 'x | CIReservedZero

definition u128_from_le_bytes :: "u8 list \<Rightarrow> u128" where
  "u128_from_le_bytes bytes = from_le_bytes bytes"

primrec cap_random_loop ::
  "nat \<Rightarrow> ('r, 'x) csprng \<Rightarrow> 'r \<Rightarrow> ('x cap_id_error + cap_id) \<times> 'r" where
  "cap_random_loop 0 fill r = (Inl CIReservedZero, r)"
| "cap_random_loop (Suc n) fill r =
     (case fill r of
        (Inl err, r') \<Rightarrow> (Inl (CIEntropy err), r')
      | (Inr bytes, r') \<Rightarrow>
          let raw = u128_from_le_bytes bytes in
          if raw \<noteq> 0 then (Inr raw, r') else cap_random_loop n fill r')"

definition cap_random :: "('r, 'x) csprng \<Rightarrow> 'r \<Rightarrow> ('x cap_id_error + cap_id) \<times> 'r" where
  "cap_random fill r = cap_random_loop 8 fill r"

section \<open>Rights\<close>

type_synonym cap_rights = u32

definition RIGHT_SEND :: cap_rights where "RIGHT_SEND = push_bit 0 1"
definition RIGHT_ASK :: cap_rights where "RIGHT_ASK = push_bit 1 1"
definition RIGHT_RECV :: cap_rights where "RIGHT_RECV = push_bit 2 1"
definition RIGHT_SPAWN :: cap_rights where "RIGHT_SPAWN = push_bit 3 1"
definition RIGHT_LINK :: cap_rights where "RIGHT_LINK = push_bit 4 1"
definition RIGHT_MONITOR :: cap_rights where "RIGHT_MONITOR = push_bit 5 1"
definition RIGHT_ADMIN :: cap_rights where "RIGHT_ADMIN = push_bit 6 1"
definition RIGHT_NATIVE :: cap_rights where "RIGHT_NATIVE = push_bit 7 1"

definition RIGHTS_ADDRESSING :: cap_rights where
  "RIGHTS_ADDRESSING = RIGHT_SEND OR RIGHT_ASK OR RIGHT_LINK OR RIGHT_MONITOR"

definition RIGHTS_FLOW :: cap_rights where
  "RIGHTS_FLOW = RIGHT_SEND OR RIGHT_ASK OR RIGHT_RECV OR RIGHT_SPAWN OR RIGHT_LINK OR
     RIGHT_MONITOR OR RIGHT_NATIVE"

definition RIGHTS_ROOT :: cap_rights where "RIGHTS_ROOT = RIGHTS_FLOW"
definition RIGHTS_SEND_ASK :: cap_rights where "RIGHTS_SEND_ASK = RIGHT_SEND OR RIGHT_ASK"

definition rights_union :: "cap_rights \<Rightarrow> cap_rights \<Rightarrow> cap_rights" where
  "rights_union a b = a OR b"

definition rights_intersect :: "cap_rights \<Rightarrow> cap_rights \<Rightarrow> cap_rights" where
  "rights_intersect a b = a AND b"

definition rights_contains :: "cap_rights \<Rightarrow> cap_rights \<Rightarrow> bool" where
  "rights_contains a b \<longleftrightarrow> a AND b = b"

definition rights_subset :: "cap_rights \<Rightarrow> cap_rights \<Rightarrow> bool" where
  "rights_subset a b \<longleftrightarrow> a AND NOT b = 0"

definition rights_bits_u8 :: "cap_rights \<Rightarrow> u8" where
  "rights_bits_u8 a = ucast a"

definition rights_from_u8 :: "u8 \<Rightarrow> cap_rights" where
  "rights_from_u8 b = ucast b"

section \<open>Native masks\<close>

type_synonym native_idx = u32
type_synonym native_mask = "u64 list"

definition div_ceil_64 :: "nat \<Rightarrow> nat" where
  "div_ceil_64 n = (n + 63) div 64"

definition mask_empty :: "nat \<Rightarrow> native_mask" where
  "mask_empty native_count = replicate (div_ceil_64 native_count) 0"

definition mask_full :: "nat \<Rightarrow> native_mask" where
  "mask_full native_count =
     (let words = div_ceil_64 native_count;
          v = replicate words (- 1);
          rem = native_count mod 64
      in if rem \<noteq> 0 \<and> words \<noteq> 0
         then v[words - 1 := (v ! (words - 1)) AND (push_bit rem 1 - 1)] else v)"

primrec mask_set_all :: "nat \<Rightarrow> native_idx list \<Rightarrow> native_mask \<Rightarrow> native_mask" where
  "mask_set_all native_count [] v = v"
| "mask_set_all native_count (i # idxs) v =
     (let w = unat i div 64; b = unat i mod 64 in
      mask_set_all native_count idxs
        (if w < length v \<and> unat i < native_count then v[w := (v ! w) OR push_bit b 1] else v))"

definition mask_from_indices :: "nat \<Rightarrow> native_idx list \<Rightarrow> native_mask" where
  "mask_from_indices native_count idxs =
     mask_set_all native_count idxs (replicate (div_ceil_64 native_count) 0)"

definition mask_allows :: "native_mask \<Rightarrow> native_idx \<Rightarrow> bool" where
  "mask_allows m idx =
     (let w = unat idx div 64; b = unat idx mod 64 in
      if w < length m then (m ! w) AND push_bit b 1 \<noteq> 0 else False)"

definition mask_intersect :: "native_mask \<Rightarrow> native_mask \<Rightarrow> native_mask" where
  "mask_intersect m requested =
     map (\<lambda>(a, b). a AND b) (take (min (length m) (length requested)) (zip m requested))"

definition mask_word :: "native_mask \<Rightarrow> nat \<Rightarrow> u64" where
  "mask_word m i = (if i < length m then m ! i else 0)"

definition mask_subset :: "native_mask \<Rightarrow> native_mask \<Rightarrow> bool" where
  "mask_subset m other =
     list_all (\<lambda>i. mask_word m i AND NOT (mask_word other i) = 0)
       [0..<max (length m) (length other)]"

section \<open>Capability records\<close>

datatype cap_target = TFlow u64 | TNativeTable | TScheduler | TTable u64

fun target_flow_id :: "cap_target \<Rightarrow> u64 option" where
  "target_flow_id (TFlow fid) = Some fid"
| "target_flow_id _ = None"

record cap =
  c_target :: cap_target
  c_rights :: cap_rights
  c_mask :: "native_mask option"
  c_epoch :: u64

text \<open>The epoch of a revocation cell; \<^verbatim>\<open>fetch_add\<close> wraps.\<close>

definition cell_revoke :: "u64 \<Rightarrow> u64" where
  "cell_revoke epoch = epoch + 1"

definition cap_root :: "cap_target \<Rightarrow> cap_rights \<Rightarrow> native_mask option \<Rightarrow> u64 \<Rightarrow> cap" where
  "cap_root target rights native_mask cell =
     \<lparr>c_target = target, c_rights = rights, c_mask = native_mask, c_epoch = cell\<rparr>"

definition cap_is_valid :: "cap \<Rightarrow> u64 \<Rightarrow> bool" where
  "cap_is_valid c cell \<longleftrightarrow> c_epoch c = cell"

definition cap_attenuate :: "cap \<Rightarrow> cap_rights \<Rightarrow> native_mask option \<Rightarrow> cap" where
  "cap_attenuate c want_rights want_native =
     \<lparr>c_target = c_target c,
      c_rights = rights_intersect (c_rights c) want_rights,
      c_mask = (case (c_mask c, want_native) of
          (Some cur, Some req) \<Rightarrow> Some (mask_intersect cur req)
        | (Some cur, None) \<Rightarrow> Some cur
        | (None, _) \<Rightarrow> None),
      c_epoch = c_epoch c\<rparr>"

section \<open>Delegation and relation checks\<close>

datatype delegate_error = SourceRevoked | SourceLacksNative

definition exec_delegate ::
  "cap \<Rightarrow> u64 \<Rightarrow> cap_rights \<Rightarrow> native_mask option \<Rightarrow> delegate_error + cap" where
  "exec_delegate src src_cell want_rights want_native =
     (if \<not> cap_is_valid src src_cell then Inl SourceRevoked
      else if want_native \<noteq> None \<and> \<not> rights_contains (c_rights src) RIGHT_NATIVE
      then Inl SourceLacksNative
      else Inr (cap_attenuate src want_rights want_native))"

datatype link_error = LWrongTarget | LMissingRight | LCapRevoked

definition check_flow_right :: "cap \<Rightarrow> u64 \<Rightarrow> u64 \<Rightarrow> cap_rights \<Rightarrow> link_error + unit" where
  "check_flow_right c cell target right =
     (if \<not> cap_is_valid c cell then Inl LCapRevoked
      else if c_target c \<noteq> TFlow target then Inl LWrongTarget
      else if \<not> rights_contains (c_rights c) right then Inl LMissingRight
      else Inr ())"

definition check_link :: "cap \<Rightarrow> u64 \<Rightarrow> u64 \<Rightarrow> link_error + unit" where
  "check_link c cell target = check_flow_right c cell target RIGHT_LINK"

definition check_monitor :: "cap \<Rightarrow> u64 \<Rightarrow> u64 \<Rightarrow> link_error + unit" where
  "check_monitor c cell target = check_flow_right c cell target RIGHT_MONITOR"

datatype admin_error = AMissingRight | ACapRevoked | AWrongTarget

definition check_admin :: "cap \<Rightarrow> u64 \<Rightarrow> admin_error + unit" where
  "check_admin c cell =
     (if \<not> cap_is_valid c cell then Inl ACapRevoked
      else if c_target c \<noteq> TScheduler then Inl AWrongTarget
      else if \<not> rights_contains (c_rights c) RIGHT_ADMIN then Inl AMissingRight
      else Inr ())"

section \<open>Bit-level readings\<close>

lemma bit_u32_less: "bit (a :: 32 word) n \<Longrightarrow> n < 32"
  using bit_imp_le_length [of a n] by simp

lemma rights_contains_iff: "rights_contains a b \<longleftrightarrow> (\<forall>n. bit b n \<longrightarrow> bit a n)"
  by (auto simp: rights_contains_def bit_eq_iff bit_simps dest: bit_u32_less)

lemma rights_subset_iff: "rights_subset a b \<longleftrightarrow> (\<forall>n. bit a n \<longrightarrow> bit b n)"
  by (auto simp: rights_subset_def bit_eq_iff bit_simps dest: bit_u32_less)

lemma rights_intersect_bit [simp]: "bit (rights_intersect a b) n \<longleftrightarrow> bit a n \<and> bit b n"
  by (simp add: rights_intersect_def bit_simps)

lemma rights_contains_single:
  "k < 32 \<Longrightarrow> rights_contains a (push_bit k 1) \<longleftrightarrow> bit a k"
  by (auto simp: rights_contains_iff bit_simps)

lemma rights_contains_bit:
  "rights_contains a RIGHT_SEND \<longleftrightarrow> bit a 0" "rights_contains a RIGHT_ASK \<longleftrightarrow> bit a 1"
  "rights_contains a RIGHT_RECV \<longleftrightarrow> bit a 2" "rights_contains a RIGHT_SPAWN \<longleftrightarrow> bit a 3"
  "rights_contains a RIGHT_LINK \<longleftrightarrow> bit a 4" "rights_contains a RIGHT_MONITOR \<longleftrightarrow> bit a 5"
  "rights_contains a RIGHT_ADMIN \<longleftrightarrow> bit a 6" "rights_contains a RIGHT_NATIVE \<longleftrightarrow> bit a 7"
  unfolding RIGHT_SEND_def RIGHT_ASK_def RIGHT_RECV_def RIGHT_SPAWN_def RIGHT_LINK_def
    RIGHT_MONITOR_def RIGHT_ADMIN_def RIGHT_NATIVE_def
  by (rule rights_contains_single, simp)+

lemma mask_allows_iff:
  "mask_allows m i \<longleftrightarrow> unat i div 64 < length m \<and> bit (m ! (unat i div 64)) (unat i mod 64)"
  by (simp add: mask_allows_def Let_def push_bit_of_1 and_exp_eq_0_iff_not_bit)

lemma mask_intersect_nth [simp]:
  "length (mask_intersect a b) = min (length a) (length b)"
  "i < length a \<Longrightarrow> i < length b \<Longrightarrow> mask_intersect a b ! i = (a ! i) AND (b ! i)"
  by (simp_all add: mask_intersect_def)

lemma mask_allows_intersect:
  "mask_allows (mask_intersect a b) i \<longleftrightarrow> mask_allows a i \<and> mask_allows b i"
  by (auto simp: mask_allows_iff bit_simps)

lemma mask_subset_allows:
  assumes "mask_subset a b" and "mask_allows a i"
  shows "mask_allows b i"
proof -
  define w where "w = unat i div 64"
  have w: "w < length a" and bit: "bit (a ! w) (unat i mod 64)"
    using assms(2) by (auto simp: mask_allows_iff w_def)
  have "mask_word a w AND NOT (mask_word b w) = 0"
    using assms(1) w by (simp add: mask_subset_def list_all_iff less_max_iff_disj)
  with w have "a ! w AND NOT (mask_word b w) = 0" by (simp add: mask_word_def)
  then have "bit (a ! w) n \<longrightarrow> bit (mask_word b w) n" if "n < 64" for n
    using that by (auto simp: bit_eq_iff bit_simps)
  with bit have "bit (mask_word b w) (unat i mod 64)" by simp
  then show ?thesis by (auto simp: mask_allows_iff mask_word_def w_def split: if_splits)
qed

lemma div_ceil_64_less: "w < div_ceil_64 n \<longleftrightarrow> w * 64 < n"
  by (auto simp: div_ceil_64_def)

lemma u32_eq_div_mod_64:
  "(i :: 32 word) = j \<longleftrightarrow> unat i div 64 = unat j div 64 \<and> unat i mod 64 = unat j mod 64"
  by (metis div_mult_mod_eq unsigned_word_eqI)

lemma mask_allows_set_bit:
  assumes "unat j div 64 < length v"
  shows "mask_allows (v[unat j div 64 := (v ! (unat j div 64)) OR push_bit (unat j mod 64) 1]) i \<longleftrightarrow>
    mask_allows v i \<or> i = j"
  using assms by (auto simp: mask_allows_iff nth_list_update u32_eq_div_mod_64 [of i j] bit_simps)

lemma mask_allows_set_all:
  "mask_allows (mask_set_all n idxs v) i \<longleftrightarrow>
     mask_allows v i \<or> i \<in> set idxs \<and> unat i < n \<and> unat i div 64 < length v"
  by (induction idxs arbitrary: v) (auto simp: Let_def mask_allows_set_bit simp del: push_bit_of_1)

lemma mask_allows_zero [simp]: "\<not> mask_allows (replicate k 0) i"
  by (simp add: mask_allows_iff)

lemma mask_allows_from_indices:
  "mask_allows (mask_from_indices n idxs) i \<longleftrightarrow> i \<in> set idxs \<and> unat i < n"
  by (auto simp: mask_from_indices_def mask_allows_set_all div_ceil_64_less)

lemma bit_low_ones: "b < 64 \<Longrightarrow> r < 64 \<Longrightarrow> bit (push_bit r 1 - 1 :: 64 word) b \<longleftrightarrow> b < r"
  by (simp add: push_bit_of_1 flip: mask_eq_exp_minus_1) (simp add: bit_simps)

lemma mask_full_nth:
  assumes "n = q * 64 + r" and "r < 64"
  shows "length (mask_full n) = q + (if r = 0 then 0 else 1)"
    and "w < q \<Longrightarrow> mask_full n ! w = - 1"
    and "r \<noteq> 0 \<Longrightarrow> mask_full n ! q = push_bit r 1 - 1"
proof -
  have "div_ceil_64 n = q + (if r = 0 then 0 else 1)" "n mod 64 = r"
    using assms by (auto simp: div_ceil_64_def)
  then show "length (mask_full n) = q + (if r = 0 then 0 else 1)"
    and "w < q \<Longrightarrow> mask_full n ! w = - 1"
    and "r \<noteq> 0 \<Longrightarrow> mask_full n ! q = push_bit r 1 - 1"
    by (auto simp: mask_full_def Let_def nth_list_update simp del: push_bit_of_1 replicate.simps split: if_splits)
qed

lemma mask_allows_full: "mask_allows (mask_full n) i \<longleftrightarrow> unat i < n"
proof -
  define w b q r where "w = unat i div 64" and "b = unat i mod 64" and "q = n div 64" and "r = n mod 64"
  have i: "unat i = w * 64 + b" "b < 64" and n: "n = q * 64 + r" "r < 64"
    by (simp_all add: w_def b_def q_def r_def)
  note full = mask_full_nth [OF n]
  consider "w < q" | "w = q" | "q < w" by linarith
  then show ?thesis
    unfolding mask_allows_iff w_def [symmetric] b_def [symmetric]
    using i n full bit_low_ones [of b r]
    by cases (auto simp: bit_simps simp del: push_bit_of_1)
qed
section \<open>Attenuation\<close>

text \<open>Native indices a capability lets its holder call, once it has the native right.\<close>

definition cap_native_allows :: "cap \<Rightarrow> native_idx \<Rightarrow> bool" where
  "cap_native_allows c i = (case c_mask c of Some m \<Rightarrow> mask_allows m i | None \<Rightarrow> False)"

text \<open>No more authority: same target and epoch, fewer rights, fewer native indices.\<close>

definition cap_narrower :: "cap \<Rightarrow> cap \<Rightarrow> bool" where
  "cap_narrower c' c \<longleftrightarrow> c_target c' = c_target c \<and> c_epoch c' = c_epoch c \<and>
     (\<forall>n. bit (c_rights c') n \<longrightarrow> bit (c_rights c) n) \<and>
     (\<forall>i. cap_native_allows c' i \<longrightarrow> cap_native_allows c i)"

lemma cap_narrower_refl [simp]: "cap_narrower c c"
  by (simp add: cap_narrower_def)

lemma cap_narrower_trans: "cap_narrower a b \<Longrightarrow> cap_narrower b c \<Longrightarrow> cap_narrower a c"
  by (auto simp: cap_narrower_def)

lemma cap_attenuate_narrower: "cap_narrower (cap_attenuate c r m) c"
  by (auto simp: cap_narrower_def cap_attenuate_def cap_native_allows_def mask_allows_intersect
      split: option.splits)

lemma cap_narrower_valid: "cap_narrower c' c \<Longrightarrow> cap_is_valid c' cell \<longleftrightarrow> cap_is_valid c cell"
  by (auto simp: cap_narrower_def cap_is_valid_def)

lemma cap_narrower_contains:
  "cap_narrower c' c \<Longrightarrow> rights_contains (c_rights c') r \<Longrightarrow> rights_contains (c_rights c) r"
  by (auto simp: cap_narrower_def rights_contains_iff)

lemma attenuate_chain_narrower:
  "cap_narrower (foldl (\<lambda>c w. cap_attenuate c (fst w) (snd w)) c wants) c"
  by (induction wants arbitrary: c) (auto intro: cap_narrower_trans cap_attenuate_narrower)

lemma exec_delegate_iff [result_simps]:
  "exec_delegate src cell r m = Inr c \<longleftrightarrow> cap_is_valid src cell \<and>
     (m \<noteq> None \<longrightarrow> rights_contains (c_rights src) RIGHT_NATIVE) \<and> c = cap_attenuate src r m"
  by (auto simp: exec_delegate_def)

section \<open>Properties\<close>

text \<open>
  C13: no sequence of attenuations grants anything.  However many times a capability is
  narrowed, with any requested rights and native masks, the result has the same target
  and epoch, only rights and native indices of the original, and is valid against a
  revocation cell exactly when the original is; bumping the cell invalidates both.
\<close>

theorem attenuation_never_escalates:
  assumes "c' = foldl (\<lambda>c w. cap_attenuate c (fst w) (snd w)) c wants"
  shows "c_target c' = c_target c \<and> rights_subset (c_rights c') (c_rights c) \<and>
    (\<forall>i. cap_native_allows c' i \<longrightarrow> cap_native_allows c i) \<and>
    (\<forall>cell. cap_is_valid c' cell \<longleftrightarrow> cap_is_valid c cell) \<and>
    (\<forall>cell. cap_is_valid c cell \<longrightarrow> \<not> cap_is_valid c' (cell_revoke cell))"
  using attenuate_chain_narrower [where wants = wants and c = c] unfolding assms [symmetric]
  by (auto simp: cap_narrower_def rights_subset_iff cap_is_valid_def cell_revoke_def)

theorem attenuation_never_escalates_witness:
  "rights_subset (c_rights (cap_attenuate (cap_root (TFlow 1) RIGHT_SEND None 0)
     (RIGHT_SEND OR RIGHT_ADMIN) None)) RIGHT_SEND"
  using attenuation_never_escalates [OF refl, where c = "cap_root (TFlow 1) RIGHT_SEND None 0"
      and wants = "[(RIGHT_SEND OR RIGHT_ADMIN, None)]"]
  by (simp add: cap_root_def)

text \<open>
  Native masks are exact sets of indices: \<^verbatim>\<open>from_indices\<close> allows the listed indices
  below the table size and nothing else, \<^verbatim>\<open>full\<close> every index below the size and none of
  the padding bits of the last word, \<^verbatim>\<open>empty\<close> nothing, and \<^verbatim>\<open>intersect\<close> is intersection.
\<close>

theorem native_mask_exact:
  "(mask_allows (mask_from_indices n idxs) i \<longleftrightarrow> i \<in> set idxs \<and> unat i < n) \<and>
   (mask_allows (mask_full n) i \<longleftrightarrow> unat i < n) \<and>
   mask_allows (mask_empty n) i = False \<and>
   (mask_allows (mask_intersect a b) i \<longleftrightarrow> mask_allows a i \<and> mask_allows b i)"
  by (simp add: mask_allows_from_indices mask_allows_full mask_allows_intersect mask_empty_def)

text \<open>
  A link, monitor or administration check succeeds exactly for a live capability of
  the right target that carries the right; knowing a flow's id is not enough.
\<close>

theorem relation_checks_exact:
  "(check_link c cell t = Inr () \<longleftrightarrow>
      cap_is_valid c cell \<and> c_target c = TFlow t \<and> bit (c_rights c) 4) \<and>
   (check_monitor c cell t = Inr () \<longleftrightarrow>
      cap_is_valid c cell \<and> c_target c = TFlow t \<and> bit (c_rights c) 5) \<and>
   (check_admin c cell = Inr () \<longleftrightarrow>
      cap_is_valid c cell \<and> c_target c = TScheduler \<and> bit (c_rights c) 6)"
  by (auto simp: check_link_def check_monitor_def check_admin_def check_flow_right_def
      rights_contains_bit)

end
