(* ===== verification/Bf_CapTable.thy ===== *)
theory Bf_CapTable
  imports Bf_Cap Bf_HashMap
begin

text \<open>
  The capability table (\<^verbatim>\<open>scheduler/capability.rs\<close>) and the native gate
  (\<^verbatim>\<open>vm/native.rs\<close>).  Revocation cells are shared between the table and the gates of
  running flows, so they live in a store \<open>ct_cells\<close> and are named by reference.  The
  table's mutex is a flag: an operation on a poisoned table fails and changes nothing.
  An operation is a function in the state-threading result monad; the state is the
  table together with the state of the system's random generator.
\<close>

section \<open>State\<close>

type_synonym flow_id = u64
type_synonym cell_ref = nat

record capability =
  holder :: flow_id
  grant_cap :: cap

datatype cap_error =
    CapUnknown | CapNotHolder | CapInsufficientRights | CapWrongTarget | CapUnavailable
  | CapTooNested | CapRequestIdsExhausted

datatype 'x runtime_error =
    PoisonedLock string
  | Abandoned string
  | AlreadyCollected string
  | EntropyFailed 'x
  | ReservedCapId
  | CapIdCollision
  | CannotFinalizeHostFlow
  | FlowIdExhausted
  | DuplicateFlowId
  | LinkIdExhausted
  | MonitorIdExhausted
  | TableError string

record cap_table =
  ct_poisoned :: bool
  ct_entries :: "(cap_id, capability) hash_map"
  ct_flow_cells :: "(u64, cell_ref) hash_map"
  ct_table_cells :: "(u64, cell_ref) hash_map"
  ct_reply_index :: "(flow_id \<times> flow_id, cap_id) hash_map"
  ct_native_cell :: cell_ref
  ct_scheduler_cell :: cell_ref
  ct_cells :: "u64 list"

type_synonym ('r, 'e, 'a) cap_op = "(cap_table \<times> 'r, 'e, 'a) fallible"

definition MINT_ATTEMPTS :: nat where "MINT_ATTEMPTS = 32"

definition CapTable_new :: cap_table where
  "CapTable_new = \<lparr>ct_poisoned = False, ct_entries = [], ct_flow_cells = [], ct_table_cells = [],
     ct_reply_index = [], ct_native_cell = 0, ct_scheduler_cell = 1, ct_cells = [0, 0]\<rparr>"

definition cell_epoch :: "cap_table \<Rightarrow> cell_ref \<Rightarrow> u64" where
  "cell_epoch t c = (if c < length (ct_cells t) then ct_cells t ! c else 0)"

definition revoke_cell :: "cell_ref \<Rightarrow> cap_table \<Rightarrow> cap_table" where
  "revoke_cell c t = t\<lparr>ct_cells := (ct_cells t)[c := cell_revoke (cell_epoch t c)]\<rparr>"

definition new_cell :: "cap_table \<Rightarrow> cell_ref \<times> cap_table" where
  "new_cell t = (length (ct_cells t), t\<lparr>ct_cells := ct_cells t @ [0]\<rparr>)"

definition ct_lock :: "string \<Rightarrow> ('r, 'x runtime_error, unit) cap_op" where
  "ct_lock site st = (if ct_poisoned (fst st) then (Inl (PoisonedLock site), st) else (Inr (), st))"

text \<open>\<^verbatim>\<open>From<RuntimeError> for CapError\<close>: every infrastructure failure is unavailable.\<close>

definition as_cap_error :: "('r, 'x runtime_error, 'a) cap_op \<Rightarrow> ('r, cap_error, 'a) cap_op" where
  "as_cap_error m st = (case m st of (Inl e, st') \<Rightarrow> (Inl CapUnavailable, st') | (Inr x, st') \<Rightarrow> (Inr x, st'))"

definition ct_lock_cap :: "string \<Rightarrow> ('r, cap_error, unit) cap_op" where
  "ct_lock_cap site = as_cap_error (ct_lock site :: ('r, unit runtime_error, unit) cap_op)"

section \<open>Cells and insertion\<close>

definition bind_cell :: "flow_id \<Rightarrow> cap_table \<Rightarrow> cell_ref \<times> cap_table" where
  "bind_cell flow t =
     (case hm_get (ct_flow_cells t) flow of
        Some c \<Rightarrow> (c, t)
      | None \<Rightarrow> (case new_cell t of (c, t') \<Rightarrow>
          (c, t'\<lparr>ct_flow_cells := hm_insert flow c (ct_flow_cells t')\<rparr>)))"

definition bind_flow :: "flow_id \<Rightarrow> ('r, 'x runtime_error, cell_ref) cap_op" where
  "bind_flow flow = bindS (ct_lock ''CapTable::bind_flow'') (\<lambda>_ (t, r).
     case bind_cell flow t of (c, t') \<Rightarrow> (Inr c, (t', r)))"

primrec insert_fresh_loop ::
  "nat \<Rightarrow> ('r, 'x) csprng \<Rightarrow> (cap_id, capability) hash_map \<Rightarrow> capability \<Rightarrow> 'r \<Rightarrow>
   ('x runtime_error + cap_id \<times> (cap_id, capability) hash_map) \<times> 'r" where
  "insert_fresh_loop 0 fill table entry r = (Inl CapIdCollision, r)"
| "insert_fresh_loop (Suc n) fill table entry r =
     (case cap_random fill r of
        (Inr cid, r') \<Rightarrow>
          if cap_is_none cid then (Inl ReservedCapId, r')
          else if hm_contains_key table cid then insert_fresh_loop n fill table entry r'
          else (Inr (cid, hm_insert cid entry table), r')
      | (Inl CIReservedZero, r') \<Rightarrow> (Inl ReservedCapId, r')
      | (Inl (CIEntropy err), r') \<Rightarrow> (Inl (EntropyFailed err), r'))"

definition insert_fresh ::
  "('r, 'x) csprng \<Rightarrow> capability \<Rightarrow> ('r, 'x runtime_error, cap_id) cap_op" where
  "insert_fresh fill entry = (\<lambda>(t, r).
     case insert_fresh_loop MINT_ATTEMPTS fill (ct_entries t) entry r of
       (Inl e, r') \<Rightarrow> (Inl e, (t, r'))
     | (Inr (cid, table), r') \<Rightarrow> (Inr cid, (t\<lparr>ct_entries := table\<rparr>, r')))"

definition ct_insert :: "('r, 'x) csprng \<Rightarrow> flow_id \<Rightarrow> cap \<Rightarrow> ('r, 'x runtime_error, cap_id) cap_op" where
  "ct_insert fill h c = bindS (ct_lock ''CapTable::insert'') (\<lambda>_.
     insert_fresh fill \<lparr>holder = h, grant_cap = c\<rparr>)"

definition ct_grant :: "('r, 'x) csprng \<Rightarrow> flow_id \<Rightarrow> cap \<Rightarrow> ('r, 'x runtime_error, cap_id) cap_op" where
  "ct_grant fill h c = ct_insert fill h c"

definition mint ::
  "('r, 'x) csprng \<Rightarrow> flow_id \<Rightarrow> flow_id \<Rightarrow> cap_rights \<Rightarrow> ('r, 'x runtime_error, cap_id) cap_op" where
  "mint fill h target rights = bindS (bind_flow target) (\<lambda>cell (t, r).
     ct_grant fill h (cap_root (TFlow target) rights None (cell_epoch t cell)) (t, r))"

section \<open>Reply addresses\<close>

definition reply_cap_is_live :: "cap_table \<Rightarrow> cap_id \<Rightarrow> flow_id \<Rightarrow> flow_id \<Rightarrow> cap_rights \<Rightarrow> bool" where
  "reply_cap_is_live t cid h target rights =
     (case hm_get (ct_entries t) cid of
        None \<Rightarrow> False
      | Some entry \<Rightarrow>
          if holder entry \<noteq> h then False
          else if c_target (grant_cap entry) \<noteq> TFlow target then False
          else if \<not> rights_contains (c_rights (grant_cap entry)) rights then False
          else (case hm_get (ct_flow_cells t) target of
                  Some cell \<Rightarrow> cap_is_valid (grant_cap entry) (cell_epoch t cell)
                | None \<Rightarrow> False))"

definition mint_or_reuse_miss ::
  "('r, 'x) csprng \<Rightarrow> flow_id \<Rightarrow> flow_id \<Rightarrow> cap_rights \<Rightarrow> ('r, 'x runtime_error, cap_id) cap_op" where
  "mint_or_reuse_miss fill h target rights = (\<lambda>(t, r).
     case bind_cell target t of (cell, t1) \<Rightarrow>
       bindS (insert_fresh fill
           \<lparr>holder = h, grant_cap = cap_root (TFlow target) rights None (cell_epoch t1 cell)\<rparr>)
         (\<lambda>cid (t2, r2). (Inr cid, (t2\<lparr>ct_reply_index := hm_insert (h, target) cid (ct_reply_index t2)\<rparr>, r2)))
         (t1, r))"

definition mint_or_reuse ::
  "('r, 'x) csprng \<Rightarrow> flow_id \<Rightarrow> flow_id \<Rightarrow> cap_rights \<Rightarrow> ('r, 'x runtime_error, cap_id) cap_op" where
  "mint_or_reuse fill h target rights = bindS (ct_lock ''CapTable::mint_or_reuse'') (\<lambda>_ (t, r).
     case hm_get (ct_reply_index t) (h, target) of
       Some cid \<Rightarrow>
         if reply_cap_is_live t cid h target rights then (Inr cid, (t, r))
         else mint_or_reuse_miss fill h target rights
                (t\<lparr>ct_reply_index := hm_remove (h, target) (ct_reply_index t)\<rparr>, r)
     | None \<Rightarrow> mint_or_reuse_miss fill h target rights (t, r))"

section \<open>Lookup and resolution\<close>

definition ct_lookup :: "cap_id \<Rightarrow> ('r, 'x runtime_error, capability option) cap_op" where
  "ct_lookup cid st =
     (if cap_is_none cid then (Inr None, st)
      else bindS (ct_lock ''CapTable::lookup'') (\<lambda>_ (t, r).
        (Inr (hm_get (ct_entries t) cid), (t, r))) st)"

text \<open>The epoch test that \<^verbatim>\<open>resolve\<close> and \<^verbatim>\<open>reissue_for\<close> share.\<close>

definition target_cell :: "cap_table \<Rightarrow> cap_target \<Rightarrow> cell_ref option" where
  "target_cell t tgt =
     (case tgt of
        TFlow fid \<Rightarrow> hm_get (ct_flow_cells t) fid
      | TNativeTable \<Rightarrow> Some (ct_native_cell t)
      | TScheduler \<Rightarrow> Some (ct_scheduler_cell t)
      | TTable tid \<Rightarrow> hm_get (ct_table_cells t) tid)"

definition cap_is_live :: "cap_table \<Rightarrow> cap \<Rightarrow> bool" where
  "cap_is_live t c =
     (case target_cell t (c_target c) of Some cell \<Rightarrow> cap_is_valid c (cell_epoch t cell) | None \<Rightarrow> False)"

definition resolve :: "cap_id \<Rightarrow> flow_id \<Rightarrow> cap_rights \<Rightarrow> ('r, cap_error, capability) cap_op" where
  "resolve cid h required st =
     (if cap_is_none cid then (Inl CapUnknown, st)
      else bindS (ct_lock_cap ''CapTable::resolve'') (\<lambda>_ (t, r).
        case hm_get (ct_entries t) cid of
          None \<Rightarrow> (Inl CapUnknown, (t, r))
        | Some entry \<Rightarrow>
            if holder entry \<noteq> h then (Inl CapNotHolder, (t, r))
            else if \<not> rights_contains (c_rights (grant_cap entry)) required
            then (Inl CapInsufficientRights, (t, r))
            else if \<not> cap_is_live t (grant_cap entry) then (Inl CapUnknown, (t, r))
            else (Inr entry, (t, r))) st)"

definition bind_table :: "u64 \<Rightarrow> cell_ref \<Rightarrow> ('r, 'x runtime_error, unit) cap_op" where
  "bind_table tid cell = bindS (ct_lock ''CapTable::bind_table'') (\<lambda>_ (t, r).
     (Inr (), (t\<lparr>ct_table_cells := hm_insert tid cell (ct_table_cells t)\<rparr>, r)))"

definition revoke_table :: "u64 \<Rightarrow> ('r, 'x runtime_error, unit) cap_op" where
  "revoke_table tid = bindS (ct_lock ''CapTable::revoke_table'') (\<lambda>_ (t, r).
     let t1 = (case hm_get (ct_table_cells t) tid of
                 Some cell \<Rightarrow> revoke_cell cell (t\<lparr>ct_table_cells := hm_remove tid (ct_table_cells t)\<rparr>)
               | None \<Rightarrow> t)
     in (Inr (), (t1\<lparr>ct_entries :=
          hm_retain (\<lambda>_ e. c_target (grant_cap e) \<noteq> TTable tid) (ct_entries t1)\<rparr>, r)))"

section \<open>Derivation\<close>

text \<open>
  \<^verbatim>\<open>attenuate\<close> takes the lock once to resolve the source, once to read its cell and once
  to insert the result; the part before the insertion is \<open>attenuate_check\<close>, so that
  other operations can be interleaved between the two.
\<close>

definition attenuate_cell :: "cap_target \<Rightarrow> ('r, cap_error, cell_ref) cap_op" where
  "attenuate_cell tgt st =
     (case tgt of
        TFlow fid \<Rightarrow> bindS (ct_lock_cap ''CapTable::attenuate'')
          (\<lambda>_ (t, r). (ok_or CapUnknown (hm_get (ct_flow_cells t) fid), (t, r))) st
      | TTable tid \<Rightarrow> bindS (ct_lock_cap ''CapTable::attenuate'')
          (\<lambda>_ (t, r). (ok_or CapUnknown (hm_get (ct_table_cells t) tid), (t, r))) st
      | TNativeTable \<Rightarrow> (Inl CapWrongTarget, st)
      | TScheduler \<Rightarrow> (Inl CapWrongTarget, st))"

definition attenuate_check ::
  "cap_id \<Rightarrow> flow_id \<Rightarrow> cap_rights \<Rightarrow> native_mask option \<Rightarrow> ('r, cap_error, cap) cap_op" where
  "attenuate_check cid from_holder want_rights want_native =
     bindS (resolve cid from_holder 0) (\<lambda>src.
     bindS (attenuate_cell (c_target (grant_cap src))) (\<lambda>cell (t, r).
       case exec_delegate (grant_cap src) (cell_epoch t cell) want_rights want_native of
         Inl SourceRevoked \<Rightarrow> (Inl CapUnknown, (t, r))
       | Inl SourceLacksNative \<Rightarrow> (Inl CapInsufficientRights, (t, r))
       | Inr narrowed \<Rightarrow>
           if \<not> cap_is_valid narrowed (cell_epoch t cell) then (Inl CapUnknown, (t, r))
           else (Inr narrowed, (t, r))))"

definition ct_attenuate ::
  "('r, 'x) csprng \<Rightarrow> cap_id \<Rightarrow> flow_id \<Rightarrow> flow_id \<Rightarrow> cap_rights \<Rightarrow> native_mask option \<Rightarrow>
   ('r, cap_error, cap_id) cap_op" where
  "ct_attenuate fill cid from_holder to_holder want_rights want_native =
     bindS (attenuate_check cid from_holder want_rights want_native) (\<lambda>narrowed.
       as_cap_error (ct_insert fill to_holder narrowed))"

definition delegate ::
  "('r, 'x) csprng \<Rightarrow> cap_id \<Rightarrow> flow_id \<Rightarrow> flow_id \<Rightarrow> ('r, cap_error, cap_id) cap_op" where
  "delegate fill cid from_holder to_holder =
     bindS (resolve cid from_holder 0) (\<lambda>src.
       ct_attenuate fill cid from_holder to_holder
         (c_rights (grant_cap src)) (c_mask (grant_cap src)))"

definition reissue_for :: "('r, 'x) csprng \<Rightarrow> cap_id \<Rightarrow> flow_id \<Rightarrow> ('r, cap_error, cap_id) cap_op" where
  "reissue_for fill cid new_holder =
     bindS (as_cap_error (ct_lookup cid :: ('r, 'x runtime_error, capability option) cap_op)) (\<lambda>found.
     bindS (liftS (ok_or CapUnknown found)) (\<lambda>entry.
     bindS (ct_lock_cap ''CapTable::reissue_for'') (\<lambda>_ (t, r).
       if \<not> cap_is_live t (grant_cap entry) then (Inl CapUnknown, (t, r))
       else as_cap_error (ct_insert fill new_holder
              (cap_attenuate (grant_cap entry) (c_rights (grant_cap entry)) (c_mask (grant_cap entry))))
            (t, r))))"

definition list_held_by :: "flow_id \<Rightarrow> ('r, 'x runtime_error, (cap_id \<times> capability) list) cap_op" where
  "list_held_by flow = bindS (ct_lock ''CapTable::list_held_by'') (\<lambda>_ (t, r).
     (Inr (filter (\<lambda>(_, entry). holder entry = flow) (ct_entries t)), (t, r)))"

definition revoke_flow :: "flow_id \<Rightarrow> ('r, 'x runtime_error, nat) cap_op" where
  "revoke_flow flow = bindS (ct_lock ''CapTable::revoke_flow'') (\<lambda>_ (t, r).
     let t1 = (case hm_get (ct_flow_cells t) flow of Some cell \<Rightarrow> revoke_cell cell t | None \<Rightarrow> t);
         entries = hm_retain (\<lambda>_ e. holder e \<noteq> flow \<and> c_target (grant_cap e) \<noteq> TFlow flow) (ct_entries t1)
     in (Inr (length (ct_entries t1) - length entries),
         (t1\<lparr>ct_flow_cells := hm_remove flow (ct_flow_cells t1),
             ct_entries := entries,
             ct_reply_index := hm_retain (\<lambda>(h, tg) _. h \<noteq> flow \<and> tg \<noteq> flow) (ct_reply_index t1)\<rparr>, r)))"

section \<open>The native gate\<close>

datatype native_call_error =
    NoNativeRight | IndexNotAllowlisted native_idx | IndexOutOfRange native_idx | NativeRevoked

record native_gate =
  has_native :: bool
  gate_mask :: native_mask
  authority_epoch :: u64
  gate_flow_cell :: cell_ref
  native_epoch :: u64
  gate_native_cell :: cell_ref

definition gate_from_authority :: "cap_table \<Rightarrow> cap \<Rightarrow> cell_ref \<Rightarrow> cell_ref \<Rightarrow> nat \<Rightarrow> native_gate" where
  "gate_from_authority t c flow_cell native_cell native_count =
     \<lparr>has_native = rights_contains (c_rights c) RIGHT_NATIVE,
      gate_mask = (case c_mask c of Some m \<Rightarrow> m | None \<Rightarrow> mask_empty native_count),
      authority_epoch = c_epoch c,
      gate_flow_cell = flow_cell,
      native_epoch = cell_epoch t native_cell,
      gate_native_cell = native_cell\<rparr>"

definition gate_is_live :: "cap_table \<Rightarrow> native_gate \<Rightarrow> bool" where
  "gate_is_live t g \<longleftrightarrow> cell_epoch t (gate_flow_cell g) = authority_epoch g \<and>
     cell_epoch t (gate_native_cell g) = native_epoch g"

definition check_native_gate ::
  "cap_table \<Rightarrow> native_gate \<Rightarrow> nat \<Rightarrow> native_idx \<Rightarrow> native_call_error + unit" where
  "check_native_gate t g table_len idx =
     (if unat idx \<ge> table_len then Inl (IndexOutOfRange idx)
      else if \<not> gate_is_live t g then Inl NativeRevoked
      else if \<not> has_native g then Inl NoNativeRight
      else if mask_allows (gate_mask g) idx then Inr ()
      else Inl (IndexNotAllowlisted idx))"

definition check_native_call :: "cap \<Rightarrow> nat \<Rightarrow> native_idx \<Rightarrow> native_call_error + unit" where
  "check_native_call c table_len idx =
     (if unat idx \<ge> table_len then Inl (IndexOutOfRange idx)
      else if \<not> rights_contains (c_rights c) RIGHT_NATIVE then Inl NoNativeRight
      else (case c_mask c of
              Some m \<Rightarrow> if mask_allows m idx then Inr () else Inl (IndexNotAllowlisted idx)
            | None \<Rightarrow> Inl (IndexNotAllowlisted idx)))"

section \<open>Outcomes of the operations\<close>

lemma ct_lock_eq [result_simps]:
  "ct_lock site (t, r) = (Inr u, st) \<longleftrightarrow> \<not> ct_poisoned t \<and> st = (t, r)"
  "ct_lock site (t, r) = (Inl e, st) \<longleftrightarrow> ct_poisoned t \<and> e = PoisonedLock site \<and> st = (t, r)"
  by (auto simp: ct_lock_def)

lemma as_cap_error_eq [result_simps]:
  "as_cap_error m st = (Inr x, st') \<longleftrightarrow> m st = (Inr x, st')"
  "as_cap_error m st = (Inl e, st') \<longleftrightarrow> e = CapUnavailable \<and> (\<exists>e'. m st = (Inl e', st'))"
  by (auto simp: as_cap_error_def split: prod.splits sum.splits)

lemma ct_lock_cap_eq [result_simps]:
  "ct_lock_cap site (t, r) = (Inr u, st) \<longleftrightarrow> \<not> ct_poisoned t \<and> st = (t, r)"
  "ct_lock_cap site (t, r) = (Inl e, st) \<longleftrightarrow> ct_poisoned t \<and> e = CapUnavailable \<and> st = (t, r)"
  by (auto simp: ct_lock_cap_def result_simps)

lemma insert_fresh_loop_Inr:
  assumes "insert_fresh_loop n fill tab e r = (Inr (cid, tab'), r')"
  shows "\<not> cap_is_none cid \<and> hm_get tab cid = None \<and> tab' = hm_insert cid e tab"
  using assms
  by (induction n arbitrary: r)
    (auto simp: hm_contains_key_def split: prod.splits sum.splits cap_id_error.splits if_splits)

lemma insert_fresh_cases:
  assumes "insert_fresh fill e (t, r) = (res, (t', r'))"
  shows "case res of
      Inl _ \<Rightarrow> t' = t
    | Inr cid \<Rightarrow> \<not> cap_is_none cid \<and> hm_get (ct_entries t) cid = None \<and>
        t' = t\<lparr>ct_entries := hm_insert cid e (ct_entries t)\<rparr>"
  using assms
  by (auto simp: insert_fresh_def dest!: insert_fresh_loop_Inr split: prod.splits sum.splits)

lemma ct_insert_cases:
  assumes "ct_insert fill h c (t, r) = (res, (t', r'))"
  shows "case res of
      Inl _ \<Rightarrow> t' = t
    | Inr cid \<Rightarrow> \<not> ct_poisoned t \<and> \<not> cap_is_none cid \<and> hm_get (ct_entries t) cid = None \<and>
        t' = t\<lparr>ct_entries := hm_insert cid \<lparr>holder = h, grant_cap = c\<rparr> (ct_entries t)\<rparr>"
  using assms
  by (cases res) (auto simp: ct_insert_def result_simps dest!: insert_fresh_cases)

lemma resolve_Inr_iff [result_simps]:
  "resolve cid h req (t, r) = (Inr e, st) \<longleftrightarrow> st = (t, r) \<and> \<not> ct_poisoned t \<and> \<not> cap_is_none cid \<and>
     hm_get (ct_entries t) cid = Some e \<and> holder e = h \<and>
     rights_contains (c_rights (grant_cap e)) req \<and> cap_is_live t (grant_cap e)"
  by (auto simp: resolve_def result_simps split: option.splits if_splits)

lemma readonly_ct_lock [wf_intros]: "readonly (ct_lock site)"
  by (simp add: readonly_def ct_lock_def)

lemma readonly_ct_lock_cap [wf_intros]: "readonly (ct_lock_cap site)"
  by (simp add: readonly_def ct_lock_cap_def as_cap_error_def ct_lock_def)

lemma readonly_resolve [wf_intros]: "readonly (resolve cid h req)"
  by (auto simp: readonly_def resolve_def bindS_def ct_lock_cap_def as_cap_error_def ct_lock_def
      split: option.splits)

lemma rights_contains_zero [simp]: "rights_contains a 0"
  by (simp add: rights_contains_iff)

lemma attenuate_check_Inr:
  assumes "attenuate_check cid h wr wn (t, r) = (Inr c, st)"
  shows "st = (t, r) \<and> \<not> ct_poisoned t \<and> (\<exists>e. hm_get (ct_entries t) cid = Some e \<and> holder e = h \<and>
     cap_is_live t (grant_cap e) \<and> c = cap_attenuate (grant_cap e) wr wn)"
  using assms
  by (auto simp: attenuate_check_def attenuate_cell_def exec_delegate_def result_simps
      split: if_splits cap_target.splits)

lemma readonly_attenuate_cell [wf_intros]: "readonly (attenuate_cell tgt)"
  by (auto simp: readonly_def attenuate_cell_def bindS_def ct_lock_cap_def as_cap_error_def ct_lock_def
      split: cap_target.splits)

lemma readonly_attenuate_check [wf_intros]: "readonly (attenuate_check cid h wr wn)"
  unfolding attenuate_check_def
  by (intro wf_intros) (auto simp: readonly_def split: sum.splits delegate_error.splits)

lemma ct_attenuate_cases:
  assumes "ct_attenuate fill cid h h' wr wn (t, r) = (res, (t', r'))"
  shows "case res of
      Inl _ \<Rightarrow> t' = t
    | Inr cid' \<Rightarrow> \<not> ct_poisoned t \<and> \<not> cap_is_none cid' \<and> hm_get (ct_entries t) cid' = None \<and>
       (\<exists>e. hm_get (ct_entries t) cid = Some e \<and> holder e = h \<and> cap_is_live t (grant_cap e) \<and>
        t' = t\<lparr>ct_entries := hm_insert cid' \<lparr>holder = h', grant_cap = cap_attenuate (grant_cap e) wr wn\<rparr>
          (ct_entries t)\<rparr>)"
proof -
  have ro: "st' = st" if "attenuate_check cid h wr wn st = (x, st')" for x st st'
    using readonlyD [OF readonly_attenuate_check that] .
  show ?thesis
  proof (cases res)
    case (Inl e)
    with assms show ?thesis
      by (auto simp: ct_attenuate_def result_simps dest!: ro ct_insert_cases)
  next
    case (Inr cid')
    with assms obtain c where "attenuate_check cid h wr wn (t, r) = (Inr c, (t, r))"
      "ct_insert fill h' c (t, r) = (Inr cid', (t', r'))"
      by (auto simp: ct_attenuate_def result_simps dest: ro)
    with Inr show ?thesis by (auto dest!: attenuate_check_Inr ct_insert_cases)
  qed
qed

lemma delegate_cases:
  assumes "delegate fill cid h h' (t, r) = (res, (t', r'))"
  shows "case res of
      Inl _ \<Rightarrow> t' = t
    | Inr cid' \<Rightarrow> \<not> ct_poisoned t \<and> \<not> cap_is_none cid' \<and> hm_get (ct_entries t) cid' = None \<and>
       (\<exists>e. hm_get (ct_entries t) cid = Some e \<and> holder e = h \<and> cap_is_live t (grant_cap e) \<and>
        t' = t\<lparr>ct_entries := hm_insert cid' \<lparr>holder = h', grant_cap =
          cap_attenuate (grant_cap e) (c_rights (grant_cap e)) (c_mask (grant_cap e))\<rparr> (ct_entries t)\<rparr>)"
proof -
  have ro: "st' = st" if "resolve cid h 0 st = (x, st')" for x st st'
    using readonlyD [OF readonly_resolve that] .
  show ?thesis using assms
    by (cases res) (auto simp: delegate_def result_simps dest!: ro ct_attenuate_cases)
qed

lemma reissue_for_cases:
  assumes "reissue_for fill cid h' (t, r) = (res, (t', r'))"
  shows "case res of
      Inl _ \<Rightarrow> t' = t
    | Inr cid' \<Rightarrow> \<not> ct_poisoned t \<and> \<not> cap_is_none cid' \<and> hm_get (ct_entries t) cid' = None \<and>
       (\<exists>e. hm_get (ct_entries t) cid = Some e \<and> cap_is_live t (grant_cap e) \<and>
        t' = t\<lparr>ct_entries := hm_insert cid' \<lparr>holder = h', grant_cap =
          cap_attenuate (grant_cap e) (c_rights (grant_cap e)) (c_mask (grant_cap e))\<rparr> (ct_entries t)\<rparr>)"
  using assms
  by (cases res)
    (auto simp: reissue_for_def ct_lookup_def result_simps dest!: ct_insert_cases split: if_splits)

section \<open>Invariant\<close>

text \<open>
  Every bound cell exists and belongs to one target; every entry has a live token id and
  is live; every reply address names an entry of that holder and target.
\<close>

definition ct_inv :: "cap_table \<Rightarrow> bool" where
  "ct_inv t \<longleftrightarrow>
     hm_wf (ct_entries t) \<and> hm_wf (ct_flow_cells t) \<and> hm_wf (ct_table_cells t) \<and> hm_wf (ct_reply_index t) \<and>
     (\<forall>a c. target_cell t a = Some c \<longrightarrow> c < length (ct_cells t)) \<and>
     (\<forall>a b c. target_cell t a = Some c \<longrightarrow> target_cell t b = Some c \<longrightarrow> a = b) \<and>
     (\<forall>cid e. hm_get (ct_entries t) cid = Some e \<longrightarrow> \<not> cap_is_none cid \<and> cap_is_live t (grant_cap e)) \<and>
     (\<forall>h g cid. hm_get (ct_reply_index t) (h, g) = Some cid \<longrightarrow>
        (\<exists>e. hm_get (ct_entries t) cid = Some e \<and> holder e = h \<and> c_target (grant_cap e) = TFlow g))"

lemma target_cell_entries [simp]:
  "target_cell (t\<lparr>ct_entries := x\<rparr>) a = target_cell t a"
  "target_cell (t\<lparr>ct_reply_index := y\<rparr>) a = target_cell t a"
  "target_cell (t\<lparr>ct_cells := z\<rparr>) a = target_cell t a"
  by (simp_all add: target_cell_def split: cap_target.split)

lemma cell_epoch_entries [simp]:
  "cell_epoch (t\<lparr>ct_entries := x\<rparr>) c = cell_epoch t c"
  "cell_epoch (t\<lparr>ct_reply_index := y\<rparr>) c = cell_epoch t c"
  "cell_epoch (t\<lparr>ct_flow_cells := z\<rparr>) c = cell_epoch t c"
  "cell_epoch (t\<lparr>ct_table_cells := z\<rparr>) c = cell_epoch t c"
  by (simp_all add: cell_epoch_def)

lemma cap_is_live_entries [simp]:
  "cap_is_live (t\<lparr>ct_entries := x\<rparr>) c = cap_is_live t c"
  "cap_is_live (t\<lparr>ct_reply_index := y\<rparr>) c = cap_is_live t c"
  by (simp_all add: cap_is_live_def split: option.split)

lemma ct_inv_new [wf_intros]: "ct_inv CapTable_new"
  by (auto simp: ct_inv_def CapTable_new_def target_cell_def split: cap_target.splits)

lemma ct_inv_insert [wf_intros]:
  assumes "ct_inv t" and "\<not> cap_is_none cid" and "hm_get (ct_entries t) cid = None"
    and "cap_is_live t (grant_cap e)"
  shows "ct_inv (t\<lparr>ct_entries := hm_insert cid e (ct_entries t)\<rparr>)"
  using assms unfolding ct_inv_def by (auto, (metis option.distinct(1))+)

lemma cap_is_live_narrower: "cap_narrower c' c \<Longrightarrow> cap_is_live t c' \<longleftrightarrow> cap_is_live t c"
  by (auto simp: cap_is_live_def cap_narrower_def cap_is_valid_def split: option.split)


text \<open>What binding a fresh cell to a target does to the cell store.\<close>

lemma target_cell_bind:
  "target_cell (t\<lparr>ct_cells := cs, ct_flow_cells := hm_insert f c (ct_flow_cells t)\<rparr>) a =
     (if a = TFlow f then Some c else target_cell t a)"
  "target_cell (t\<lparr>ct_cells := cs, ct_table_cells := hm_insert i c (ct_table_cells t)\<rparr>) a =
     (if a = TTable i then Some c else target_cell t a)"
  by (auto simp: target_cell_def split: cap_target.split)

lemma cell_epoch_extend:
  "cell_epoch (t\<lparr>ct_cells := ct_cells t @ [0]\<rparr>) c = cell_epoch t c"
  by (auto simp: cell_epoch_def nth_append)

text \<open>
  The bookkeeping half of every change to the cells: a table whose bindings are those of
  \<open>t\<close> except at one target \<open>A\<close>, bound to an unused cell or not at all.
\<close>

lemma ct_inv_rebind:
  assumes inv: "ct_inv t"
    and maps: "hm_wf (ct_entries t')" "hm_wf (ct_flow_cells t')" "hm_wf (ct_table_cells t')"
      "hm_wf (ct_reply_index t')"
    and bind: "\<And>a. target_cell t' a = (if a = A then B else target_cell t a)"
    and fresh: "\<And>c a. B = Some c \<Longrightarrow> c < length (ct_cells t') \<and> target_cell t a \<noteq> Some c"
    and len: "length (ct_cells t) \<le> length (ct_cells t')"
    and epochs: "\<And>a c. a \<noteq> A \<Longrightarrow> target_cell t a = Some c \<Longrightarrow> cell_epoch t' c = cell_epoch t c"
    and entries: "\<And>cid e. hm_get (ct_entries t') cid = Some e \<Longrightarrow>
      hm_get (ct_entries t) cid = Some e \<and> c_target (grant_cap e) \<noteq> A"
    and replies: "\<And>h g cid. hm_get (ct_reply_index t') (h, g) = Some cid \<Longrightarrow>
      (\<exists>e. hm_get (ct_entries t') cid = Some e \<and> holder e = h \<and> c_target (grant_cap e) = TFlow g)"
  shows "ct_inv t'"
proof -
  have live: "cap_is_live t' c" if "cap_is_live t c" "c_target c \<noteq> A" for c
    using that epochs by (auto simp: cap_is_live_def bind split: option.splits)
  from inv show ?thesis unfolding ct_inv_def
    using maps fresh len entries live replies by (fastforce simp: bind split: if_splits)
qed


lemma ct_inv_entry_target:
  "ct_inv t \<Longrightarrow> hm_get (ct_entries t) cid = Some e \<Longrightarrow> target_cell t (c_target (grant_cap e)) \<noteq> None"
  by (fastforce simp: ct_inv_def cap_is_live_def split: option.splits)

lemma ct_inv_maps:
  "ct_inv t \<Longrightarrow> hm_wf (ct_entries t) \<and> hm_wf (ct_flow_cells t) \<and> hm_wf (ct_table_cells t) \<and> hm_wf (ct_reply_index t)"
  by (simp add: ct_inv_def)

lemma ct_inv_cell_bound: "ct_inv t \<Longrightarrow> target_cell t a = Some c \<Longrightarrow> c < length (ct_cells t)"
  by (simp add: ct_inv_def)

lemma ct_inv_cell_unique:
  "ct_inv t \<Longrightarrow> target_cell t a = Some c \<Longrightarrow> target_cell t b = Some c \<Longrightarrow> a = b"
  by (simp add: ct_inv_def)

lemma ct_inv_reply:
  "ct_inv t \<Longrightarrow> hm_get (ct_reply_index t) (h, g) = Some cid \<Longrightarrow>
     \<exists>e. hm_get (ct_entries t) cid = Some e \<and> holder e = h \<and> c_target (grant_cap e) = TFlow g"
  by (simp add: ct_inv_def)

lemma ct_inv_fresh_flow:
  assumes "ct_inv t" and "target_cell t (TFlow f) = None"
  shows "ct_inv (t\<lparr>ct_cells := ct_cells t @ [0],
    ct_flow_cells := hm_insert f (length (ct_cells t)) (ct_flow_cells t)\<rparr>)"
  using assms(1)
proof (rule ct_inv_rebind [where A = "TFlow f" and B = "Some (length (ct_cells t))"])
  show "hm_get (ct_entries t) cid = Some e \<and> c_target (grant_cap e) \<noteq> TFlow f"
    if "hm_get (ct_entries (t\<lparr>ct_cells := ct_cells t @ [0],
      ct_flow_cells := hm_insert f (length (ct_cells t)) (ct_flow_cells t)\<rparr>)) cid = Some e" for cid e
    using that ct_inv_entry_target [OF assms(1), of cid e] assms(2) by auto
qed (use ct_inv_maps [OF assms(1)] ct_inv_cell_bound [OF assms(1)] ct_inv_reply [OF assms(1)]
    in \<open>auto simp: target_cell_bind cell_epoch_extend\<close>)

lemma bind_cell_spec:
  assumes "bind_cell f t = (c, t')" and "ct_inv t"
  shows "ct_inv t' \<and> target_cell t' (TFlow f) = Some c \<and> ct_entries t' = ct_entries t \<and>
    ct_reply_index t' = ct_reply_index t \<and> ct_poisoned t' = ct_poisoned t"
proof (cases "hm_get (ct_flow_cells t) f")
  case None
  then have "target_cell t (TFlow f) = None" by (simp add: target_cell_def)
  from ct_inv_fresh_flow [OF assms(2) this] assms(1) None show ?thesis
    by (auto simp: bind_cell_def new_cell_def target_cell_def)
qed (use assms in \<open>auto simp: bind_cell_def target_cell_def\<close>)

lemma root_is_live: "target_cell t a = Some c \<Longrightarrow> cap_is_live t (cap_root a rights m (cell_epoch t c))"
  by (simp add: cap_is_live_def cap_root_def cap_is_valid_def)

lemma bind_flow_cases:
  assumes "bind_flow f (t, r) = (res, (t', r'))"
  shows "case res of Inl _ \<Rightarrow> t' = t | Inr c \<Rightarrow> \<not> ct_poisoned t \<and> bind_cell f t = (c, t')"
  using assms by (cases res) (auto simp: bind_flow_def result_simps split: prod.splits)

lemma ct_insert_inv [wf_intros]:
  assumes "ct_insert fill h c (t, r) = (res, (t', r'))" and "ct_inv t" and "cap_is_live t c"
  shows "ct_inv t'"
  using ct_insert_cases [OF assms(1)] assms(2,3) by (cases res) (auto intro: ct_inv_insert)

lemma mint_spec:
  fixes fill :: "('r, 'x) csprng"
  assumes "mint fill h g rights (t, r) = (res, (t', r'))" and "ct_inv t"
  shows "ct_inv t' \<and> (case res of Inl _ \<Rightarrow> ct_entries t' = ct_entries t
    | Inr cid \<Rightarrow> \<not> ct_poisoned t' \<and> \<not> cap_is_none cid \<and> hm_get (ct_entries t) cid = None \<and>
       (\<exists>c. target_cell t' (TFlow g) = Some c \<and>
         ct_entries t' = hm_insert cid \<lparr>holder = h, grant_cap = cap_root (TFlow g) rights None (cell_epoch t' c)\<rparr>
           (ct_entries t)))"
proof -
  consider (locked) e where "(bind_flow g :: ('r, 'x runtime_error, cell_ref) cap_op) (t, r) = (Inl e, (t', r'))" "res = Inl e"
    | (bound) c t1 r1 where "(bind_flow g :: ('r, 'x runtime_error, cell_ref) cap_op) (t, r) = (Inr c, (t1, r1))"
        "ct_insert fill h (cap_root (TFlow g) rights None (cell_epoch t1 c)) (t1, r1) = (res, (t', r'))"
    using assms(1) by (cases res) (auto simp: mint_def ct_grant_def result_simps)
  then show ?thesis
  proof cases
    case locked
    then show ?thesis using bind_flow_cases [OF locked(1)] assms(2) by simp
  next
    case bound
    from bind_flow_cases [OF bound(1)] have "bind_cell g t = (c, t1)" "\<not> ct_poisoned t" by simp_all
    with bind_cell_spec [OF this(1) assms(2)] ct_insert_inv [OF bound(2)] root_is_live [of t1 "TFlow g" c]
      ct_insert_cases [OF bound(2)]
    show ?thesis by (cases res) auto
  qed
qed


lemma ct_inv_drop_reply:
  "ct_inv t \<Longrightarrow> ct_inv (t\<lparr>ct_reply_index := hm_remove k (ct_reply_index t)\<rparr>)"
  by (auto simp: ct_inv_def split: if_splits)

lemma ct_inv_add_reply:
  assumes "ct_inv t" and "hm_get (ct_entries t) cid = Some e" and "holder e = h"
    and "c_target (grant_cap e) = TFlow g"
  shows "ct_inv (t\<lparr>ct_reply_index := hm_insert (h, g) cid (ct_reply_index t)\<rparr>)"
  using assms by (auto simp: ct_inv_def)

text \<open>What \<^verbatim>\<open>mint_or_reuse\<close> leaves behind when it returns a token.\<close>

definition reply_ready :: "flow_id \<Rightarrow> flow_id \<Rightarrow> cap_rights \<Rightarrow> cap_id \<Rightarrow> cap_table \<Rightarrow> bool" where
  "reply_ready h g rights cid t \<longleftrightarrow> \<not> ct_poisoned t \<and>
     hm_get (ct_reply_index t) (h, g) = Some cid \<and> reply_cap_is_live t cid h g rights"

lemma insert_fresh_inv:
  assumes "insert_fresh fill e (t, r) = (res, (t', r'))" and "ct_inv t" and "cap_is_live t (grant_cap e)"
  shows "ct_inv t'"
  using insert_fresh_cases [OF assms(1)] assms(2,3) by (cases res) (auto intro: ct_inv_insert)

lemma rights_contains_refl [simp]: "rights_contains a a"
  by (simp add: rights_contains_iff)

lemma reply_cap_is_live_fresh:
  assumes "hm_get (ct_entries t) cid = Some \<lparr>holder = h, grant_cap = cap_root (TFlow g) rights None (cell_epoch t c)\<rparr>"
    and "target_cell t (TFlow g) = Some c"
  shows "reply_cap_is_live t cid h g rights"
  using assms by (simp add: reply_cap_is_live_def cap_root_def cap_is_valid_def target_cell_def)

lemma mint_or_reuse_miss_spec:
  assumes "mint_or_reuse_miss fill h g rights (t, r) = (res, (t', r'))" and "ct_inv t" and "\<not> ct_poisoned t"
  shows "ct_inv t' \<and> (case res of Inl _ \<Rightarrow> ct_entries t' = ct_entries t | Inr cid \<Rightarrow> reply_ready h g rights cid t')"
proof -
  obtain c t1 where b: "bind_cell g t = (c, t1)" by fastforce
  define e where "e = \<lparr>holder = h, grant_cap = cap_root (TFlow g) rights None (cell_epoch t1 c)\<rparr>"
  note t1 = bind_cell_spec [OF b assms(2)]
  then have live: "cap_is_live t1 (grant_cap e)" by (simp add: e_def root_is_live)
  show ?thesis
  proof (cases res)
    case (Inl err)
    with assms(1) b have "insert_fresh fill e (t1, r) = (Inl err, (t', r'))"
      by (simp add: mint_or_reuse_miss_def e_def result_simps)
    from insert_fresh_cases [OF this] t1 Inl show ?thesis by simp
  next
    case (Inr cid)
    with assms(1) b obtain t2 where ins: "insert_fresh fill e (t1, r) = (Inr cid, (t2, r'))"
      and t': "t' = t2\<lparr>ct_reply_index := hm_insert (h, g) cid (ct_reply_index t2)\<rparr>"
      by (auto simp: mint_or_reuse_miss_def e_def result_simps)
    from insert_fresh_cases [OF ins] have t2: "t2 = t1\<lparr>ct_entries := hm_insert cid e (ct_entries t1)\<rparr>" by simp
    from insert_fresh_inv [OF ins _ live] t1 have "ct_inv t2" by simp
    then have "ct_inv t'" unfolding t' by (rule ct_inv_add_reply [where e = e]) (simp_all add: t2 e_def cap_root_def)
    moreover have "reply_cap_is_live t' cid h g rights"
      using t1 by (intro reply_cap_is_live_fresh [where c = c]) (simp_all add: t' t2 e_def)
    ultimately show ?thesis using t1 assms(3) Inr by (simp add: reply_ready_def t' t2)
  qed
qed

lemma mint_or_reuse_spec:
  assumes "mint_or_reuse fill h g rights (t, r) = (res, (t', r'))" and "ct_inv t"
  shows "ct_inv t' \<and> (case res of Inl _ \<Rightarrow> ct_entries t' = ct_entries t | Inr cid \<Rightarrow> reply_ready h g rights cid t')"
proof (cases "ct_poisoned t")
  case True
  with assms show ?thesis
    by (cases res) (auto simp: mint_or_reuse_def result_simps)
next
  case False
  then have eq: "mint_or_reuse fill h g rights (t, r) = (case hm_get (ct_reply_index t) (h, g) of
       Some cid \<Rightarrow>
         if reply_cap_is_live t cid h g rights then (Inr cid, (t, r))
         else mint_or_reuse_miss fill h g rights
                (t\<lparr>ct_reply_index := hm_remove (h, g) (ct_reply_index t)\<rparr>, r)
     | None \<Rightarrow> mint_or_reuse_miss fill h g rights (t, r))"
    by (simp add: mint_or_reuse_def bindS_def ct_lock_def)
  show ?thesis
  proof (cases "hm_get (ct_reply_index t) (h, g)")
    case None
    with assms False mint_or_reuse_miss_spec [of fill h g rights t r res t' r'] show ?thesis
      by (simp add: eq)
  next
    case (Some cid)
    then show ?thesis
      using assms False mint_or_reuse_miss_spec [OF _ ct_inv_drop_reply [OF assms(2)], of fill h g rights "(h, g)" r]
      by (cases "reply_cap_is_live t cid h g rights") (auto simp: eq reply_ready_def split: sum.splits)
  qed
qed

lemma cell_epoch_revoke:
  "c < length (ct_cells t) \<Longrightarrow> cell_epoch (revoke_cell c t) d = (if d = c then cell_epoch t c + 1 else cell_epoch t d)"
  by (simp add: cell_epoch_def revoke_cell_def cell_revoke_def)

lemma revoke_cell_simps [simp]:
  "ct_entries (revoke_cell c t) = ct_entries t" "ct_flow_cells (revoke_cell c t) = ct_flow_cells t"
  "ct_table_cells (revoke_cell c t) = ct_table_cells t" "ct_reply_index (revoke_cell c t) = ct_reply_index t"
  "ct_poisoned (revoke_cell c t) = ct_poisoned t" "target_cell (revoke_cell c t) a = target_cell t a"
  "length (ct_cells (revoke_cell c t)) = length (ct_cells t)"
  by (simp_all add: revoke_cell_def)

text \<open>The table after a flow's exit, in closed form.\<close>

definition revoked_table :: "flow_id \<Rightarrow> cap_table \<Rightarrow> cap_table" where
  "revoked_table f t =
     (case hm_get (ct_flow_cells t) f of Some cell \<Rightarrow> revoke_cell cell t | None \<Rightarrow> t)
       \<lparr>ct_flow_cells := hm_remove f (ct_flow_cells t),
        ct_entries := hm_retain (\<lambda>_ e. holder e \<noteq> f \<and> c_target (grant_cap e) \<noteq> TFlow f) (ct_entries t),
        ct_reply_index := hm_retain (\<lambda>(h, g) _. h \<noteq> f \<and> g \<noteq> f) (ct_reply_index t)\<rparr>"

lemma revoke_flow_cases:
  assumes "revoke_flow f (t, r) = (res, (t', r'))"
  shows "case res of Inl _ \<Rightarrow> t' = t | Inr n \<Rightarrow> \<not> ct_poisoned t \<and> t' = revoked_table f t"
  using assms
  by (cases res) (auto simp: revoke_flow_def revoked_table_def Let_def result_simps split: option.splits)

lemma revoked_table_simps [simp]:
  "ct_entries (revoked_table f t) =
     hm_retain (\<lambda>_ e. holder e \<noteq> f \<and> c_target (grant_cap e) \<noteq> TFlow f) (ct_entries t)"
  "ct_flow_cells (revoked_table f t) = hm_remove f (ct_flow_cells t)"
  "ct_table_cells (revoked_table f t) = ct_table_cells t"
  "ct_reply_index (revoked_table f t) = hm_retain (\<lambda>(h, g) _. h \<noteq> f \<and> g \<noteq> f) (ct_reply_index t)"
  "ct_poisoned (revoked_table f t) = ct_poisoned t"
  "length (ct_cells (revoked_table f t)) = length (ct_cells t)"
  by (simp_all add: revoked_table_def split: option.split)

lemma target_cell_revoked:
  "target_cell (revoked_table f t) a = (if a = TFlow f then None else target_cell t a)"
  by (auto simp: revoked_table_def target_cell_def revoke_cell_def split: option.split cap_target.split)

lemma cell_epoch_revoked:
  assumes "ct_inv t"
  shows "cell_epoch (revoked_table f t) c =
    (if hm_get (ct_flow_cells t) f = Some c then cell_epoch t c + 1 else cell_epoch t c)"
  using ct_inv_cell_bound [OF assms, of "TFlow f"]
  by (auto simp: revoked_table_def cell_epoch_revoke target_cell_def split: option.split)

lemma ct_inv_revoked [wf_intros]:
  assumes "ct_inv t"
  shows "ct_inv (revoked_table f t)"
  using assms
proof (rule ct_inv_rebind [where A = "TFlow f" and B = None])
  show "cell_epoch (revoked_table f t) c = cell_epoch t c" if "a \<noteq> TFlow f" "target_cell t a = Some c" for a c
    using that assms by (auto simp: cell_epoch_revoked ct_inv_def target_cell_def [of t "TFlow f"])
qed (use ct_inv_maps [OF assms] ct_inv_reply [OF assms] in
    \<open>fastforce simp: target_cell_revoked hm.keep_Some_iff\<close>)+


lemma revoke_table_cases:
  assumes "revoke_table i (t, r) = (res, (t', r'))"
  shows "case res of Inl _ \<Rightarrow> t' = t
    | Inr _ \<Rightarrow> t' = (case hm_get (ct_table_cells t) i of
          Some cell \<Rightarrow> revoke_cell cell (t\<lparr>ct_table_cells := hm_remove i (ct_table_cells t)\<rparr>) | None \<Rightarrow> t)
        \<lparr>ct_entries := hm_retain (\<lambda>_ e. c_target (grant_cap e) \<noteq> TTable i) (ct_entries t)\<rparr>"
  using assms
  by (cases res) (auto simp: revoke_table_def Let_def result_simps split: option.splits)

lemma ct_inv_revoke_table:
  assumes "revoke_table i (t, r) = (res, (t', r'))" and "ct_inv t"
  shows "ct_inv t'"
proof (cases res)
  case (Inl e)
  with assms revoke_table_cases show ?thesis by fastforce
next
  case (Inr u)
  define t1 where "t1 = (case hm_get (ct_table_cells t) i of
      Some cell \<Rightarrow> revoke_cell cell (t\<lparr>ct_table_cells := hm_remove i (ct_table_cells t)\<rparr>) | None \<Rightarrow> t)"
  from revoke_table_cases [OF assms(1)] Inr
  have t': "t' = t1\<lparr>ct_entries := hm_retain (\<lambda>_ e. c_target (grant_cap e) \<noteq> TTable i) (ct_entries t)\<rparr>"
    by (simp add: t1_def)
  have t1: "ct_flow_cells t1 = ct_flow_cells t" "hm_wf (ct_table_cells t1)"
    "ct_reply_index t1 = ct_reply_index t" "length (ct_cells t1) = length (ct_cells t)"
    "target_cell t1 a = (if a = TTable i then None else target_cell t a)" for a
    using ct_inv_maps [OF assms(2)]
    by (auto simp: t1_def target_cell_def revoke_cell_def split: option.splits cap_target.splits)
  have epochs: "cell_epoch t1 c = cell_epoch t c" if "a \<noteq> TTable i" "target_cell t a = Some c" for a c
  proof (cases "hm_get (ct_table_cells t) i")
    case (Some x)
    then have "target_cell t (TTable i) = Some x" by (simp add: target_cell_def)
    with ct_inv_cell_bound [OF assms(2)] ct_inv_cell_unique [OF assms(2) that(2)] that(1)
    show ?thesis by (auto simp: t1_def Some cell_epoch_revoke)
  qed (simp add: t1_def)
  from assms(2) show ?thesis
    by (rule ct_inv_rebind [where A = "TTable i" and B = None])
      (use ct_inv_maps [OF assms(2)] ct_inv_reply [OF assms(2)] t1 epochs in
        \<open>fastforce simp: t' hm.keep_Some_iff\<close>)+
qed

text \<open>A new flow-owned table gets a fresh cell (\<^verbatim>\<open>scheduler/table.rs\<close>, opening a table).\<close>

definition open_table_cell :: "u64 \<Rightarrow> ('r, 'x runtime_error, unit) cap_op" where
  "open_table_cell i = (\<lambda>(t, r). case new_cell t of (c, t1) \<Rightarrow> bind_table i c (t1, r))"

lemma cap_is_live_extend: "cap_is_live (t\<lparr>ct_cells := ct_cells t @ [0]\<rparr>) c = cap_is_live t c"
  by (simp add: cap_is_live_def cell_epoch_extend split: option.split)

lemma ct_inv_extend: "ct_inv t \<Longrightarrow> ct_inv (t\<lparr>ct_cells := ct_cells t @ [0]\<rparr>)"
  by (auto simp: ct_inv_def cap_is_live_extend less_SucI)

lemma ct_inv_open_table:
  assumes "open_table_cell i (t, r) = (res, (t', r'))" and "ct_inv t"
    and "hm_get (ct_table_cells t) i = None"
  shows "ct_inv t'"
proof (cases res)
  case (Inl e)
  with assms(1) have "t' = t\<lparr>ct_cells := ct_cells t @ [0]\<rparr>"
    by (auto simp: open_table_cell_def bind_table_def new_cell_def result_simps)
  with ct_inv_extend [OF assms(2)] show ?thesis by simp
next
  case (Inr u)
  with assms(1) have t': "t' = t\<lparr>ct_cells := ct_cells t @ [0],
      ct_table_cells := hm_insert i (length (ct_cells t)) (ct_table_cells t)\<rparr>"
    by (auto simp: open_table_cell_def bind_table_def new_cell_def result_simps)
  have none: "target_cell t (TTable i) = None" using assms(3) by (simp add: target_cell_def)
  from assms(2) show ?thesis
  proof (rule ct_inv_rebind [where A = "TTable i" and B = "Some (length (ct_cells t))"])
    show "hm_get (ct_entries t) cid = Some e \<and> c_target (grant_cap e) \<noteq> TTable i"
      if "hm_get (ct_entries t') cid = Some e" for cid e
      using that ct_inv_entry_target [OF assms(2), of cid e] none by (auto simp: t')
  qed (use ct_inv_maps [OF assms(2)] ct_inv_cell_bound [OF assms(2)] ct_inv_reply [OF assms(2)] in
      \<open>auto simp: t' target_cell_bind cell_epoch_extend\<close>)
qed


section \<open>Histories\<close>

text \<open>
  One operation on the table, whatever its outcome.  \<^verbatim>\<open>grant\<close> is the trusted path: it takes
  a capability that is live.  Table identifiers are not reused.
\<close>

inductive ct_step :: "('r, 'x) csprng \<Rightarrow> cap_table \<times> 'r \<Rightarrow> cap_table \<times> 'r \<Rightarrow> bool" for fill where
  step_grant: "cap_is_live (fst st) c \<Longrightarrow> ct_grant fill h c st = (res, st') \<Longrightarrow> ct_step fill st st'"
| step_mint: "mint fill h g rights st = (res, st') \<Longrightarrow> ct_step fill st st'"
| step_reuse: "mint_or_reuse fill h g rights st = (res, st') \<Longrightarrow> ct_step fill st st'"
| step_attenuate: "ct_attenuate fill cid h h' rights m st = (res, st') \<Longrightarrow> ct_step fill st st'"
| step_delegate: "delegate fill cid h h' st = (res, st') \<Longrightarrow> ct_step fill st st'"
| step_reissue: "reissue_for fill cid h' st = (res, st') \<Longrightarrow> ct_step fill st st'"
| step_revoke: "(revoke_flow f :: ('r, 'x runtime_error, nat) cap_op) st = (res, st') \<Longrightarrow> ct_step fill st st'"
| step_open_table: "hm_get (ct_table_cells (fst st)) i = None \<Longrightarrow>
    (open_table_cell i :: ('r, 'x runtime_error, unit) cap_op) st = (res, st') \<Longrightarrow> ct_step fill st st'"
| step_revoke_table: "(revoke_table i :: ('r, 'x runtime_error, unit) cap_op) st = (res, st') \<Longrightarrow> ct_step fill st st'"

lemma derived_insert_inv:
  assumes "ct_inv t" and "\<not> cap_is_none cid'" and "hm_get (ct_entries t) cid' = None"
    and "cap_is_live t (grant_cap e)"
  shows "ct_inv (t\<lparr>ct_entries := hm_insert cid' \<lparr>holder = h', grant_cap = cap_attenuate (grant_cap e) wr wn\<rparr>
    (ct_entries t)\<rparr>)"
  using assms cap_is_live_narrower [OF cap_attenuate_narrower] by (intro ct_inv_insert) auto

lemma ct_step_inv: "ct_step fill st st' \<Longrightarrow> ct_inv (fst st) \<Longrightarrow> ct_inv (fst st')"
proof (induction rule: ct_step.induct)
  case (step_grant st c h res st')
  then show ?case by (cases st; cases st') (auto simp: ct_grant_def intro: ct_insert_inv)
next
  case (step_mint h g rights st res st')
  then show ?case using mint_spec by (cases st; cases st') fastforce
next
  case (step_reuse h g rights st res st')
  then show ?case using mint_or_reuse_spec by (cases st; cases st') fastforce
next
  case (step_attenuate cid h h' rights m st res st')
  then show ?case using derived_insert_inv
    by (cases st; cases st'; cases res) (fastforce dest!: ct_attenuate_cases)+
next
  case (step_delegate cid h h' st res st')
  then show ?case using derived_insert_inv
    by (cases st; cases st'; cases res) (fastforce dest!: delegate_cases)+
next
  case (step_reissue cid h' st res st')
  then show ?case using derived_insert_inv
    by (cases st; cases st'; cases res) (fastforce dest!: reissue_for_cases)+
next
  case (step_revoke f st res st')
  then show ?case by (cases st; cases st'; cases res) (auto dest!: revoke_flow_cases intro: ct_inv_revoked)
next
  case (step_open_table st i res st')
  then show ?case using ct_inv_open_table by (cases st; cases st') fastforce
next
  case (step_revoke_table i st res st')
  then show ?case using ct_inv_revoke_table by (cases st; cases st') fastforce
qed


section \<open>Properties\<close>

text \<open>A deterministic generator for the concrete runs below: the counter's bytes.\<close>

definition counter_fill :: "(u8, unit) csprng" where
  "counter_fill n = (Inr ((n + 1) # replicate 15 0), n + 1)"

lemma cap_random_first:
  "fill r = (Inr bytes, r') \<Longrightarrow> u128_from_le_bytes bytes \<noteq> 0 \<Longrightarrow>
     cap_random fill r = (Inr (u128_from_le_bytes bytes), r')"
  by (simp add: cap_random_def eval_nat_numeral)

lemma counter_bytes: "u128_from_le_bytes (b # replicate 15 0) = ucast b"
  by (simp add: u128_from_le_bytes_def from_le_bytes_def eval_nat_numeral)

lemma counter_draw: "(ucast (n + 1) :: u128) \<noteq> 0 \<Longrightarrow> cap_random counter_fill n = (Inr (ucast (n + 1)), n + 1)"
  by (subst cap_random_first [OF counter_fill_def]) (simp_all add: counter_bytes)

lemma counter_draws:
  "cap_random counter_fill 0 = (Inr 1, 1)" "cap_random counter_fill 1 = (Inr 2, 2)"
  "cap_random counter_fill 2 = (Inr 3, 3)"
  using counter_draw [of 0] counter_draw [of 1] counter_draw [of 2] by simp_all

lemma insert_fresh_first:
  "cap_random fill r = (Inr cid, r') \<Longrightarrow> cid \<noteq> 0 \<Longrightarrow> hm_get (ct_entries t) cid = None \<Longrightarrow>
     insert_fresh fill e (t, r) = (Inr cid, (t\<lparr>ct_entries := hm_insert cid e (ct_entries t)\<rparr>, r'))"
  by (simp add: insert_fresh_def MINT_ATTEMPTS_def eval_nat_numeral cap_is_none_def hm_contains_key_def)

definition run1 :: cap_table where
  "run1 = CapTable_new\<lparr>ct_cells := [0, 0, 0], ct_flow_cells := [(2, 2)],
     ct_entries := [(1, \<lparr>holder = 1, grant_cap = cap_root (TFlow 2) RIGHT_SEND None 0\<rparr>)]\<rparr>"

lemmas cap_run_simps = mint_def bind_flow_def bindS_def ct_lock_def CapTable_new_def bind_cell_def
  new_cell_def ct_grant_def ct_insert_def insert_fresh_first counter_draws cell_epoch_def cap_is_none_def
  hm_insert_def hm_get_def hm_remove_def hm_retain_def ct_lock_cap_def as_cap_error_def run1_def
  resolve_def cap_is_live_def target_cell_def cap_root_def cap_is_valid_def ct_attenuate_def
  attenuate_check_def attenuate_cell_def exec_delegate_def cap_attenuate_def revoke_flow_def revoke_cell_def
  cell_revoke_def rights_intersect_def mint_or_reuse_def mint_or_reuse_miss_def

lemma mint_run1: "mint counter_fill 1 2 RIGHT_SEND (CapTable_new, 0) = (Inr 1, (run1, 1))"
  by (simp add: cap_run_simps)

lemma ct_inv_run1: "ct_inv run1"
  using mint_spec [OF mint_run1 ct_inv_new] by simp



text \<open>
  C9: a minted token resolves for its holder with exactly the minted target and rights and
  for nobody else, and minting disturbs no other token.
\<close>

theorem mint_then_resolve:
  assumes "mint fill h g rights (t, r) = (Inr cid, (t', r'))" and "ct_inv t"
  shows "(\<forall>req. rights_contains rights req \<longrightarrow>
      (\<exists>e. resolve cid h req (t', r') = (Inr e, (t', r')) \<and>
        c_target (grant_cap e) = TFlow g \<and> c_rights (grant_cap e) = rights)) \<and>
    (\<forall>k req. k \<noteq> h \<longrightarrow> resolve cid k req (t', r') = (Inl CapNotHolder, (t', r'))) \<and>
    (\<forall>cid' k req e. resolve cid' k req (t, r) = (Inr e, (t, r)) \<longrightarrow>
      resolve cid' k req (t', r') = (Inr e, (t', r')))"
proof -
  from mint_spec [OF assms] obtain c where inv: "ct_inv t'" and ok: "\<not> ct_poisoned t'" "\<not> cap_is_none cid"
    and old: "hm_get (ct_entries t) cid = None" and cell: "target_cell t' (TFlow g) = Some c"
    and ent: "ct_entries t' = hm_insert cid
      \<lparr>holder = h, grant_cap = cap_root (TFlow g) rights None (cell_epoch t' c)\<rparr> (ct_entries t)"
    by auto
  have live: "cap_is_live t' (grant_cap e)" if "hm_get (ct_entries t') k = Some e" for k e
    using inv that by (auto simp: ct_inv_def)
  have "resolve cid k req (t', r') = (Inl CapNotHolder, (t', r'))" if "k \<noteq> h" for k req
    using that ok by (simp add: resolve_def ent bindS_def ct_lock_cap_def as_cap_error_def ct_lock_def)
  moreover have "hm_get (ct_entries t') cid' = Some e \<and> cap_is_live t' (grant_cap e)"
    if "hm_get (ct_entries t) cid' = Some e" for cid' e
    using that old live [of cid' e] by (auto simp: ent split: if_splits)
  ultimately show ?thesis using ok live root_is_live [OF cell]
    by (auto simp: result_simps ent cap_root_def)
qed

theorem mint_then_resolve_witness:
  "\<exists>e. resolve 1 1 RIGHT_SEND (run1, 1 :: u8) = (Inr e, (run1, 1)) \<and> c_target (grant_cap e) = TFlow 2"
  using mint_then_resolve [OF mint_run1 ct_inv_new] rights_contains_refl by blast

text \<open>
  C10: a derived token never carries more than its source.  When \<^verbatim>\<open>attenuate\<close> succeeds, the
  source was live and held by the caller, the new token resolves for its new holder to a
  capability with the same target and epoch and a subset of the rights and native indices,
  and every other token resolves as before.
\<close>

theorem attenuated_token_is_narrower:
  assumes "ct_attenuate fill cid h h' wr wn (t, r) = (Inr cid', (t', r'))" and "ct_inv t"
  shows "\<exists>src out. resolve cid h 0 (t, r) = (Inr src, (t, r)) \<and>
    resolve cid' h' 0 (t', r') = (Inr out, (t', r')) \<and> cap_narrower (grant_cap out) (grant_cap src) \<and>
    (\<forall>n. bit (c_rights (grant_cap out)) n \<longrightarrow> bit wr n) \<and>
    (\<forall>k. k \<noteq> cid' \<longrightarrow> hm_get (ct_entries t') k = hm_get (ct_entries t) k)"
proof -
  from ct_attenuate_cases [OF assms(1)] obtain e where
    e: "\<not> ct_poisoned t" "\<not> cap_is_none cid'" "hm_get (ct_entries t) cid = Some e" "holder e = h"
      "cap_is_live t (grant_cap e)"
    and t': "t' = t\<lparr>ct_entries := hm_insert cid' \<lparr>holder = h', grant_cap = cap_attenuate (grant_cap e) wr wn\<rparr>
      (ct_entries t)\<rparr>" by auto
  moreover from e assms(2) have "\<not> cap_is_none cid" by (auto simp: ct_inv_def)
  ultimately show ?thesis
    using cap_attenuate_narrower [of "grant_cap e" wr wn] cap_is_live_narrower [OF cap_attenuate_narrower]
    by (intro exI [of _ e] exI [of _ "\<lparr>holder = h', grant_cap = cap_attenuate (grant_cap e) wr wn\<rparr>"])
      (auto simp: result_simps cap_attenuate_def)
qed

lemma attenuate_run1:
  "\<exists>t'. ct_attenuate counter_fill 1 1 7 (RIGHT_SEND OR RIGHT_ASK) None (run1, 1) = (Inr 2, (t', 2))"
  by (simp add: cap_run_simps)

theorem attenuated_token_is_narrower_witness:
  "\<exists>t' src out. resolve 1 1 0 (run1, 1 :: u8) = (Inr src, (run1, 1)) \<and>
     resolve 2 7 0 (t', 2 :: u8) = (Inr out, (t', 2)) \<and> cap_narrower (grant_cap out) (grant_cap src)"
proof -
  obtain t' where "ct_attenuate counter_fill 1 1 7 (RIGHT_SEND OR RIGHT_ASK) None (run1, 1) = (Inr 2, (t', 2))"
    using attenuate_run1 by blast
  from attenuated_token_is_narrower [OF this ct_inv_run1] show ?thesis by blast
qed

text \<open>
  C11: revoking a flow is final and precise.  Afterwards no token resolves to the flow or for
  the flow, no reply address mentions it, and a native gate built on the flow's cell and
  epoch no longer lets a call through; every token that involves the flow neither as holder
  nor as target resolves exactly as before.
\<close>

theorem revoke_flow_final:
  assumes "revoke_flow f (t, r) = (Inr n, (t', r'))" and "ct_inv t"
  shows "(\<forall>cid k req e. resolve cid k req (t', r') = (Inr e, (t', r')) \<longrightarrow>
      holder e \<noteq> f \<and> c_target (grant_cap e) \<noteq> TFlow f) \<and>
    (\<forall>h g. hm_get (ct_reply_index t') (h, g) \<noteq> None \<longrightarrow> h \<noteq> f \<and> g \<noteq> f) \<and>
    (\<forall>gate m idx. target_cell t (TFlow f) = Some (gate_flow_cell gate) \<and> gate_is_live t gate \<longrightarrow>
      check_native_gate t' gate m idx \<noteq> Inr ()) \<and>
    (\<forall>cid k req e. resolve cid k req (t, r) = (Inr e, (t, r)) \<and> holder e \<noteq> f \<and>
      c_target (grant_cap e) \<noteq> TFlow f \<longrightarrow> resolve cid k req (t', r') = (Inr e, (t', r')))"
proof -
  from revoke_flow_cases [OF assms(1)] have t': "t' = revoked_table f t" and ok: "\<not> ct_poisoned t" by simp_all
  note inv = ct_inv_revoked [OF assms(2), of f]
  have live: "cap_is_live t' (grant_cap e)" if "hm_get (ct_entries t') cid = Some e" for cid e
    using inv that by (auto simp: t' ct_inv_def)
  have gate: "\<not> gate_is_live t' gate" if "target_cell t (TFlow f) = Some (gate_flow_cell gate)" "gate_is_live t gate" for gate
    using that by (auto simp: t' gate_is_live_def cell_epoch_revoked [OF assms(2)] target_cell_def)
  note wf = ct_inv_maps [OF assms(2)]
  show ?thesis
    using live gate wf ok
    by (auto simp: result_simps t' hm.keep_Some_iff check_native_gate_def split: if_splits)
qed


lemma revoke_run1:
  "revoke_flow 2 (run1, 1 :: u8) =
     (Inr 1 :: unit runtime_error + nat, (CapTable_new\<lparr>ct_cells := [0, 0, 1]\<rparr>, 1))"
  by (simp add: cap_run_simps Let_def)

theorem revoke_flow_final_witness:
  "\<nexists>cid k req e. resolve cid k req (CapTable_new\<lparr>ct_cells := [0, 0, 1]\<rparr>, 1 :: u8) =
      (Inr e, (CapTable_new\<lparr>ct_cells := [0, 0, 1]\<rparr>, 1)) \<and> c_target (grant_cap e) = TFlow 2"
  using revoke_flow_final [OF revoke_run1 ct_inv_run1] by blast

text \<open>
  C12: reply addresses are stable: once \<^verbatim>\<open>mint_or_reuse\<close> has returned a token for a holder,
  a target and rights, calling it again returns the same token and changes nothing, so the
  table grows with pairs of flows and not with messages.
\<close>

theorem reply_address_stable:
  assumes "mint_or_reuse fill h g rights (t, r) = (Inr cid, (t', r'))" and "ct_inv t"
  shows "mint_or_reuse fill h g rights (t', r') = (Inr cid, (t', r'))"
  using mint_or_reuse_spec [OF assms]
  by (simp add: reply_ready_def mint_or_reuse_def bindS_def ct_lock_def)

theorem reply_address_stable_witness:
  "\<exists>cid t' r'. mint_or_reuse counter_fill 1 2 RIGHT_SEND (CapTable_new, 0) = (Inr cid, (t', r')) \<and>
     mint_or_reuse counter_fill 1 2 RIGHT_SEND (t', r') = (Inr cid, (t', r'))"
proof -
  obtain cid t' r' where run: "mint_or_reuse counter_fill 1 2 RIGHT_SEND (CapTable_new, 0) = (Inr cid, (t', r'))"
    by (simp add: cap_run_simps)
  from reply_address_stable [OF this ct_inv_new] run show ?thesis by blast
qed

text \<open>
  C14: re-delegating a capability unchanged is refused when it carries a native mask but not
  the native right, although attenuation keeps the mask when it drops the right: such a
  live, held token can be used and attenuated, but \<^verbatim>\<open>delegate\<close> answers insufficient rights.
\<close>

theorem delegate_refuses_masked_cap:
  assumes "resolve cid h 0 (t, r) = (Inr e, (t, r))" and "c_target (grant_cap e) = TFlow g"
    and "c_mask (grant_cap e) = Some m" and "\<not> rights_contains (c_rights (grant_cap e)) RIGHT_NATIVE"
  shows "delegate fill cid h h' (t, r) = (Inl CapInsufficientRights, (t, r))"
proof -
  from assms(1,2) obtain c where "hm_get (ct_flow_cells t) g = Some c" "\<not> ct_poisoned t"
    "cap_is_valid (grant_cap e) (cell_epoch t c)"
    by (auto simp: resolve_Inr_iff cap_is_live_def target_cell_def split: option.splits)
  with assms show ?thesis
    by (simp add: delegate_def ct_attenuate_def attenuate_check_def attenuate_cell_def bindS_def
        ct_lock_cap_def as_cap_error_def ct_lock_def exec_delegate_def)
qed

theorem delegate_refuses_masked_cap_witness:
  "let c = cap_attenuate (cap_root (TFlow 2) (RIGHT_SEND OR RIGHT_NATIVE) (Some [1]) 0) RIGHT_SEND None;
       t = run1\<lparr>ct_entries := [(1, \<lparr>holder = 1, grant_cap = c\<rparr>)]\<rparr>
   in delegate counter_fill 1 1 3 (t, 1) = (Inl CapInsufficientRights, (t, 1))"
  unfolding Let_def
  by (rule delegate_refuses_masked_cap [where g = 2 and m = "[1]" and e = "\<lparr>holder = 1, grant_cap =
      cap_attenuate (cap_root (TFlow 2) (RIGHT_SEND OR RIGHT_NATIVE) (Some [1]) 0) RIGHT_SEND None\<rparr>"])
    (simp_all add: result_simps run1_def CapTable_new_def cap_is_none_def hm_get_def cap_attenuate_def
      cap_root_def cap_is_live_def target_cell_def cell_epoch_def cap_is_valid_def rights_contains_def
      RIGHT_SEND_def RIGHT_NATIVE_def rights_intersect_def)


end
