(* ===== verification/Bf_Isa.thy ===== *)
theory Bf_Isa
  imports Bf_Value
begin

text \<open>
  The instruction set: opcodes and their stable byte values (\<^verbatim>\<open>bytecode/opcode.rs\<close>), the
  packed instruction word (\<^verbatim>\<open>bytecode/instruction.rs\<close>) and the compiled unit
  (\<^verbatim>\<open>bytecode/chunk.rs\<close>).
\<close>

section \<open>Opcodes\<close>

datatype (plugins only:) opcode =
  OpHalt | OpLoadConst | OpMove | OpLoadImm | OpAdd | OpSub | OpMul | OpDiv | OpMod | OpNeg
   | OpEq | OpLt | OpLe | OpJump | OpBranch | OpCall | OpReturn | OpCallNative | OpSpawn
   | OpYield | OpSleep | OpExit | OpSelfPid | OpSend | OpReceive | OpReceiveTimeout
   | OpReceiveMatch | OpReceiveMatchImm | OpAsk | OpMonitor | OpDemonitor | OpLink | OpUnlink
   | OpAskTimeout | OpDelegate | OpFreshRequestId | OpReceiveMatchCorr | OpReceiveMatchCorrImm
   | OpSetTrapExit | OpTrap | OpNop | OpRegisterName | OpWhereis | OpReceiveMatchKind
   | OpSetRestartPolicy | OpHostAwait | OpReceiveMatchTimeout | OpReceiveMatchImmTimeout
   | OpIsAlive | OpExitSignal | OpDictPut | OpDictGet | OpDictErase | OpReceiveMatchEq
   | OpStartChild | OpReceiveMatchValue | OpSendRemote | OpStartSupervisor | OpAddImm
   | OpCallNativeFrom | OpSubImm | OpLtImm | OpListPack | OpListGet | OpListLen | OpMulImm
   | OpEqImm | OpLeImm | OpBitAnd | OpBitOr | OpBitXor | OpBitNot | OpShl | OpShr
   | OpReceiveMatchCmp | OpMapPack | OpMapGet | OpMapLen | OpTableOpen | OpTableGet
   | OpTablePut | OpRecordPack | OpRecordGet | OpRecordLen | OpNe | OpGt | OpGe | OpNeImm
   | OpGtImm | OpGeImm | OpUshr | OpBranchTrue | OpStrLen | OpBytesLen | OpTailCall

primrec opcode_as_u8 :: "opcode \<Rightarrow> u8" where
  "opcode_as_u8 OpHalt = 0x00"
| "opcode_as_u8 OpLoadConst = 0x01"
| "opcode_as_u8 OpMove = 0x02"
| "opcode_as_u8 OpLoadImm = 0x03"
| "opcode_as_u8 OpAdd = 0x10"
| "opcode_as_u8 OpSub = 0x11"
| "opcode_as_u8 OpMul = 0x12"
| "opcode_as_u8 OpDiv = 0x13"
| "opcode_as_u8 OpMod = 0x14"
| "opcode_as_u8 OpNeg = 0x15"
| "opcode_as_u8 OpEq = 0x18"
| "opcode_as_u8 OpLt = 0x19"
| "opcode_as_u8 OpLe = 0x1A"
| "opcode_as_u8 OpJump = 0x20"
| "opcode_as_u8 OpBranch = 0x21"
| "opcode_as_u8 OpCall = 0x30"
| "opcode_as_u8 OpReturn = 0x31"
| "opcode_as_u8 OpCallNative = 0x32"
| "opcode_as_u8 OpSpawn = 0x40"
| "opcode_as_u8 OpYield = 0x41"
| "opcode_as_u8 OpSleep = 0x42"
| "opcode_as_u8 OpExit = 0x43"
| "opcode_as_u8 OpSelfPid = 0x44"
| "opcode_as_u8 OpSend = 0x50"
| "opcode_as_u8 OpReceive = 0x51"
| "opcode_as_u8 OpReceiveTimeout = 0x52"
| "opcode_as_u8 OpReceiveMatch = 0x53"
| "opcode_as_u8 OpReceiveMatchImm = 0x54"
| "opcode_as_u8 OpAsk = 0x55"
| "opcode_as_u8 OpMonitor = 0x56"
| "opcode_as_u8 OpDemonitor = 0x57"
| "opcode_as_u8 OpLink = 0x58"
| "opcode_as_u8 OpUnlink = 0x59"
| "opcode_as_u8 OpAskTimeout = 0x5A"
| "opcode_as_u8 OpDelegate = 0x5B"
| "opcode_as_u8 OpFreshRequestId = 0x5C"
| "opcode_as_u8 OpReceiveMatchCorr = 0x5D"
| "opcode_as_u8 OpReceiveMatchCorrImm = 0x5E"
| "opcode_as_u8 OpSetTrapExit = 0x5F"
| "opcode_as_u8 OpTrap = 0x60"
| "opcode_as_u8 OpNop = 0x61"
| "opcode_as_u8 OpRegisterName = 0x62"
| "opcode_as_u8 OpWhereis = 0x63"
| "opcode_as_u8 OpReceiveMatchKind = 0x64"
| "opcode_as_u8 OpSetRestartPolicy = 0x65"
| "opcode_as_u8 OpHostAwait = 0x66"
| "opcode_as_u8 OpReceiveMatchTimeout = 0x67"
| "opcode_as_u8 OpReceiveMatchImmTimeout = 0x68"
| "opcode_as_u8 OpIsAlive = 0x69"
| "opcode_as_u8 OpExitSignal = 0x6A"
| "opcode_as_u8 OpDictPut = 0x6B"
| "opcode_as_u8 OpDictGet = 0x6C"
| "opcode_as_u8 OpDictErase = 0x6D"
| "opcode_as_u8 OpReceiveMatchEq = 0x6E"
| "opcode_as_u8 OpStartChild = 0x6F"
| "opcode_as_u8 OpReceiveMatchValue = 0x70"
| "opcode_as_u8 OpSendRemote = 0x71"
| "opcode_as_u8 OpStartSupervisor = 0x72"
| "opcode_as_u8 OpAddImm = 0x73"
| "opcode_as_u8 OpCallNativeFrom = 0x74"
| "opcode_as_u8 OpSubImm = 0x75"
| "opcode_as_u8 OpLtImm = 0x76"
| "opcode_as_u8 OpListPack = 0x77"
| "opcode_as_u8 OpListGet = 0x78"
| "opcode_as_u8 OpListLen = 0x79"
| "opcode_as_u8 OpMulImm = 0x7A"
| "opcode_as_u8 OpEqImm = 0x7B"
| "opcode_as_u8 OpLeImm = 0x7C"
| "opcode_as_u8 OpBitAnd = 0x7D"
| "opcode_as_u8 OpBitOr = 0x7E"
| "opcode_as_u8 OpBitXor = 0x7F"
| "opcode_as_u8 OpBitNot = 0x80"
| "opcode_as_u8 OpShl = 0x81"
| "opcode_as_u8 OpShr = 0x82"
| "opcode_as_u8 OpReceiveMatchCmp = 0x83"
| "opcode_as_u8 OpMapPack = 0x84"
| "opcode_as_u8 OpMapGet = 0x85"
| "opcode_as_u8 OpMapLen = 0x86"
| "opcode_as_u8 OpTableOpen = 0x87"
| "opcode_as_u8 OpTableGet = 0x88"
| "opcode_as_u8 OpTablePut = 0x89"
| "opcode_as_u8 OpRecordPack = 0x8A"
| "opcode_as_u8 OpRecordGet = 0x8B"
| "opcode_as_u8 OpRecordLen = 0x8C"
| "opcode_as_u8 OpNe = 0x8D"
| "opcode_as_u8 OpGt = 0x8E"
| "opcode_as_u8 OpGe = 0x8F"
| "opcode_as_u8 OpNeImm = 0x90"
| "opcode_as_u8 OpGtImm = 0x91"
| "opcode_as_u8 OpGeImm = 0x92"
| "opcode_as_u8 OpUshr = 0x93"
| "opcode_as_u8 OpBranchTrue = 0x94"
| "opcode_as_u8 OpStrLen = 0x95"
| "opcode_as_u8 OpBytesLen = 0x96"
| "opcode_as_u8 OpTailCall = 0x97"

text \<open>The decode table, in the order of the byte values.\<close>

definition opcode_table :: "(u8 \<times> opcode) list" where
  "opcode_table = [
    (0x00, OpHalt), (0x01, OpLoadConst), (0x02, OpMove), (0x03, OpLoadImm), (0x10, OpAdd)
    , (0x11, OpSub), (0x12, OpMul), (0x13, OpDiv), (0x14, OpMod), (0x15, OpNeg), (0x18, OpEq)
    , (0x19, OpLt), (0x1A, OpLe), (0x20, OpJump), (0x21, OpBranch), (0x30, OpCall)
    , (0x31, OpReturn), (0x32, OpCallNative), (0x40, OpSpawn), (0x41, OpYield), (0x42, OpSleep)
    , (0x43, OpExit), (0x44, OpSelfPid), (0x50, OpSend), (0x51, OpReceive)
    , (0x52, OpReceiveTimeout), (0x53, OpReceiveMatch), (0x54, OpReceiveMatchImm)
    , (0x55, OpAsk), (0x56, OpMonitor), (0x57, OpDemonitor), (0x58, OpLink), (0x59, OpUnlink)
    , (0x5A, OpAskTimeout), (0x5B, OpDelegate), (0x5C, OpFreshRequestId)
    , (0x5D, OpReceiveMatchCorr), (0x5E, OpReceiveMatchCorrImm), (0x5F, OpSetTrapExit)
    , (0x60, OpTrap), (0x61, OpNop), (0x62, OpRegisterName), (0x63, OpWhereis)
    , (0x64, OpReceiveMatchKind), (0x65, OpSetRestartPolicy), (0x66, OpHostAwait)
    , (0x67, OpReceiveMatchTimeout), (0x68, OpReceiveMatchImmTimeout), (0x69, OpIsAlive)
    , (0x6A, OpExitSignal), (0x6B, OpDictPut), (0x6C, OpDictGet), (0x6D, OpDictErase)
    , (0x6E, OpReceiveMatchEq), (0x6F, OpStartChild), (0x70, OpReceiveMatchValue)
    , (0x71, OpSendRemote), (0x72, OpStartSupervisor), (0x73, OpAddImm)
    , (0x74, OpCallNativeFrom), (0x75, OpSubImm), (0x76, OpLtImm), (0x77, OpListPack)
    , (0x78, OpListGet), (0x79, OpListLen), (0x7A, OpMulImm), (0x7B, OpEqImm), (0x7C, OpLeImm)
    , (0x7D, OpBitAnd), (0x7E, OpBitOr), (0x7F, OpBitXor), (0x80, OpBitNot), (0x81, OpShl)
    , (0x82, OpShr), (0x83, OpReceiveMatchCmp), (0x84, OpMapPack), (0x85, OpMapGet)
    , (0x86, OpMapLen), (0x87, OpTableOpen), (0x88, OpTableGet), (0x89, OpTablePut)
    , (0x8A, OpRecordPack), (0x8B, OpRecordGet), (0x8C, OpRecordLen), (0x8D, OpNe)
    , (0x8E, OpGt), (0x8F, OpGe), (0x90, OpNeImm), (0x91, OpGtImm), (0x92, OpGeImm)
    , (0x93, OpUshr), (0x94, OpBranchTrue), (0x95, OpStrLen), (0x96, OpBytesLen)
    , (0x97, OpTailCall)]"

definition opcode_from_u8 :: "u8 \<Rightarrow> opcode option" where
  "opcode_from_u8 byte = map_of opcode_table byte"

datatype int_cmp = CmpEq | CmpLt | CmpLe

definition int_cmp_from_imm :: "i32 \<Rightarrow> int_cmp option" where
  "int_cmp_from_imm imm =
     (if imm = 0 then Some CmpEq else if imm = 1 then Some CmpLt else if imm = 2 then Some CmpLe else None)"

fun int_cmp_as_imm :: "int_cmp \<Rightarrow> i32" where
  "int_cmp_as_imm CmpEq = 0"
| "int_cmp_as_imm CmpLt = 1"
| "int_cmp_as_imm CmpLe = 2"

fun int_cmp_holds :: "int_cmp \<Rightarrow> i64 \<Rightarrow> i64 \<Rightarrow> bool" where
  "int_cmp_holds CmpEq payload bound = (payload = bound)"
| "int_cmp_holds CmpLt payload bound = (sint payload < sint bound)"
| "int_cmp_holds CmpLe payload bound = (sint payload \<le> sint bound)"

section \<open>Instructions and chunks\<close>

record instruction =
  i_op :: opcode
  i_a :: u8
  i_b :: u8
  i_c :: u8
  i_imm :: i32

definition instruction_new :: "opcode \<Rightarrow> u8 \<Rightarrow> u8 \<Rightarrow> u8 \<Rightarrow> i32 \<Rightarrow> instruction" where
  "instruction_new oc a b c imm = \<lparr>i_op = oc, i_a = a, i_b = b, i_c = c, i_imm = imm\<rparr>"

definition instruction_nullary :: "opcode \<Rightarrow> instruction" where
  "instruction_nullary oc = instruction_new oc 0 0 0 0"

definition instruction_abc :: "opcode \<Rightarrow> u8 \<Rightarrow> u8 \<Rightarrow> u8 \<Rightarrow> instruction" where
  "instruction_abc oc a b c = instruction_new oc a b c 0"

definition instruction_a_imm :: "opcode \<Rightarrow> u8 \<Rightarrow> i32 \<Rightarrow> instruction" where
  "instruction_a_imm oc a imm = instruction_new oc a 0 0 imm"

definition instruction_only_imm :: "opcode \<Rightarrow> i32 \<Rightarrow> instruction" where
  "instruction_only_imm oc imm = instruction_new oc 0 0 0 imm"

record function_def =
  f_name :: "u8 list"
  f_entry :: u32
  f_arity :: u8
  f_num_registers :: u8

record chunk =
  ch_name :: "u8 list"
  ch_constants :: "value list"
  ch_code :: "instruction list"
  ch_functions :: "function_def list"

text \<open>\<^verbatim>\<open>slice::get\<close>.\<close>

definition list_get :: "'a list \<Rightarrow> nat \<Rightarrow> 'a option" where
  "list_get xs i = (if i < length xs then Some (xs ! i) else None)"

definition chunk_function :: "chunk \<Rightarrow> u32 \<Rightarrow> function_def option" where
  "chunk_function ch index = list_get (ch_functions ch) (unat index)"

definition chunk_constant :: "chunk \<Rightarrow> u32 \<Rightarrow> value option" where
  "chunk_constant ch index = list_get (ch_constants ch) (unat index)"

definition chunk_len :: "chunk \<Rightarrow> nat" where
  "chunk_len ch = length (ch_code ch)"

section \<open>Facts\<close>

lemma list_get_Some [result_simps]: "list_get xs i = Some x \<longleftrightarrow> i < length xs \<and> xs ! i = x"
  by (auto simp: list_get_def)

lemma list_get_None [result_simps]: "list_get xs i = None \<longleftrightarrow> length xs \<le> i"
  by (auto simp: list_get_def)

text \<open>The byte values ascend along the table, so decoding inverts encoding.\<close>

lemma opcode_table_ascending: "distinct (map fst opcode_table)"
proof -
  have "successively (<) (map fst opcode_table)"
    by (simp add: opcode_table_def)
  then have "sorted_wrt (<) (map fst opcode_table)"
    by (simp add: successively_conv_sorted_wrt)
  then show ?thesis by (simp add: strict_sorted_iff)
qed

lemma opcode_table_as: "(b, oc) \<in> set opcode_table \<Longrightarrow> opcode_as_u8 oc = b"
  unfolding opcode_table_def by auto

lemma opcode_table_all: "(opcode_as_u8 oc, oc) \<in> set opcode_table"
  by (cases oc) (simp_all add: opcode_table_def)

lemma opcode_from_u8_iff: "opcode_from_u8 b = Some oc \<longleftrightarrow> b = opcode_as_u8 oc"
  unfolding opcode_from_u8_def map_of_eq_Some_iff [OF opcode_table_ascending]
  using opcode_table_as opcode_table_all by blast

end
