(* ===== verification/Bf_Format.thy ===== *)
theory Bf_Format
  imports Bf_Isa
begin

text \<open>
  The \<^verbatim>\<open>.bf\<close> module format (\<^verbatim>\<open>bytecode/format.rs\<close>).  A reader over a buffer and a position
  is a function on the bytes that remain, which returns the value read and the rest; the
  position is the difference of the two lengths.  The writer appends to a buffer, so it
  is the byte sequence it appends.  Every writer and its reader form a codec: reading
  undoes writing in front of any rest, and what was read is what would be written.
\<close>

section \<open>Errors, trust and limits\<close>

datatype trust_level = Trusted | Restricted | Untrusted

fun allows_authority_constants :: "trust_level \<Rightarrow> bool" where
  "allows_authority_constants Trusted = True"
| "allows_authority_constants _ = False"

definition forbids_authority_constants :: "trust_level \<Rightarrow> bool" where
  "forbids_authority_constants trust = (\<not> allows_authority_constants trust)"

datatype constant_kind = KindCapability | KindProcessId | KindMessage

datatype format_error =
    BadMagic "u8 list"
  | UnsupportedAbi u32
  | Truncated
  | LimitExceeded string u32
  | BadUtf8
  | UnknownValueTag u8
  | UnknownMapKey u8
  | NonCanonicalBool u8
  | UnknownOpcode nat u8
  | FForbiddenConstant constant_kind
  | ValueTooNested
  | DuplicateMapKey
  | Trailing nat

definition MAX_NAME :: u32 where "MAX_NAME = 64 * 1024"
definition MAX_ITEMS :: u32 where "MAX_ITEMS = 1000000"
definition MAX_BLOB :: u32 where "MAX_BLOB = 1048576"
definition MAGIC :: "u8 list" where "MAGIC = [0x42, 0x46, 0x56, 0x30]"
definition ABI_VERSION :: u32 where "ABI_VERSION = 5"
definition ABI_VERSION_LISTS :: u32 where "ABI_VERSION_LISTS = 6"
definition ABI_VERSION_MAPS :: u32 where "ABI_VERSION_MAPS = 7"
definition ABI_VERSION_RECORDS :: u32 where "ABI_VERSION_RECORDS = 8"

section \<open>UTF-8\<close>

text \<open>The well-formed byte sequences of \<^verbatim>\<open>str::from_utf8\<close>.\<close>

definition byte_in :: "u8 \<Rightarrow> u8 \<Rightarrow> u8 \<Rightarrow> bool" where
  "byte_in lo hi b \<longleftrightarrow> lo \<le> b \<and> b \<le> hi"

definition utf8_cont :: "u8 \<Rightarrow> bool" where
  "utf8_cont b = byte_in 0x80 0xBF b"

definition utf8_second_of_three :: "u8 \<Rightarrow> u8 \<Rightarrow> bool" where
  "utf8_second_of_three b c =
     (if b = 0xE0 then byte_in 0xA0 0xBF c
      else if b = 0xED then byte_in 0x80 0x9F c
      else byte_in 0xE1 0xEF b \<and> utf8_cont c)"

definition utf8_second_of_four :: "u8 \<Rightarrow> u8 \<Rightarrow> bool" where
  "utf8_second_of_four b c =
     (if b = 0xF0 then byte_in 0x90 0xBF c
      else if b = 0xF4 then byte_in 0x80 0x8F c
      else byte_in 0xF1 0xF3 b \<and> utf8_cont c)"

fun utf8_valid :: "u8 list \<Rightarrow> bool" where
  "utf8_valid [] = True"
| "utf8_valid (b # bs) =
     (if b < 0x80 then utf8_valid bs
      else if byte_in 0xC2 0xDF b then
        (case bs of c # rest \<Rightarrow> utf8_cont c \<and> utf8_valid rest | _ \<Rightarrow> False)
      else if byte_in 0xE0 0xEF b then
        (case bs of c # d # rest \<Rightarrow> utf8_second_of_three b c \<and> utf8_cont d \<and> utf8_valid rest
         | _ \<Rightarrow> False)
      else
        (case bs of c # d # e # rest \<Rightarrow>
             utf8_second_of_four b c \<and> utf8_cont d \<and> utf8_cont e \<and> utf8_valid rest
         | _ \<Rightarrow> False))"

section \<open>The reader\<close>

type_synonym 'a reader = "u8 list \<Rightarrow> format_error + 'a \<times> u8 list"

definition r_take :: "nat \<Rightarrow> u8 list reader" where
  "r_take n bs = (if length bs < n then Inl Truncated else Inr (take n bs, drop n bs))"

definition read_u8 :: "u8 reader" where
  "read_u8 bs = bindE (r_take 1 bs) (\<lambda>(slice, rest). Inr (slice ! 0, rest))"

text \<open>\<^verbatim>\<open>from_le_bytes(self.read_array())\<close>, for any width.\<close>

definition read_le :: "nat \<Rightarrow> 'a::len word reader" where
  "read_le n bs = bindE (r_take n bs) (\<lambda>(slice, rest). Inr (from_le_bytes slice, rest))"

definition read_u16 :: "u16 reader" where "read_u16 = read_le 2"
definition read_u32 :: "u32 reader" where "read_u32 = read_le 4"
definition read_i32 :: "i32 reader" where "read_i32 = read_le 4"
definition read_u64 :: "u64 reader" where "read_u64 = read_le 8"
definition read_i64 :: "i64 reader" where "read_i64 = read_le 8"
definition read_f64 :: "f64 reader" where "read_f64 = read_le 8"
definition read_u128 :: "u128 reader" where "read_u128 = read_le 16"

definition read_count :: "string \<Rightarrow> u32 reader" where
  "read_count what bs = bindE (read_u32 bs) (\<lambda>(n, rest).
     if n > MAX_ITEMS then Inl (LimitExceeded what n) else Inr (n, rest))"

definition read_string :: "u8 list reader" where
  "read_string bs = bindE (read_u32 bs) (\<lambda>(len, rest).
     if len > MAX_NAME then Inl (LimitExceeded ''name'' len)
     else bindE (r_take (unat len) rest) (\<lambda>(bytes, rest).
       if utf8_valid bytes then Inr (bytes, rest) else Inl BadUtf8))"

definition read_blob :: "string \<Rightarrow> u8 list reader" where
  "read_blob what bs = bindE (read_u32 bs) (\<lambda>(len, rest).
     if len > MAX_BLOB then Inl (LimitExceeded what len) else r_take (unat len) rest)"

text \<open>The counted loops of the decoder.\<close>

primrec read_many :: "nat \<Rightarrow> 'a reader \<Rightarrow> 'a list reader" where
  "read_many 0 p bs = Inr ([], bs)"
| "read_many (Suc n) p bs = bindE (p bs) (\<lambda>(x, rest).
     bindE (read_many n p rest) (\<lambda>(xs, rest). Inr (x # xs, rest)))"

lemma read_many_cong [fundef_cong]:
  assumes "n = m" and "\<And>bs. p bs = q bs" and "bs = cs"
  shows "read_many n p bs = read_many m q cs"
proof -
  have "p = q" using assms(2) by auto
  with assms show ?thesis by simp
qed

definition read_key :: "map_key reader" where
  "read_key bs = bindE (read_u8 bs) (\<lambda>(tag, rest).
     if tag = 0 then bindE (read_i64 rest) (\<lambda>(n, rest). Inr (KInt n, rest))
     else if tag = 1 then bindE (read_blob ''map key'' rest) (\<lambda>(bytes, rest).
       if utf8_valid bytes then Inr (KStr bytes, rest) else Inl BadUtf8)
     else Inl (UnknownMapKey tag))"

function read_value :: "trust_level \<Rightarrow> nat \<Rightarrow> u32 \<Rightarrow> value reader" where
  "read_value trust depth abi bs =
     (if depth > MAX_VALUE_DEPTH then Inl ValueTooNested
      else bindE (read_u8 bs) (\<lambda>(tag, rest).
        if tag = 0 then Inr (VUnit, rest)
        else if tag = 1 then bindE (read_u8 rest) (\<lambda>(b, rest).
          if b = 0 then Inr (VBool False, rest)
          else if b = 1 then Inr (VBool True, rest)
          else Inl (NonCanonicalBool b))
        else if tag = 2 then bindE (read_i64 rest) (\<lambda>(i, rest). Inr (VInt i, rest))
        else if tag = 3 then bindE (read_f64 rest) (\<lambda>(x, rest). Inr (VFloat x, rest))
        else if tag = 4 then
          if forbids_authority_constants trust then Inl (FForbiddenConstant KindProcessId)
          else bindE (read_u64 rest) (\<lambda>(p, rest). Inr (VPid p, rest))
        else if tag = 5 then
          if forbids_authority_constants trust then Inl (FForbiddenConstant KindMessage)
          else bindE (read_u64 rest) (\<lambda>(sender, rest).
               bindE (read_u128 rest) (\<lambda>(reply_cap, rest).
               bindE (read_u64 rest) (\<lambda>(request_id, rest).
               bindE (read_u16 rest) (\<lambda>(mtag, rest).
               bindE (read_value trust (depth + 1) abi rest) (\<lambda>(payload, rest).
               Inr (VMessage (authenticate (Message_new sender request_id mtag payload) sender reply_cap),
                    rest))))))
        else if tag = 6 then
          if forbids_authority_constants trust then Inl (FForbiddenConstant KindCapability)
          else bindE (read_u128 rest) (\<lambda>(c, rest). Inr (VCap c, rest))
        else if tag = 7 then bindE (read_blob ''str'' rest) (\<lambda>(bytes, rest).
          if utf8_valid bytes then Inr (VStr bytes, rest) else Inl BadUtf8)
        else if tag = 8 then bindE (read_blob ''bytes'' rest) (\<lambda>(bytes, rest). Inr (VBytes bytes, rest))
        else if tag = 9 then
          if abi < ABI_VERSION_LISTS then Inl (UnknownValueTag 9)
          else bindE (read_u32 rest) (\<lambda>(n, rest).
            if n > of_nat MAX_LIST_LEN then Inl (LimitExceeded ''list'' n)
            else bindE (read_many (unat n) (\<lambda>bs. read_value trust (depth + 1) abi bs) rest) (\<lambda>(items, rest).
              bindE (ok_or ValueTooNested (try_list items)) (\<lambda>v. Inr (v, rest))))
        else if tag = 10 then
          if abi < ABI_VERSION_MAPS then Inl (UnknownValueTag 10)
          else bindE (read_u32 rest) (\<lambda>(n, rest).
            if n > of_nat MAX_MAP_LEN then Inl (LimitExceeded ''map'' n)
            else bindE (read_many (unat n) (\<lambda>bs. bindE (read_key bs) (\<lambda>(key, rest).
                   bindE (read_value trust (depth + 1) abi rest) (\<lambda>(v, rest).
                   Inr ((key, v), rest)))) rest) (\<lambda>(entries, rest).
              if map_has_duplicate_key entries then Inl DuplicateMapKey
              else bindE (ok_or ValueTooNested (try_map entries)) (\<lambda>v. Inr (v, rest))))
        else if tag = 11 then
          if abi < ABI_VERSION_RECORDS then Inl (UnknownValueTag 11)
          else bindE (read_u32 rest) (\<lambda>(n, rest).
            if n > of_nat MAX_RECORD_LEN then Inl (LimitExceeded ''record'' n)
            else bindE (read_many (unat n) (\<lambda>bs. read_value trust (depth + 1) abi bs) rest) (\<lambda>(flds, rest).
              bindE (ok_or ValueTooNested (try_record flds)) (\<lambda>v. Inr (v, rest))))
        else Inl (UnknownValueTag tag)))"
  by pat_completeness auto
termination
  by (relation "measure (\<lambda>(_, depth, _, _). Suc MAX_VALUE_DEPTH - depth)") auto

declare read_value.simps [simp del]

section \<open>The writer\<close>

definition write_blob :: "u8 list \<Rightarrow> u8 list" where
  "write_blob bytes = to_le_bytes 4 (of_nat (length bytes) :: u32) @ bytes"

definition write_string :: "u8 list \<Rightarrow> u8 list" where
  "write_string s = to_le_bytes 4 (of_nat (length s) :: u32) @ s"

fun write_key :: "map_key \<Rightarrow> u8 list" where
  "write_key (KInt n) = 0 # to_le_bytes 8 n"
| "write_key (KStr text) = 1 # write_blob text"

fun write_value :: "value \<Rightarrow> u8 list" where
  "write_value VUnit = [0]"
| "write_value (VBool b) = [1, if b then 1 else 0]"
| "write_value (VInt i) = 2 # to_le_bytes 8 i"
| "write_value (VFloat x) = 3 # to_le_bytes 8 x"
| "write_value (VPid p) = 4 # to_le_bytes 8 p"
| "write_value (VMessage (Message s r q t p)) =
     5 # to_le_bytes 8 s @ to_le_bytes 16 r @ to_le_bytes 8 q @ to_le_bytes 2 t @ write_value p"
| "write_value (VCap c) = 6 # to_le_bytes 16 c"
| "write_value (VStr s) = 7 # write_blob s"
| "write_value (VBytes b) = 8 # write_blob b"
| "write_value (VList items) =
     9 # to_le_bytes 4 (of_nat (length items) :: u32) @ concat (map (\<lambda>item. write_value item) items)"
| "write_value (VMap entries) =
     10 # to_le_bytes 4 (of_nat (length entries) :: u32) @
       concat (map (\<lambda>e. write_key (fst e) @ write_value (snd e)) entries)"
| "write_value (VRecord flds) =
     11 # to_le_bytes 4 (of_nat (length flds) :: u32) @ concat (map (\<lambda>f. write_value f) flds)"

definition encode_value :: "value \<Rightarrow> u8 list" where
  "encode_value v = write_value v"

definition decode_value :: "u8 list \<Rightarrow> format_error + value \<times> nat" where
  "decode_value bytes = bindE (read_value Trusted 0 ABI_VERSION_RECORDS bytes) (\<lambda>(v, rest).
     Inr (v, length bytes - length rest))"

section \<open>Modules\<close>

fun contains_record :: "value \<Rightarrow> bool" where
  "contains_record (VRecord _) = True"
| "contains_record (VList items) = list_ex (\<lambda>v. contains_record v) items"
| "contains_record (VMap entries) = list_ex (\<lambda>e. contains_record (snd e)) entries"
| "contains_record (VMessage (Message s r q t p)) = contains_record p"
| "contains_record _ = False"

fun contains_map :: "value \<Rightarrow> bool" where
  "contains_map (VMap _) = True"
| "contains_map (VList items) = list_ex (\<lambda>v. contains_map v) items"
| "contains_map (VRecord items) = list_ex (\<lambda>v. contains_map v) items"
| "contains_map (VMessage (Message s r q t p)) = contains_map p"
| "contains_map _ = False"

fun contains_list :: "value \<Rightarrow> bool" where
  "contains_list (VList _) = True"
| "contains_list (VRecord flds) = list_ex (\<lambda>v. contains_list v) flds"
| "contains_list (VMap entries) = list_ex (\<lambda>e. contains_list (snd e)) entries"
| "contains_list (VMessage (Message s r q t p)) = contains_list p"
| "contains_list _ = False"

definition constants_contain_record :: "value list \<Rightarrow> bool" where
  "constants_contain_record constants = list_ex contains_record constants"

definition constants_contain_map :: "value list \<Rightarrow> bool" where
  "constants_contain_map constants = list_ex contains_map constants"

definition constants_contain_list :: "value list \<Rightarrow> bool" where
  "constants_contain_list constants = list_ex contains_list constants"

definition module_abi :: "value list \<Rightarrow> u32" where
  "module_abi constants =
     (if constants_contain_record constants then ABI_VERSION_RECORDS
      else if constants_contain_map constants then ABI_VERSION_MAPS
      else if constants_contain_list constants then ABI_VERSION_LISTS
      else ABI_VERSION)"

definition write_function :: "function_def \<Rightarrow> u8 list" where
  "write_function def = write_string (f_name def) @ to_le_bytes 4 (f_entry def) @
     [f_arity def, f_num_registers def]"

definition write_instruction :: "instruction \<Rightarrow> u8 list" where
  "write_instruction ins = [opcode_as_u8 (i_op ins), i_a ins, i_b ins, i_c ins] @ to_le_bytes 4 (i_imm ins)"

definition encode :: "chunk \<Rightarrow> u8 list" where
  "encode ch = MAGIC @ to_le_bytes 4 (module_abi (ch_constants ch)) @ write_string (ch_name ch) @
     to_le_bytes 4 (of_nat (length (ch_constants ch)) :: u32) @ concat (map write_value (ch_constants ch)) @
     to_le_bytes 4 (of_nat (length (ch_functions ch)) :: u32) @ concat (map write_function (ch_functions ch)) @
     to_le_bytes 4 (of_nat (length (ch_code ch)) :: u32) @ concat (map write_instruction (ch_code ch))"

definition read_function :: "function_def reader" where
  "read_function bs = bindE (read_string bs) (\<lambda>(name, rest).
     bindE (read_u32 rest) (\<lambda>(entry, rest).
     bindE (read_u8 rest) (\<lambda>(arity, rest).
     bindE (read_u8 rest) (\<lambda>(num_registers, rest).
     Inr (\<lparr>f_name = name, f_entry = entry, f_arity = arity, f_num_registers = num_registers\<rparr>, rest)))))"

definition read_instruction :: "nat \<Rightarrow> instruction reader" where
  "read_instruction at bs = bindE (read_u8 bs) (\<lambda>(byte, rest).
     bindE (ok_or (UnknownOpcode at byte) (opcode_from_u8 byte)) (\<lambda>oc.
     bindE (read_u8 rest) (\<lambda>(a, rest).
     bindE (read_u8 rest) (\<lambda>(b, rest).
     bindE (read_u8 rest) (\<lambda>(c, rest).
     bindE (read_i32 rest) (\<lambda>(imm, rest).
     Inr (\<lparr>i_op = oc, i_a = a, i_b = b, i_c = c, i_imm = imm\<rparr>, rest)))))))"

text \<open>The code loop numbers its instructions for the error it may report.\<close>

primrec read_code :: "nat \<Rightarrow> nat \<Rightarrow> instruction list reader" where
  "read_code 0 at bs = Inr ([], bs)"
| "read_code (Suc n) at bs = bindE (read_instruction at bs) (\<lambda>(ins, rest).
     bindE (read_code n (at + 1) rest) (\<lambda>(code, rest). Inr (ins # code, rest)))"

definition decode_with :: "u8 list \<Rightarrow> trust_level \<Rightarrow> format_error + chunk" where
  "decode_with bytes trust =
     bindE (r_take 4 bytes) (\<lambda>(magic, rest).
     if magic \<noteq> MAGIC then Inl (BadMagic magic)
     else bindE (read_u32 rest) (\<lambda>(abi, rest).
     if abi \<noteq> ABI_VERSION \<and> abi \<noteq> ABI_VERSION_LISTS \<and> abi \<noteq> ABI_VERSION_MAPS \<and> abi \<noteq> ABI_VERSION_RECORDS
     then Inl (UnsupportedAbi abi)
     else bindE (read_string rest) (\<lambda>(name, rest).
     bindE (read_count ''constants'' rest) (\<lambda>(n_const, rest).
     bindE (read_many (unat n_const) (read_value trust 0 abi) rest) (\<lambda>(constants, rest).
     bindE (read_count ''functions'' rest) (\<lambda>(n_fn, rest).
     bindE (read_many (unat n_fn) read_function rest) (\<lambda>(functions, rest).
     bindE (read_count ''code'' rest) (\<lambda>(n_code, rest).
     bindE (read_code (unat n_code) 0 rest) (\<lambda>(code, rest).
     if rest \<noteq> [] then Inl (Trailing (length rest))
     else Inr \<lparr>ch_name = name, ch_constants = constants, ch_code = code, ch_functions = functions\<rparr>)))))))))"

definition decode :: "u8 list \<Rightarrow> format_error + chunk" where
  "decode bytes = decode_with bytes Untrusted"

section \<open>Codecs\<close>

text \<open>
  The contract between a writer and its reader, on the values that \<open>ok\<close> describes.
\<close>

locale codec =
  fixes enc :: "'a \<Rightarrow> u8 list"
    and dec :: "'a reader"
    and ok :: "'a \<Rightarrow> bool"
  assumes dec_enc: "ok x \<Longrightarrow> dec (enc x @ rest) = Inr (x, rest)"
    and dec_canonical: "dec bs = Inr (x, rest) \<Longrightarrow> ok x \<and> bs = enc x @ rest"
begin

text \<open>No encoding is a prefix of another, so a concatenation is read back uniquely.\<close>

lemma enc_inject: "ok x \<Longrightarrow> ok y \<Longrightarrow> enc x @ r = enc y @ s \<Longrightarrow> x = y \<and> r = s"
  by (metis dec_enc sum.inject(2) prod.inject)

lemma many_enc:
  "list_all ok xs \<Longrightarrow> read_many (length xs) dec (concat (map enc xs) @ rest) = Inr (xs, rest)"
  by (induction xs) (simp_all add: dec_enc)

lemma many_canonical:
  "read_many n dec bs = Inr (xs, rest) \<Longrightarrow>
     list_all ok xs \<and> length xs = n \<and> bs = concat (map enc xs) @ rest"
  by (induction n arbitrary: bs xs) (auto simp: result_simps dest!: dec_canonical)

end

lemma r_take_append [simp]: "length xs = n \<Longrightarrow> r_take n (xs @ rest) = Inr (xs, rest)"
  by (simp add: r_take_def)

lemma r_take_Inr [result_simps]: "r_take n bs = Inr (xs, rest) \<longleftrightarrow> length xs = n \<and> bs = xs @ rest"
  by (auto simp: r_take_def split: if_splits)

interpretation u8: codec "\<lambda>b. [b]" read_u8 "\<lambda>_. True"
proof
  show "True \<and> bs = [x] @ rest" if "read_u8 bs = Inr (x, rest)" for bs x rest
    using that by (cases bs) (auto simp: read_u8_def result_simps r_take_def split: if_splits)
qed (simp add: read_u8_def r_take_def)

lemma read_le_append:
  "8 * n = LENGTH('a) \<Longrightarrow> read_le n (to_le_bytes n (w :: 'a::len word) @ rest) = Inr (w, rest)"
  by (simp add: read_le_def from_to_le_bytes)

lemma read_le_Inr:
  assumes "8 * n = LENGTH('a)" and "read_le n bs = Inr (w :: 'a::len word, rest)"
  shows "bs = to_le_bytes n w @ rest"
proof -
  from assms(2) obtain slice where "bs = slice @ rest" "length slice = n" "w = from_le_bytes slice"
    by (auto simp: read_le_def result_simps)
  with assms(1) to_from_le_bytes [of slice, where 'a = 'a] show ?thesis by simp
qed

interpretation u16: codec "to_le_bytes 2" read_u16 "\<lambda>_. True"
  unfolding read_u16_def by unfold_locales (simp_all add: read_le_append read_le_Inr)

interpretation u32: codec "to_le_bytes 4" read_u32 "\<lambda>_. True"
  unfolding read_u32_def by unfold_locales (simp_all add: read_le_append read_le_Inr)

interpretation i32: codec "to_le_bytes 4" read_i32 "\<lambda>_. True"
  unfolding read_i32_def by unfold_locales (simp_all add: read_le_append read_le_Inr)

interpretation u64: codec "to_le_bytes 8" read_u64 "\<lambda>_. True"
  unfolding read_u64_def by unfold_locales (simp_all add: read_le_append read_le_Inr)

interpretation i64: codec "to_le_bytes 8" read_i64 "\<lambda>_. True"
  unfolding read_i64_def by unfold_locales (simp_all add: read_le_append read_le_Inr)

interpretation f64: codec "to_le_bytes 8" read_f64 "\<lambda>_. True"
  unfolding read_f64_def by unfold_locales (simp_all add: read_le_append read_le_Inr)

interpretation u128: codec "to_le_bytes 16" read_u128 "\<lambda>_. True"
  unfolding read_u128_def by unfold_locales (simp_all add: read_le_append read_le_Inr)

lemma unat_of_nat_u32: "n < 2 ^ 32 \<Longrightarrow> unat (of_nat n :: u32) = n"
  by (simp add: unsigned_of_nat take_bit_nat_eq_self)

definition string_ok :: "u8 list \<Rightarrow> bool" where
  "string_ok s \<longleftrightarrow> utf8_valid s \<and> length s \<le> unat MAX_NAME"

definition blob_ok :: "u8 list \<Rightarrow> bool" where
  "blob_ok b \<longleftrightarrow> length b \<le> unat MAX_BLOB"

lemma length_u32_le:
  "n \<le> unat (m :: u32) \<Longrightarrow> \<not> m < of_nat n \<and> unat (of_nat n :: u32) = n"
  using unsigned_less [where 'a = nat, of m] by (simp add: word_less_nat_alt unat_of_nat_u32)

interpretation blob: codec write_blob "read_blob what" blob_ok for what
proof
  show "read_blob what (write_blob x @ rest) = Inr (x, rest)" if "blob_ok x" for x rest
    using length_u32_le [of "length x" MAX_BLOB] that
    by (simp add: read_blob_def write_blob_def blob_ok_def u32.dec_enc)
  show "blob_ok x \<and> bs = write_blob x @ rest" if "read_blob what bs = Inr (x, rest)" for bs x rest
    using that
    by (auto simp: read_blob_def write_blob_def blob_ok_def result_simps word_le_nat_alt not_less split: if_splits dest!: u32.dec_canonical)
qed

interpretation str: codec write_string read_string string_ok
proof
  show "read_string (write_string x @ rest) = Inr (x, rest)" if "string_ok x" for x rest
    using length_u32_le [of "length x" MAX_NAME] that
    by (simp add: read_string_def write_string_def string_ok_def u32.dec_enc)
  show "string_ok x \<and> bs = write_string x @ rest" if "read_string bs = Inr (x, rest)" for bs x rest
    using that
    by (auto simp: read_string_def write_string_def string_ok_def result_simps word_le_nat_alt not_less split: if_splits dest!: u32.dec_canonical)
qed


fun key_ok :: "map_key \<Rightarrow> bool" where
  "key_ok (KInt _) = True"
| "key_ok (KStr s) = (utf8_valid s \<and> blob_ok s)"

interpretation key: codec write_key read_key key_ok
proof
  show "read_key (write_key x @ rest) = Inr (x, rest)" if "key_ok x" for x rest
    using that u8.dec_enc by (cases x) (auto simp: read_key_def i64.dec_enc blob.dec_enc)
  show "key_ok x \<and> bs = write_key x @ rest" if "read_key bs = Inr (x, rest)" for bs x rest
    using that
    by (auto simp: read_key_def result_simps split: if_splits
        dest!: u8.dec_canonical i64.dec_canonical blob.dec_canonical)
qed

lemma codec_pair:
  assumes "codec e1 d1 ok1" and "codec e2 d2 ok2"
  shows "codec (\<lambda>p. e1 (fst p) @ e2 (snd p))
    (\<lambda>bs. bindE (d1 bs) (\<lambda>(x, rest). bindE (d2 rest) (\<lambda>(y, rest). Inr ((x, y), rest))))
    (\<lambda>p. ok1 (fst p) \<and> ok2 (snd p))"
proof
  note c = codec.dec_enc [OF assms(1)] codec.dec_enc [OF assms(2)]
  note c' = codec.dec_canonical [OF assms(1)] codec.dec_canonical [OF assms(2)]
  fix p :: "'a \<times> 'b" and rest bs
  show "bindE (d1 ((e1 (fst p) @ e2 (snd p)) @ rest))
      (\<lambda>(x, rest). bindE (d2 rest) (\<lambda>(y, rest). Inr ((x, y), rest))) = Inr (p, rest)"
    if "ok1 (fst p) \<and> ok2 (snd p)"
    using that by (simp add: c)
  show "(ok1 (fst p) \<and> ok2 (snd p)) \<and> bs = (e1 (fst p) @ e2 (snd p)) @ rest"
    if "bindE (d1 bs) (\<lambda>(x, rest). bindE (d2 rest) (\<lambda>(y, rest). Inr ((x, y), rest))) = Inr (p, rest)"
    using that by (auto simp: result_simps dest!: c')
qed

text \<open>
  The values a module of version \<open>abi\<close> may carry at a nesting depth: within the ceiling and
  the length limits, text well-formed, map keys distinct, and no authority unless trusted.
\<close>

fun enc_ok :: "trust_level \<Rightarrow> nat \<Rightarrow> u32 \<Rightarrow> value \<Rightarrow> bool" where
  "enc_ok trust d abi (VPid p) = (d \<le> MAX_VALUE_DEPTH \<and> \<not> forbids_authority_constants trust)"
| "enc_ok trust d abi (VCap c) = (d \<le> MAX_VALUE_DEPTH \<and> \<not> forbids_authority_constants trust)"
| "enc_ok trust d abi (VMessage (Message s r q t p)) =
     (d \<le> MAX_VALUE_DEPTH \<and> \<not> forbids_authority_constants trust \<and> enc_ok trust (d + 1) abi p)"
| "enc_ok trust d abi (VStr s) = (d \<le> MAX_VALUE_DEPTH \<and> utf8_valid s \<and> blob_ok s)"
| "enc_ok trust d abi (VBytes b) = (d \<le> MAX_VALUE_DEPTH \<and> blob_ok b)"
| "enc_ok trust d abi (VList xs) = (d \<le> MAX_VALUE_DEPTH \<and> ABI_VERSION_LISTS \<le> abi \<and>
     length xs \<le> MAX_LIST_LEN \<and> list_all (\<lambda>x. enc_ok trust (d + 1) abi x) xs)"
| "enc_ok trust d abi (VMap es) = (d \<le> MAX_VALUE_DEPTH \<and> ABI_VERSION_MAPS \<le> abi \<and>
     length es \<le> MAX_MAP_LEN \<and> distinct (map fst es) \<and>
     list_all (\<lambda>e. key_ok (fst e) \<and> enc_ok trust (d + 1) abi (snd e)) es)"
| "enc_ok trust d abi (VRecord xs) = (d \<le> MAX_VALUE_DEPTH \<and> ABI_VERSION_RECORDS \<le> abi \<and>
     length xs \<le> MAX_RECORD_LEN \<and> list_all (\<lambda>x. enc_ok trust (d + 1) abi x) xs)"
| "enc_ok trust d abi _ = (d \<le> MAX_VALUE_DEPTH)"

lemma enc_ok_nesting: "enc_ok trust d abi v \<Longrightarrow> nesting_walk v d"
  by (induction v arbitrary: d rule: value_induct) (auto simp: list_all_iff)

lemma enc_ok_within: "enc_ok trust d abi v \<Longrightarrow> within_nesting_limit v"
  using enc_ok_nesting [of trust d abi v] by (simp add: nesting_walk_iff within_nesting_limit_iff)

lemma container_limit:
  "n \<le> 256 \<Longrightarrow> \<not> (256 :: u32) < of_nat n \<and> unat (of_nat n :: u32) = n"
  using length_u32_le [of n 256] by simp

lemmas limit_defs = MAX_LIST_LEN_def MAX_MAP_LEN_def MAX_RECORD_LEN_def

lemmas word_dec_enc = u8.dec_enc [simplified] u16.dec_enc u32.dec_enc u64.dec_enc i64.dec_enc f64.dec_enc
  u128.dec_enc blob.dec_enc

lemma read_value_enc:
  assumes "enc_ok trust d abi v"
    and deeper: "codec write_value (read_value trust (d + 1) abi) (enc_ok trust (d + 1) abi)"
  shows "read_value trust d abi (write_value v @ rest) = Inr (v, rest)"
proof -
  have d: "\<not> MAX_VALUE_DEPTH < d" using enc_ok_nesting [OF assms(1)] by (simp add: nesting_walk_iff)
  note many = codec.many_enc [OF deeper, simplified]
  note entries = codec.many_enc [OF codec_pair [OF key.codec_axioms deeper], simplified]
  show ?thesis
  proof (cases v)
    case (VMessage m)
    then show ?thesis using d assms(1) codec.dec_enc [OF deeper]
      by (cases m) (subst read_value.simps,
          simp add: word_dec_enc authenticate_def Message_new_def)
  next
    case (VList xs)
    then show ?thesis using d assms(1) enc_ok_within [OF assms(1)] container_limit [of "length xs"]
      by (subst read_value.simps)
        (simp add: word_dec_enc many try_list_def limit_defs not_less [symmetric, of ABI_VERSION_LISTS])
  next
    case (VMap es)
    then show ?thesis using d assms(1) enc_ok_within [OF assms(1)] container_limit [of "length es"]
      by (subst read_value.simps)
        (simp add: word_dec_enc entries try_map_def limit_defs map_has_duplicate_key_iff not_less [symmetric, of ABI_VERSION_MAPS])
  next
    case (VRecord xs)
    then show ?thesis using d assms(1) enc_ok_within [OF assms(1)] container_limit [of "length xs"]
      by (subst read_value.simps)
        (simp add: word_dec_enc many try_record_def limit_defs not_less [symmetric, of ABI_VERSION_RECORDS])
  qed (subst read_value.simps; use d assms(1) in \<open>simp add: word_dec_enc\<close>)+
qed


lemmas word_canonical = u8.dec_canonical u16.dec_canonical u32.dec_canonical u64.dec_canonical
  i64.dec_canonical f64.dec_canonical u128.dec_canonical blob.dec_canonical

lemma length_u32_unat: "length xs = unat (n :: u32) \<Longrightarrow> of_nat (length xs) = n"
  by simp

lemma read_value_canonical:
  assumes read: "read_value trust d abi bs = Inr (v, rest)"
    and deeper: "codec write_value (read_value trust (d + 1) abi) (enc_ok trust (d + 1) abi)"
  shows "enc_ok trust d abi v \<and> bs = write_value v @ rest"
proof -
  note child = codec.dec_canonical [OF deeper, simplified]
  note many = codec.many_canonical [OF deeper, simplified]
  note entries = codec.many_canonical [OF codec_pair [OF key.codec_axioms deeper], simplified]
  have d: "d \<le> MAX_VALUE_DEPTH" using read by (subst (asm) read_value.simps) (auto split: if_splits)
  obtain tag bs' where tag: "bs = tag # bs'"
    using read by (subst (asm) read_value.simps) (auto simp: result_simps split: if_splits dest!: u8.dec_canonical)
  show ?thesis
    using read d unfolding tag
    by (subst (asm) read_value.simps)
      (auto simp: u8.dec_enc [simplified] result_simps limit_defs map_has_duplicate_key_iff
        authenticate_def Message_new_def word_le_nat_alt not_less
        split: if_splits dest!: word_canonical child many entries)
qed

lemma codec_value: "codec write_value (read_value trust d abi) (enc_ok trust d abi)"
proof (induction "Suc MAX_VALUE_DEPTH - d" arbitrary: d)
  case 0
  then have "MAX_VALUE_DEPTH < d" by simp
  then have "read_value trust d abi bs = Inl ValueTooNested" for bs by (subst read_value.simps) simp
  moreover have "\<not> enc_ok trust d abi v" for v
    using enc_ok_nesting [of trust d abi v] \<open>MAX_VALUE_DEPTH < d\<close> by (auto simp: nesting_walk_iff)
  ultimately show ?case by unfold_locales auto
next
  case (Suc n)
  then have "codec write_value (read_value trust (d + 1) abi) (enc_ok trust (d + 1) abi)" by simp
  then show ?case
    by unfold_locales (simp add: read_value_enc, rule read_value_canonical)
qed

interpretation val: codec write_value "read_value trust 0 abi" "enc_ok trust 0 abi" for trust abi
  by (rule codec_value)

definition function_ok :: "function_def \<Rightarrow> bool" where
  "function_ok def = string_ok (f_name def)"

interpretation fdef: codec write_function read_function function_ok
proof
  show "read_function (write_function x @ rest) = Inr (x, rest)" if "function_ok x" for x rest
    using that by (simp add: read_function_def write_function_def function_ok_def str.dec_enc
        u32.dec_enc u8.dec_enc [simplified])
  show "function_ok x \<and> bs = write_function x @ rest" if "read_function bs = Inr (x, rest)" for bs x rest
    using that by (auto simp: read_function_def write_function_def function_ok_def result_simps
        dest!: str.dec_canonical u32.dec_canonical u8.dec_canonical)
qed

interpretation ins: codec write_instruction "read_instruction at" "\<lambda>_. True" for at
proof
  show "read_instruction at (write_instruction x @ rest) = Inr (x, rest)" for x rest
    by (simp add: read_instruction_def write_instruction_def u8.dec_enc [simplified] i32.dec_enc
        opcode_from_u8_iff [THEN iffD2])
  show "True \<and> bs = write_instruction x @ rest" if "read_instruction at bs = Inr (x, rest)" for bs x rest
    using that by (auto simp: read_instruction_def write_instruction_def result_simps opcode_from_u8_iff
        dest!: i32.dec_canonical u8.dec_canonical)
qed

lemma read_code_enc: "read_code (length xs) at (concat (map write_instruction xs) @ rest) = Inr (xs, rest)"
  by (induction xs arbitrary: at) (simp_all add: ins.dec_enc)

lemma read_code_canonical:
  "read_code n at bs = Inr (xs, rest) \<Longrightarrow> length xs = n \<and> bs = concat (map write_instruction xs) @ rest"
  by (induction n arbitrary: at bs xs) (auto simp: result_simps dest!: ins.dec_canonical)

section \<open>Whole modules\<close>

definition items_ok :: "'a list \<Rightarrow> bool" where
  "items_ok xs \<longleftrightarrow> length xs \<le> unat MAX_ITEMS"

definition chunk_ok :: "trust_level \<Rightarrow> u32 \<Rightarrow> chunk \<Rightarrow> bool" where
  "chunk_ok trust abi ch \<longleftrightarrow> string_ok (ch_name ch) \<and>
     items_ok (ch_constants ch) \<and> list_all (enc_ok trust 0 abi) (ch_constants ch) \<and>
     items_ok (ch_functions ch) \<and> list_all function_ok (ch_functions ch) \<and> items_ok (ch_code ch)"

definition supported_abi :: "u32 \<Rightarrow> bool" where
  "supported_abi abi \<longleftrightarrow> abi \<in> {ABI_VERSION, ABI_VERSION_LISTS, ABI_VERSION_MAPS, ABI_VERSION_RECORDS}"

text \<open>The bytes of a module written with a given header version.\<close>

definition encode_as :: "u32 \<Rightarrow> chunk \<Rightarrow> u8 list" where
  "encode_as abi ch = MAGIC @ to_le_bytes 4 abi @ write_string (ch_name ch) @
     to_le_bytes 4 (of_nat (length (ch_constants ch)) :: u32) @ concat (map write_value (ch_constants ch)) @
     to_le_bytes 4 (of_nat (length (ch_functions ch)) :: u32) @ concat (map write_function (ch_functions ch)) @
     to_le_bytes 4 (of_nat (length (ch_code ch)) :: u32) @ concat (map write_instruction (ch_code ch))"

lemma encode_eq: "encode ch = encode_as (module_abi (ch_constants ch)) ch"
  by (simp add: encode_def encode_as_def)

lemma read_count_enc:
  assumes "items_ok xs"
  shows "read_count what (to_le_bytes 4 (of_nat (length xs) :: u32) @ rest) = Inr (of_nat (length xs), rest)"
    and "unat (of_nat (length xs) :: u32) = length xs"
  using length_u32_le [of "length xs" MAX_ITEMS] assms
  by (simp_all add: read_count_def u32.dec_enc items_ok_def)

lemma read_count_canonical:
  "read_count what bs = Inr (n, rest) \<Longrightarrow> unat n \<le> unat MAX_ITEMS \<and> bs = to_le_bytes 4 n @ rest"
  by (auto simp: read_count_def result_simps not_less word_le_nat_alt split: if_splits
      dest!: u32.dec_canonical)

lemma decode_encode_as:
  assumes "chunk_ok trust abi ch" and "supported_abi abi"
  shows "decode_with (encode_as abi ch) trust = Inr ch"
  using assms
  by (simp add: decode_with_def encode_as_def chunk_ok_def supported_abi_def MAGIC_def u32.dec_enc
      str.dec_enc read_count_enc val.many_enc fdef.many_enc read_code_enc [where rest = "[]", simplified]
      del: append_Cons) 

lemma unsupported_iff:
  "(abi \<noteq> ABI_VERSION \<and> abi \<noteq> ABI_VERSION_LISTS \<and> abi \<noteq> ABI_VERSION_MAPS \<and> abi \<noteq> ABI_VERSION_RECORDS)
     \<longleftrightarrow> \<not> supported_abi abi"
  by (simp add: supported_abi_def)

lemma decode_canonical:
  assumes "decode_with bytes trust = Inr ch"
  shows "\<exists>abi. supported_abi abi \<and> chunk_ok trust abi ch \<and> bytes = encode_as abi ch"
  using assms unfolding decode_with_def unsupported_iff
  by (auto simp: encode_as_def chunk_ok_def items_ok_def result_simps
      split: if_splits dest!: u32.dec_canonical str.dec_canonical read_count_canonical val.many_canonical
      fdef.many_canonical read_code_canonical)

text \<open>What each container demands of the header version.\<close>

definition abi_fits :: "u32 \<Rightarrow> value \<Rightarrow> bool" where
  "abi_fits abi v \<longleftrightarrow> (contains_record v \<longrightarrow> ABI_VERSION_RECORDS \<le> abi) \<and>
     (contains_map v \<longrightarrow> ABI_VERSION_MAPS \<le> abi) \<and> (contains_list v \<longrightarrow> ABI_VERSION_LISTS \<le> abi)"

lemma abi_order: "ABI_VERSION_LISTS \<le> ABI_VERSION_MAPS" "ABI_VERSION_MAPS \<le> ABI_VERSION_RECORDS"
    "ABI_VERSION_LISTS \<le> ABI_VERSION_RECORDS"
  by (simp_all add: ABI_VERSION_LISTS_def ABI_VERSION_MAPS_def ABI_VERSION_RECORDS_def)

lemma enc_ok_abi_fits: "enc_ok trust d abi v \<Longrightarrow> abi_fits abi v"
  by (induction v arbitrary: d rule: value_induct) (fastforce simp: abi_fits_def list_all_iff list_ex_iff)+

lemma abi_fits_children:
  "abi_fits abi (VMessage (Message s r q t p)) \<Longrightarrow> abi_fits abi p"
  "abi_fits abi (VList xs) \<Longrightarrow> x \<in> set xs \<Longrightarrow> abi_fits abi x"
  "abi_fits abi (VRecord xs) \<Longrightarrow> x \<in> set xs \<Longrightarrow> abi_fits abi x"
  "abi_fits abi (VMap es) \<Longrightarrow> e \<in> set es \<Longrightarrow> abi_fits abi (snd e)"
  by (auto simp: abi_fits_def list_ex_iff)

lemma enc_ok_lower_abi: "enc_ok trust d abi' v \<Longrightarrow> abi_fits abi v \<Longrightarrow> enc_ok trust d abi v"
proof (induction v arbitrary: d rule: value_induct)
  case (Map es)
  then show ?case
    by (auto simp: list_all_iff intro: abi_fits_children(4)) (auto simp: abi_fits_def dest: bspec)
next
  case (List xs)
  then show ?case by (auto simp: list_all_iff intro: abi_fits_children) (auto simp: abi_fits_def)
next
  case (Record xs)
  then show ?case by (auto simp: list_all_iff intro: abi_fits_children) (auto simp: abi_fits_def)
qed (auto intro: abi_fits_children)

lemma module_abi_fits: "v \<in> set cs \<Longrightarrow> abi_fits (module_abi cs) v"
  using abi_order
  by (auto simp: abi_fits_def module_abi_def constants_contain_record_def constants_contain_map_def
      constants_contain_list_def list_ex_iff)

lemma module_abi_oldest:
  assumes "supported_abi abi" and "\<And>v. v \<in> set cs \<Longrightarrow> abi_fits abi v"
  shows "module_abi cs \<le> abi"
proof -
  have "ABI_VERSION \<le> abi"
    using assms(1) by (auto simp: supported_abi_def ABI_VERSION_def ABI_VERSION_LISTS_def
        ABI_VERSION_MAPS_def ABI_VERSION_RECORDS_def)
  with assms(2) show ?thesis
    by (auto simp: abi_fits_def module_abi_def constants_contain_record_def constants_contain_map_def
        constants_contain_list_def list_ex_iff)
qed

lemma supported_module_abi: "supported_abi (module_abi cs)"
  by (simp add: supported_abi_def module_abi_def)

fun authority_free :: "value \<Rightarrow> bool" where
  "authority_free (VPid _) = False"
| "authority_free (VCap _) = False"
| "authority_free (VMessage _) = False"
| "authority_free (VList xs) = list_all (\<lambda>x. authority_free x) xs"
| "authority_free (VRecord xs) = list_all (\<lambda>x. authority_free x) xs"
| "authority_free (VMap es) = list_all (\<lambda>e. authority_free (snd e)) es"
| "authority_free _ = True"

lemma enc_ok_authority_free:
  "enc_ok trust d abi v \<Longrightarrow> forbids_authority_constants trust \<Longrightarrow> authority_free v"
  by (induction v arbitrary: d rule: value_induct) (auto simp: list_all_iff)

lemma chunk_ok_module_abi:
  assumes "chunk_ok trust abi ch"
  shows "chunk_ok trust (module_abi (ch_constants ch)) ch"
proof -
  have "enc_ok trust 0 (module_abi (ch_constants ch)) v" if "v \<in> set (ch_constants ch)" for v
    using assms that enc_ok_lower_abi [OF _ module_abi_fits [OF that]]
    by (auto simp: chunk_ok_def list_all_iff)
  with assms show ?thesis by (simp add: chunk_ok_def list_all_iff)
qed

section \<open>Properties\<close>

text \<open>
  C5: decoding an encoded module gives the module back, at every trust level whose rules
  the constant pool respects; the header that the encoder picks is enough for the pool.
\<close>

theorem decode_encode:
  assumes "chunk_ok trust ABI_VERSION_RECORDS ch"
  shows "decode_with (encode ch) trust = Inr ch"
  unfolding encode_eq by (rule decode_encode_as [OF chunk_ok_module_abi [OF assms] supported_module_abi])

definition sample_chunk :: chunk where
  "sample_chunk = \<lparr>ch_name = [0x6D], ch_constants = [VInt 7, VMap [(KInt 1, VList [VBool True])]],
     ch_code = [instruction_a_imm OpLoadConst 0 1, instruction_a_imm OpReturn 0 0],
     ch_functions = [\<lparr>f_name = [0x66], f_entry = 0, f_arity = 0, f_num_registers = 1\<rparr>]\<rparr>"

lemma sample_chunk_ok: "chunk_ok Untrusted ABI_VERSION_RECORDS sample_chunk"
  by (simp add: chunk_ok_def sample_chunk_def string_ok_def items_ok_def MAX_NAME_def MAX_ITEMS_def
      ABI_VERSION_LISTS_def ABI_VERSION_MAPS_def ABI_VERSION_RECORDS_def MAX_VALUE_DEPTH_def limit_defs
      function_ok_def)

lemma sample_chunk_decodes: "decode_with (encode sample_chunk) Untrusted = Inr sample_chunk"
  unfolding encode_eq
  by (rule decode_encode_as [OF chunk_ok_module_abi [OF sample_chunk_ok] supported_module_abi])

theorem decode_encode_witness: "decode_with (encode sample_chunk) Untrusted = Inr sample_chunk"
  by (rule decode_encode [OF sample_chunk_ok])

text \<open>
  C6: the decoder accepts nothing but encodings.  A buffer that decodes to a module is byte
  for byte the module's encoding under the header version it carries, and that version is
  supported and not older than the one the encoder would pick; so two different buffers
  with the same header never decode to the same module.
\<close>

theorem decode_accepts_only_encodings:
  assumes "decode_with bytes trust = Inr ch"
  shows "\<exists>abi. supported_abi abi \<and> module_abi (ch_constants ch) \<le> abi \<and> bytes = encode_as abi ch \<and>
    (abi = module_abi (ch_constants ch) \<longrightarrow> bytes = encode ch)"
proof -
  from decode_canonical [OF assms] obtain abi where
    abi: "supported_abi abi" "chunk_ok trust abi ch" "bytes = encode_as abi ch" by blast
  have "list_all (abi_fits abi) (ch_constants ch)"
    using abi(2) enc_ok_abi_fits unfolding chunk_ok_def list_all_iff by blast
  with abi(1) have "module_abi (ch_constants ch) \<le> abi"
    by (intro module_abi_oldest) (simp_all add: list_all_iff)
  with abi(1,3) show ?thesis unfolding encode_eq by (intro exI [of _ abi]) simp
qed

theorem decode_accepts_only_encodings_witness:
  "\<exists>abi. supported_abi abi \<and> encode sample_chunk = encode_as abi sample_chunk"
  using decode_accepts_only_encodings [OF sample_chunk_decodes] by blast

text \<open>
  C7: nothing that decodes without trust carries authority: no capability, process id or
  message occurs in the constant pool, at any depth of nesting, and every constant respects
  the nesting ceiling.
\<close>

theorem untrusted_decode_has_no_authority:
  assumes "decode_with bytes trust = Inr ch" and "forbids_authority_constants trust"
    and "v \<in> set (ch_constants ch)"
  shows "authority_free v \<and> within_nesting_limit v"
proof -
  from decode_canonical [OF assms(1)] obtain abi where "chunk_ok trust abi ch" by blast
  with assms(2,3) show ?thesis
    by (auto simp: chunk_ok_def list_all_iff intro: enc_ok_authority_free enc_ok_within)
qed

theorem untrusted_decode_has_no_authority_witness:
  "authority_free (VMap [(KInt 1, VList [VBool True])]) \<and>
   within_nesting_limit (VMap [(KInt 1, VList [VBool True])])"
  using untrusted_decode_has_no_authority [OF sample_chunk_decodes]
  by (simp add: forbids_authority_constants_def sample_chunk_def)

text \<open>
  One value on the wire round-trips in front of any following bytes, and the reader
  reports exactly the number of bytes the writer produced.
\<close>

theorem decode_value_encode_value:
  assumes "enc_ok Trusted 0 ABI_VERSION_RECORDS v"
  shows "decode_value (encode_value v @ rest) = Inr (v, length (encode_value v))"
  using assms by (simp add: decode_value_def encode_value_def val.dec_enc)

theorem decode_value_encode_value_witness:
  "decode_value (encode_value (VMessage (Message 1 2 3 4 (VInt 5))) @ [9]) =
     Inr (VMessage (Message 1 2 3 4 (VInt 5)), length (encode_value (VMessage (Message 1 2 3 4 (VInt 5)))))"
  by (rule decode_value_encode_value) (simp add: MAX_VALUE_DEPTH_def forbids_authority_constants_def)

end
