(* ===== verification/Bf_Verify.thy ===== *)
theory Bf_Verify
  imports Bf_Format
begin

text \<open>
  The load-time verifier (\<^verbatim>\<open>bytecode/verify.rs\<close>).  Code positions are natural numbers and a
  jump target is an integer, as the source computes it in 64 bits; a code vector holds fewer
  than \<^verbatim>\<open>2^63\<close> instructions, so that computation does not wrap.  The match on the opcode is
  split along its arms: calls, child starts, native calls and jumps each have a definition.
\<close>

section \<open>Definitions\<close>

record verify_config =
  vc_trust :: trust_level

definition VerifyConfig_default :: verify_config where
  "VerifyConfig_default = \<lparr>vc_trust = Untrusted\<rparr>"

datatype verify_error =
    VUnknownOpcode nat u8
  | VConstOutOfRange nat u32 nat
  | VFunctionOutOfRange nat u32 nat
  | VJumpOutOfRange nat int nat
  | VEmptyFunctionTable
  | VEntryOutOfRange nat u32 nat
  | VArityExceedsRegisters nat u8 u8
  | VCallArity nat u32 u8 u8
  | VForbiddenConstant nat constant_kind
  | VFallThrough nat nat nat
  | VBadImmediate nat string

fun reject_untrusted_constant :: "value \<Rightarrow> nat \<Rightarrow> verify_error + unit" where
  "reject_untrusted_constant (VCap _) index = Inl (VForbiddenConstant index KindCapability)"
| "reject_untrusted_constant (VPid _) index = Inl (VForbiddenConstant index KindProcessId)"
| "reject_untrusted_constant (VMessage _) index = Inl (VForbiddenConstant index KindMessage)"
| "reject_untrusted_constant (VList items) index = forE (\<lambda>v. reject_untrusted_constant v index) items"
| "reject_untrusted_constant (VRecord items) index = forE (\<lambda>v. reject_untrusted_constant v index) items"
| "reject_untrusted_constant (VMap entries) index =
     forE (\<lambda>e. reject_untrusted_constant (snd e) index) entries"
| "reject_untrusted_constant _ index = Inr ()"

definition validate_constant :: "value \<Rightarrow> trust_level \<Rightarrow> nat \<Rightarrow> verify_error + unit" where
  "validate_constant v trust index =
     (if allows_authority_constants trust then Inr ()
      else if \<not> within_nesting_limit v then Inl (VForbiddenConstant index KindCapability)
      else reject_untrusted_constant v index)"

definition check_slot :: "nat \<Rightarrow> u8 \<Rightarrow> u8 \<Rightarrow> string \<Rightarrow> verify_error + unit" where
  "check_slot at reg limit what = (if unat reg < unat limit then Inr () else Inl (VBadImmediate at what))"

text \<open>The sums below stay under \<^verbatim>\<open>2^32\<close>: a base is a byte and a count at most 255.\<close>

definition check_window :: "nat \<Rightarrow> u8 \<Rightarrow> nat \<Rightarrow> nat \<Rightarrow> u8 \<Rightarrow> verify_error + unit" where
  "check_window at base extra count limit =
     (if count = 0 then Inr ()
      else if unat limit < unat base + extra + count then Inl (VBadImmediate at ''register window'')
      else Inr ())"

definition check_pack :: "nat \<Rightarrow> u8 \<Rightarrow> i32 \<Rightarrow> nat \<Rightarrow> nat \<Rightarrow> verify_error + unit" where
  "check_pack at base count width max_len =
     (let max = (if max_len < 2 ^ 31 then int max_len else 2 ^ 31 - 1) in
      if \<not> (0 \<le> sint count \<and> sint count \<le> max) then Inl (VBadImmediate at ''pack length'')
      else if count = 0 then Inr ()
      else let span = nat (sint count) * width in
        if 2 ^ 32 \<le> span then Inl (VBadImmediate at ''pack window'')
        else if 2 ^ 32 \<le> unat base + span then Inl (VBadImmediate at ''pack window'')
        else if 255 < unat base + span then Inl (VBadImmediate at ''pack window'')
        else Inr ())"

text \<open>Spans: the entries in ascending order without repetition cut the code into ranges.\<close>

definition group_limit :: "chunk \<Rightarrow> u32 \<Rightarrow> u8" where
  "group_limit ch entry =
     (case map f_num_registers (filter (\<lambda>d. f_entry d = entry) (ch_functions ch)) of
        [] \<Rightarrow> 0
      | n # ns \<Rightarrow> fold min ns n)"

definition fill_span :: "nat \<Rightarrow> nat \<Rightarrow> u8 \<Rightarrow> u8 option list \<Rightarrow> u8 option list" where
  "fill_span start end lim limits =
     map (\<lambda>(k, slot). if start \<le> k \<and> k < end then Some lim else slot) (enumerate 0 limits)"

fun register_limits_loop :: "chunk \<Rightarrow> u32 list \<Rightarrow> u8 option list \<Rightarrow> u8 option list" where
  "register_limits_loop ch [] limits = limits"
| "register_limits_loop ch (entry # rest) limits =
     register_limits_loop ch rest
       (fill_span (unat entry)
          (case rest of next # _ \<Rightarrow> unat next | [] \<Rightarrow> chunk_len ch) (group_limit ch entry) limits)"

definition register_limits :: "chunk \<Rightarrow> u8 option list" where
  "register_limits ch =
     register_limits_loop ch (remdups_adj (sort (map f_entry (ch_functions ch))))
       (replicate (chunk_len ch) None)"

definition is_terminator :: "opcode \<Rightarrow> bool" where
  "is_terminator oc \<longleftrightarrow> oc = OpJump \<or> oc = OpReturn \<or> oc = OpHalt \<or> oc = OpExit \<or> oc = OpTrap \<or>
     oc = OpTailCall"

definition exclusive_end :: "function_def list \<Rightarrow> nat \<Rightarrow> nat \<Rightarrow> nat" where
  "exclusive_end fs start code_len =
     fold (\<lambda>d end. let entry = unat (f_entry d) in if start < entry \<and> entry < end then entry else end)
       fs code_len"

definition span_start :: "function_def list \<Rightarrow> nat \<Rightarrow> nat option" where
  "span_start fs at =
     fold (\<lambda>d start. let entry = unat (f_entry d) in
       if entry \<le> at
       then Some (case start of Some prev \<Rightarrow> if entry \<le> prev then prev else entry | None \<Rightarrow> entry)
       else start) fs None"

definition function_span :: "function_def list \<Rightarrow> nat \<Rightarrow> nat \<Rightarrow> (nat \<times> nat) option" where
  "function_span fs at code_len =
     (case span_start fs at of
        None \<Rightarrow> None
      | Some start \<Rightarrow>
          let end = exclusive_end fs start code_len in
          if end \<le> at then None else Some (start, end))"

definition reject_fallthrough_at :: "chunk \<Rightarrow> nat \<times> function_def \<Rightarrow> verify_error + unit" where
  "reject_fallthrough_at ch = (\<lambda>(function, d).
     let len = chunk_len ch; start = unat (f_entry d); end = exclusive_end (ch_functions ch) start len in
     if len \<le> end \<or> end \<le> start then Inr ()
     else let at = end - 1 in
       if \<not> is_terminator (i_op (ch_code ch ! at)) then Inl (VFallThrough function at end)
       else Inr ())"

definition reject_fallthrough :: "chunk \<Rightarrow> verify_error + unit" where
  "reject_fallthrough ch = forE (reject_fallthrough_at ch) (enumerate 0 (ch_functions ch))"

definition verify_function :: "nat \<Rightarrow> nat \<times> function_def \<Rightarrow> verify_error + unit" where
  "verify_function len = (\<lambda>(function, d).
     if len \<le> unat (f_entry d) then Inl (VEntryOutOfRange function (f_entry d) len)
     else if f_num_registers d < f_arity d
     then Inl (VArityExceedsRegisters function (f_arity d) (f_num_registers d))
     else Inr ())"

text \<open>\<^verbatim>\<open>Call\<close>, \<^verbatim>\<open>TailCall\<close> and \<^verbatim>\<open>Spawn\<close>.\<close>

definition verify_call :: "chunk \<Rightarrow> u8 option \<Rightarrow> nat \<Rightarrow> instruction \<Rightarrow> verify_error + unit" where
  "verify_call ch lim at instr =
     (let idx = i_imm instr in
      case chunk_function ch idx of
        None \<Rightarrow> Inl (VFunctionOutOfRange at idx (length (ch_functions ch)))
      | Some d \<Rightarrow>
          if i_b instr \<noteq> f_arity d then Inl (VCallArity at idx (i_b instr) (f_arity d))
          else case lim of
            None \<Rightarrow> Inr ()
          | Some limit \<Rightarrow>
              bindE (check_slot at (i_a instr) limit ''destination register'') (\<lambda>u.
              check_window at (i_a instr) (if i_op instr = OpSpawn then 1 else 0) (unat (i_b instr)) limit))"

definition verify_start_child :: "chunk \<Rightarrow> u8 option \<Rightarrow> nat \<Rightarrow> instruction \<Rightarrow> verify_error + unit" where
  "verify_start_child ch lim at instr =
     (let idx = i_imm instr in
      case chunk_function ch idx of
        None \<Rightarrow> Inl (VFunctionOutOfRange at idx (length (ch_functions ch)))
      | Some d \<Rightarrow>
          if f_arity d \<noteq> 0 then Inl (VCallArity at idx 0 (f_arity d))
          else if 2 < i_b instr then Inl (VBadImmediate at ''restart policy'')
          else case lim of
            None \<Rightarrow> Inr ()
          | Some limit \<Rightarrow> check_slot at (i_a instr) limit ''destination register'')"

definition verify_native :: "u8 option \<Rightarrow> nat \<Rightarrow> instruction \<Rightarrow> verify_error + unit" where
  "verify_native lim at instr =
     (case lim of
        None \<Rightarrow> Inr ()
      | Some limit \<Rightarrow>
          if i_op instr = OpCallNativeFrom
          then bindE (check_slot at (i_a instr) limit ''destination register'') (\<lambda>u.
               check_slot at (i_b instr) limit ''source register'')
          else check_window at (i_a instr) 0 (unat (i_b instr)) limit)"

definition verify_jump :: "chunk \<Rightarrow> nat \<Rightarrow> instruction \<Rightarrow> verify_error + unit" where
  "verify_jump ch at instr =
     (let len = chunk_len ch; target = int at + 1 + sint (i_imm instr) in
      if target < 0 \<or> int len < target then Inl (VJumpOutOfRange at target len)
      else case function_span (ch_functions ch) at len of
        None \<Rightarrow> Inr ()
      | Some (start, end) \<Rightarrow>
          let t = nat target in
          if t \<noteq> len \<and> (t < start \<or> end \<le> t) then Inl (VJumpOutOfRange at target len)
          else Inr ())"

definition verify_ask_timeout :: "u8 option \<Rightarrow> nat \<Rightarrow> instruction \<Rightarrow> verify_error + unit" where
  "verify_ask_timeout lim at instr =
     (case lim of
        None \<Rightarrow> Inr ()
      | Some limit \<Rightarrow>
          if 0 \<le> sint (i_imm instr) \<and> nat (sint (i_imm instr)) < unat limit then Inr ()
          else Inl (VBadImmediate at ''millis register''))"

definition verify_tag_imm :: "nat \<Rightarrow> instruction \<Rightarrow> verify_error + unit" where
  "verify_tag_imm at instr =
     (let n = (if sint (i_imm instr) < 0 then 2 ^ 32 - 1 else sint (i_imm instr)) in
      if \<not> (0 \<le> n \<and> n \<le> 65535) then Inl (VBadImmediate at ''tag immediate'') else Inr ())"

definition verify_instruction :: "chunk \<Rightarrow> u8 option list \<Rightarrow> nat \<times> instruction \<Rightarrow> verify_error + unit" where
  "verify_instruction ch limits = (\<lambda>(at, instr).
     let oc = i_op instr; imm = i_imm instr in
     if oc = OpLoadConst then
       (if length (ch_constants ch) \<le> unat imm
        then Inl (VConstOutOfRange at imm (length (ch_constants ch))) else Inr ())
     else if oc = OpCall \<or> oc = OpTailCall \<or> oc = OpSpawn then verify_call ch (limits ! at) at instr
     else if oc = OpStartChild then verify_start_child ch (limits ! at) at instr
     else if oc = OpCallNative \<or> oc = OpCallNativeFrom then verify_native (limits ! at) at instr
     else if oc = OpListPack \<or> oc = OpRecordPack then
       check_pack at (i_b instr) imm 1 (if oc = OpListPack then MAX_LIST_LEN else MAX_RECORD_LEN)
     else if oc = OpMapPack then check_pack at (i_b instr) imm 2 MAX_MAP_LEN
     else if oc = OpReceiveMatchKind then
       (if \<not> (0 \<le> sint imm \<and> sint imm \<le> 10) then Inl (VBadImmediate at ''payload kind'') else Inr ())
     else if oc = OpReceiveMatchCmp then
       (if int_cmp_from_imm imm = None then Inl (VBadImmediate at ''compare immediate'') else Inr ())
     else if oc = OpReceiveMatchImm \<or> oc = OpReceiveMatchCorrImm then verify_tag_imm at instr
     else if oc = OpSetRestartPolicy then
       (if \<not> (0 \<le> sint imm \<and> sint imm \<le> 2) then Inl (VBadImmediate at ''restart policy'') else Inr ())
     else if oc = OpAskTimeout then verify_ask_timeout (limits ! at) at instr
     else if oc = OpJump \<or> oc = OpBranch \<or> oc = OpBranchTrue then verify_jump ch at instr
     else Inr ())"

definition verify_with :: "chunk \<Rightarrow> verify_config \<Rightarrow> verify_error + unit" where
  "verify_with ch config =
     (if ch_functions ch = [] then Inl VEmptyFunctionTable
      else
        bindE (forE (\<lambda>(index, v). validate_constant v (vc_trust config) index)
                 (enumerate 0 (ch_constants ch))) (\<lambda>u.
        let len = chunk_len ch; limits = register_limits ch in
        bindE (forE (verify_function len) (enumerate 0 (ch_functions ch))) (\<lambda>u.
        bindE (forE (verify_instruction ch limits) (enumerate 0 (ch_code ch))) (\<lambda>u.
        reject_fallthrough ch))))"

definition verify :: "chunk \<Rightarrow> verify_error + unit" where
  "verify ch = verify_with ch VerifyConfig_default"

section \<open>Spans\<close>

text \<open>
  The functions that own a position: those with the greatest entry at or below it.  Several
  functions may share an entry, and then they all own the span.
\<close>

definition owner :: "chunk \<Rightarrow> nat \<Rightarrow> function_def \<Rightarrow> bool" where
  "owner ch at d \<longleftrightarrow> d \<in> set (ch_functions ch) \<and> unat (f_entry d) \<le> at \<and>
     (\<forall>d' \<in> set (ch_functions ch). unat (f_entry d') \<le> at \<longrightarrow> unat (f_entry d') \<le> unat (f_entry d))"

lemma owner_same_entry: "owner ch at d \<Longrightarrow> owner ch at d' \<Longrightarrow> f_entry d' = f_entry d"
  by (simp add: owner_def) (metis order_antisym unsigned_word_eqI)

lemma owner_entry:
  "d \<in> set (ch_functions ch) \<Longrightarrow> owner ch (unat (f_entry d)) d"
  by (simp add: owner_def)

lemma owner_mono:
  "owner ch at d \<Longrightarrow> unat (f_entry d) \<le> t \<Longrightarrow> t \<le> at \<Longrightarrow> owner ch t d"
  by (auto simp: owner_def)

lemma exclusive_end_Cons:
  "exclusive_end (d # fs) start len = exclusive_end fs start
     (if start < unat (f_entry d) \<and> unat (f_entry d) < len then unat (f_entry d) else len)"
  by (simp add: exclusive_end_def Let_def)

lemma exclusive_end_le: "exclusive_end fs start len \<le> len"
proof (induction fs arbitrary: len)
  case (Cons d fs)
  show ?case unfolding exclusive_end_Cons by (rule order_trans [OF Cons]) simp
qed (simp add: exclusive_end_def)

lemma exclusive_end_later:
  "d \<in> set fs \<Longrightarrow> start < unat (f_entry d) \<Longrightarrow> exclusive_end fs start len \<le> unat (f_entry d)"
proof (induction fs arbitrary: len)
  case (Cons d' fs)
  show ?case
  proof (cases "d \<in> set fs")
    case False
    with Cons.prems have "d' = d" by simp
    then show ?thesis
      unfolding exclusive_end_Cons using Cons.prems(2) by (intro order_trans [OF exclusive_end_le]) auto
  qed (use Cons in \<open>simp add: exclusive_end_Cons\<close>)
qed simp

lemma exclusive_end_attained:
  "exclusive_end fs start len = len \<or>
     (\<exists>d \<in> set fs. exclusive_end fs start len = unat (f_entry d) \<and> start < unat (f_entry d))"
proof (induction fs arbitrary: len)
  case (Cons d fs)
  from Cons [of "if start < unat (f_entry d) \<and> unat (f_entry d) < len then unat (f_entry d) else len"]
  show ?case by (auto simp: exclusive_end_Cons split: if_splits)
qed (simp add: exclusive_end_def)

text \<open>A position below the end of a span belongs to the functions that own the span's start.\<close>

lemma owner_in_span:
  assumes "d \<in> set (ch_functions ch)" and "at < chunk_len ch"
  shows "owner ch at d \<longleftrightarrow>
    unat (f_entry d) \<le> at \<and> at < exclusive_end (ch_functions ch) (unat (f_entry d)) (chunk_len ch)"
proof
  assume o: "owner ch at d"
  from exclusive_end_attained [of "ch_functions ch" "unat (f_entry d)" "chunk_len ch"]
  have "at < exclusive_end (ch_functions ch) (unat (f_entry d)) (chunk_len ch)"
  proof
    assume "\<exists>d' \<in> set (ch_functions ch). exclusive_end (ch_functions ch) (unat (f_entry d)) (chunk_len ch) =
      unat (f_entry d') \<and> unat (f_entry d) < unat (f_entry d')"
    with o show ?thesis by (auto simp: owner_def not_less [symmetric])
  qed (use assms(2) in simp)
  with o show "unat (f_entry d) \<le> at \<and> at < exclusive_end (ch_functions ch) (unat (f_entry d)) (chunk_len ch)"
    by (simp add: owner_def)
next
  assume *: "unat (f_entry d) \<le> at \<and> at < exclusive_end (ch_functions ch) (unat (f_entry d)) (chunk_len ch)"
  have "unat (f_entry d') \<le> unat (f_entry d)" if "d' \<in> set (ch_functions ch)" "unat (f_entry d') \<le> at" for d'
    using exclusive_end_later [OF that(1), of "unat (f_entry d)" "chunk_len ch"] * that(2)
    by (meson leD le_less_trans not_le_imp_less)
  with * assms(1) show "owner ch at d" by (simp add: owner_def)
qed

lemma owner_exists:
  assumes "d \<in> set (ch_functions ch)" and "unat (f_entry d) \<le> at"
  shows "\<exists>d'. owner ch at d'"
proof -
  let ?S = "(\<lambda>d. unat (f_entry d)) ` {d \<in> set (ch_functions ch). unat (f_entry d) \<le> at}"
  have "Max ?S \<in> ?S" using assms by (intro Max_in) auto
  then obtain d' where d': "d' \<in> set (ch_functions ch)" "unat (f_entry d') \<le> at" "unat (f_entry d') = Max ?S"
    by auto
  have "unat (f_entry e) \<le> Max ?S" if "e \<in> set (ch_functions ch)" "unat (f_entry e) \<le> at" for e
    using that by (intro Max_ge) auto
  with d' show ?thesis by (auto simp: owner_def)
qed

definition span_start_from :: "nat \<Rightarrow> function_def list \<Rightarrow> nat option \<Rightarrow> nat option" where
  "span_start_from at = fold (\<lambda>d start. let entry = unat (f_entry d) in
       if entry \<le> at
       then Some (case start of Some prev \<Rightarrow> if entry \<le> prev then prev else entry | None \<Rightarrow> entry)
       else start)"

lemma span_start_from_Some:
  "span_start_from at fs acc = Some s \<Longrightarrow>
     (acc = Some s \<or> (\<exists>d \<in> set fs. unat (f_entry d) = s \<and> s \<le> at)) \<and> (\<forall>p. acc = Some p \<longrightarrow> p \<le> s) \<and>
     (\<forall>d \<in> set fs. unat (f_entry d) \<le> at \<longrightarrow> unat (f_entry d) \<le> s)"
proof (induction fs arbitrary: acc)
  case (Cons d fs)
  then show ?case
    by (cases acc) (fastforce simp: span_start_from_def Let_def split: if_splits)+
qed (simp add: span_start_from_def)

lemma span_start_from_None:
  "span_start_from at fs acc = None \<longleftrightarrow> acc = None \<and> (\<forall>d \<in> set fs. at < unat (f_entry d))"
  by (induction fs arbitrary: acc) (auto simp: span_start_from_def Let_def)

lemma span_start_owner:
  "span_start (ch_functions ch) at = Some s \<longleftrightarrow> (\<exists>d. owner ch at d \<and> unat (f_entry d) = s)"
proof -
  have eq: "span_start (ch_functions ch) at = span_start_from at (ch_functions ch) None"
    by (simp add: span_start_def span_start_from_def)
  show ?thesis
  proof
    assume "span_start (ch_functions ch) at = Some s"
    with span_start_from_Some [of at "ch_functions ch" None s]
    show "\<exists>d. owner ch at d \<and> unat (f_entry d) = s" by (auto simp: eq owner_def)
  next
    assume "\<exists>d. owner ch at d \<and> unat (f_entry d) = s"
    then obtain d where d: "owner ch at d" "unat (f_entry d) = s" by blast
    then have "span_start_from at (ch_functions ch) None \<noteq> None"
      unfolding span_start_from_None owner_def by (metis not_le)
    then obtain s' where s': "span_start_from at (ch_functions ch) None = Some s'" by blast
    from span_start_from_Some [OF s'] d have "s' = s"
      by (auto simp: owner_def intro: order_antisym)
    with s' show "span_start (ch_functions ch) at = Some s" by (simp add: eq)
  qed
qed

lemma function_span_owner:
  assumes "at < chunk_len ch"
  shows "function_span (ch_functions ch) at (chunk_len ch) = Some (s, e) \<longleftrightarrow>
    (\<exists>d. owner ch at d \<and> s = unat (f_entry d) \<and> e = exclusive_end (ch_functions ch) s (chunk_len ch))"
proof -
  have "at < exclusive_end (ch_functions ch) (unat (f_entry d)) (chunk_len ch)" if "owner ch at d" for d
    using that owner_in_span [OF _ assms, of d] by (auto simp: owner_def)
  then show ?thesis
    unfolding function_span_def Let_def
    by (cases "span_start (ch_functions ch) at") (use span_start_owner [of ch at] in \<open>force simp: not_le\<close>)+
qed

section \<open>Register limits\<close>

lemma length_fill_span [simp]: "length (fill_span s e lim limits) = length limits"
  by (simp add: fill_span_def)

lemma nth_fill_span:
  "k < length limits \<Longrightarrow> fill_span s e lim limits ! k = (if s \<le> k \<and> k < e then Some lim else limits ! k)"
  by (simp add: fill_span_def nth_enumerate_eq)

lemma register_limits_loop_later:
  "\<forall>e \<in> set es. k < unat e \<Longrightarrow> k < length limits \<Longrightarrow> register_limits_loop ch es limits ! k = limits ! k"
  by (induction es arbitrary: limits) (simp_all add: nth_fill_span)

lemma register_limits_loop_nth:
  assumes "sorted_wrt (<) es" and "k < chunk_len ch" and "length limits = chunk_len ch"
    and "e \<in> set es" and "unat e \<le> k" and "\<forall>e' \<in> set es. unat e' \<le> k \<longrightarrow> e' \<le> e"
  shows "register_limits_loop ch es limits ! k = Some (group_limit ch e)"
  using assms
proof (induction es arbitrary: limits)
  case (Cons x es)
  show ?case
  proof (cases "e \<in> set es")
    case True
    with Cons show ?thesis by simp
  next
    case False
    with Cons.prems(4) have x: "x = e" by simp
    have later: "\<forall>e' \<in> set es. k < unat e'"
      using Cons.prems(1,6) unfolding x by (fastforce simp: not_le [symmetric])
    then have "k < (case es of next # _ \<Rightarrow> unat next | [] \<Rightarrow> chunk_len ch)"
      using Cons.prems(2) by (cases es) auto
    with later Cons.prems(2,3,5) show ?thesis
      by (simp add: x register_limits_loop_later nth_fill_span)
  qed
qed simp

lemma sorted_wrt_remdups_adj: "sorted xs \<Longrightarrow> sorted_wrt (<) (remdups_adj xs)"
proof (induction xs rule: remdups_adj.induct)
  case (3 x y xs)
  then show ?case by (cases "x = y") (auto intro: le_neq_trans)
qed simp_all

lemma group_limit_less:
  assumes "d \<in> set (ch_functions ch)"
  shows "x < group_limit ch (f_entry d) \<longleftrightarrow>
    (\<forall>d' \<in> set (ch_functions ch). f_entry d' = f_entry d \<longrightarrow> x < f_num_registers d')"
proof -
  let ?ns = "map f_num_registers (filter (\<lambda>d'. f_entry d' = f_entry d) (ch_functions ch))"
  from assms obtain n ns where ns: "?ns = n # ns"
    by (cases ?ns) (auto simp: filter_empty_conv)
  then have "group_limit ch (f_entry d) = Min (set ?ns)"
    by (simp only: group_limit_def ns list.case Min.set_eq_fold)
  moreover have "set ?ns \<noteq> {}" using ns by (metis list.distinct(1) set_empty)
  ultimately show ?thesis by auto
qed

lemma register_limits_owner:
  assumes "owner ch at d" and "at < chunk_len ch"
  shows "register_limits ch ! at = Some (group_limit ch (f_entry d))"
  unfolding register_limits_def
  by (rule register_limits_loop_nth) (use assms in \<open>auto simp: owner_def word_le_nat_alt sorted_wrt_remdups_adj\<close>)

lemma register_limits_none:
  assumes "\<nexists>d. owner ch at d" and "at < chunk_len ch"
  shows "register_limits ch ! at = None"
proof -
  have "\<forall>e \<in> set (remdups_adj (sort (map f_entry (ch_functions ch)))). at < unat e"
    using assms(1) owner_exists [of _ ch at] by (auto simp: not_le [symmetric])
  with assms(2) show ?thesis by (simp add: register_limits_def register_limits_loop_later)
qed

lemma group_limit_le:
  assumes "owner ch at d"
  shows "n \<le> unat (group_limit ch (f_entry d)) \<longleftrightarrow> (\<forall>d'. owner ch at d' \<longrightarrow> n \<le> unat (f_num_registers d'))"
proof -
  have d: "d \<in> set (ch_functions ch)" using assms by (simp add: owner_def)
  have same: "owner ch at d' \<longleftrightarrow> d' \<in> set (ch_functions ch) \<and> f_entry d' = f_entry d" for d'
    using assms owner_same_entry [OF assms, of d'] by (auto simp: owner_def)
  have le: "group_limit ch (f_entry d) \<le> f_num_registers d'" if "owner ch at d'" for d'
    using group_limit_less [OF d, of "f_num_registers d'"] that same by (force simp: not_less [symmetric])
  have "\<exists>d'. owner ch at d' \<and> \<not> group_limit ch (f_entry d) < f_num_registers d'"
    using group_limit_less [OF d, of "group_limit ch (f_entry d)"] same by auto
  then obtain d' where "owner ch at d'" "f_num_registers d' \<le> group_limit ch (f_entry d)"
    by (auto simp: not_less)
  with le show ?thesis by (force simp: word_le_nat_alt)
qed

text \<open>What a limit check says about the functions that own the instruction.\<close>

definition frame_of :: "chunk \<Rightarrow> nat \<Rightarrow> nat \<Rightarrow> bool" where
  "frame_of ch at n \<longleftrightarrow> (\<forall>d. owner ch at d \<longrightarrow> n \<le> unat (f_num_registers d))"

lemma limit_check:
  assumes "at < chunk_len ch" and "\<And>limit. chk limit = (Inr () :: 'e + unit) \<longleftrightarrow> P \<and> n \<le> unat limit"
  shows "(case register_limits ch ! at of None \<Rightarrow> Inr () | Some limit \<Rightarrow> chk limit) = Inr () \<longleftrightarrow>
    (\<forall>d. owner ch at d \<longrightarrow> P) \<and> frame_of ch at n"
proof (cases "\<exists>d. owner ch at d")
  case True
  then obtain d where d: "owner ch at d" by blast
  show ?thesis
    using d group_limit_le [OF d, of n]
    by (auto simp: register_limits_owner [OF d assms(1)] assms(2) frame_of_def)
next
  case False
  then show ?thesis by (simp add: register_limits_none [OF _ assms(1)] frame_of_def)
qed

section \<open>The reference specification\<close>

definition window_end :: "u8 \<Rightarrow> nat \<Rightarrow> nat \<Rightarrow> nat" where
  "window_end base extra count = (if count = 0 then 0 else unat base + extra + count)"

text \<open>
  What an instruction at a position must satisfy, in terms of the functions that own the
  position: operands in range, windows inside every owner's register file, and jumps that
  stay with the owner or leave the code at its end.
\<close>

definition instr_ok :: "chunk \<Rightarrow> nat \<Rightarrow> instruction \<Rightarrow> bool" where
  "instr_ok ch at instr \<longleftrightarrow> (let oc = i_op instr; a = i_a instr; b = i_b instr; imm = i_imm instr in
     (oc = OpLoadConst \<longrightarrow> unat imm < length (ch_constants ch)) \<and>
     (oc = OpCall \<or> oc = OpTailCall \<or> oc = OpSpawn \<longrightarrow>
        (\<exists>d. chunk_function ch imm = Some d \<and> f_arity d = b) \<and>
        frame_of ch at (Suc (unat a)) \<and>
        frame_of ch at (window_end a (if oc = OpSpawn then 1 else 0) (unat b))) \<and>
     (oc = OpStartChild \<longrightarrow>
        (\<exists>d. chunk_function ch imm = Some d \<and> f_arity d = 0) \<and> b \<le> 2 \<and> frame_of ch at (Suc (unat a))) \<and>
     (oc = OpCallNative \<longrightarrow> frame_of ch at (window_end a 0 (unat b))) \<and>
     (oc = OpCallNativeFrom \<longrightarrow> frame_of ch at (Suc (unat a)) \<and> frame_of ch at (Suc (unat b))) \<and>
     (oc = OpListPack \<or> oc = OpRecordPack \<longrightarrow>
        0 \<le> sint imm \<and> sint imm \<le> 256 \<and> window_end b 0 (nat (sint imm)) \<le> 255) \<and>
     (oc = OpMapPack \<longrightarrow>
        0 \<le> sint imm \<and> sint imm \<le> 256 \<and> window_end b 0 (2 * nat (sint imm)) \<le> 255) \<and>
     (oc = OpReceiveMatchKind \<longrightarrow> 0 \<le> sint imm \<and> sint imm \<le> 10) \<and>
     (oc = OpReceiveMatchCmp \<longrightarrow> int_cmp_from_imm imm \<noteq> None) \<and>
     (oc = OpReceiveMatchImm \<or> oc = OpReceiveMatchCorrImm \<longrightarrow> 0 \<le> sint imm \<and> sint imm \<le> 65535) \<and>
     (oc = OpSetRestartPolicy \<longrightarrow> 0 \<le> sint imm \<and> sint imm \<le> 2) \<and>
     (oc = OpAskTimeout \<longrightarrow>
        (\<forall>d. owner ch at d \<longrightarrow> 0 \<le> sint imm) \<and> frame_of ch at (Suc (nat (sint imm)))) \<and>
     (oc = OpJump \<or> oc = OpBranch \<or> oc = OpBranchTrue \<longrightarrow>
        (let target = int at + 1 + sint imm in
         0 \<le> target \<and> target \<le> int (chunk_len ch) \<and>
         (\<forall>d. owner ch at d \<longrightarrow> nat target = chunk_len ch \<or> owner ch (nat target) d))))"

definition constants_ok :: "trust_level \<Rightarrow> value list \<Rightarrow> bool" where
  "constants_ok trust cs \<longleftrightarrow>
     allows_authority_constants trust \<or> list_all (\<lambda>v. within_nesting_limit v \<and> authority_free v) cs"

text \<open>
  A chunk is well formed if it has a function, its constants respect the trust level, every
  function starts inside the code with room for its parameters, every instruction is in
  order, and an instruction that can continue (it is not one that always leaves the straight
  line) does not run into another function.
\<close>

definition leaves :: "opcode \<Rightarrow> bool" where
  "leaves oc \<longleftrightarrow> oc \<in> {OpJump, OpReturn, OpHalt, OpExit, OpTrap, OpTailCall}"

definition well_formed :: "trust_level \<Rightarrow> chunk \<Rightarrow> bool" where
  "well_formed trust ch \<longleftrightarrow>
     ch_functions ch \<noteq> [] \<and> constants_ok trust (ch_constants ch) \<and>
     (\<forall>d \<in> set (ch_functions ch). unat (f_entry d) < chunk_len ch \<and> f_arity d \<le> f_num_registers d) \<and>
     (\<forall>at < chunk_len ch. instr_ok ch at (ch_code ch ! at)) \<and>
     (\<forall>at d. Suc at < chunk_len ch \<longrightarrow> owner ch at d \<longrightarrow> \<not> leaves (i_op (ch_code ch ! at)) \<longrightarrow>
        owner ch (Suc at) d)"

section \<open>The verifier decides the specification\<close>

lemma is_terminator_iff: "is_terminator oc \<longleftrightarrow> leaves oc"
  by (simp add: is_terminator_def leaves_def)

lemma reject_untrusted_iff: "reject_untrusted_constant v index = Inr () \<longleftrightarrow> authority_free v"
  by (induction v index rule: reject_untrusted_constant.induct) (auto simp: forE_ok_iff list_all_iff)

lemma validate_constant_iff:
  "validate_constant v trust index = Inr () \<longleftrightarrow>
     allows_authority_constants trust \<or> within_nesting_limit v \<and> authority_free v"
  by (simp add: validate_constant_def reject_untrusted_iff)

lemma check_slot_iff: "check_slot at reg limit what = Inr () \<longleftrightarrow> Suc (unat reg) \<le> unat limit"
  by (simp add: check_slot_def Suc_le_eq)

lemma check_window_iff:
  "check_window at base extra count limit = Inr () \<longleftrightarrow> window_end base extra count \<le> unat limit"
  by (simp add: check_window_def window_end_def)

lemma sint_0_iff: "sint (w :: i32) = 0 \<longleftrightarrow> w = 0"
  by (metis signed_0 signed_word_eqI)

lemma check_pack_iff:
  assumes "width = 1 \<or> width = 2"
  shows "check_pack at base count width 256 = Inr () \<longleftrightarrow>
     0 \<le> sint count \<and> sint count \<le> 256 \<and> window_end base 0 (width * nat (sint count)) \<le> 255"
proof -
  have "unat base < 256" using unsigned_less [of base] by simp
  with assms show ?thesis
    by (auto simp: check_pack_def window_end_def Let_def mult.commute simp flip: sint_0_iff)
qed

lemma bindE_unit_iff: "bindE m (\<lambda>u. k) = Inr () \<longleftrightarrow> m = Inr () \<and> k = Inr ()"
  by (cases m) auto

lemma frame_of_max: "frame_of ch at (max m n) \<longleftrightarrow> frame_of ch at m \<and> frame_of ch at n"
  by (auto simp: frame_of_def)

lemma verify_call_iff:
  assumes "at < chunk_len ch"
  shows "verify_call ch (register_limits ch ! at) at instr = Inr () \<longleftrightarrow>
    (\<exists>d. chunk_function ch (i_imm instr) = Some d \<and> f_arity d = i_b instr) \<and>
    frame_of ch at (Suc (unat (i_a instr))) \<and>
    frame_of ch at (window_end (i_a instr) (if i_op instr = OpSpawn then 1 else 0) (unat (i_b instr)))"
proof -
  let ?w = "window_end (i_a instr) (if i_op instr = OpSpawn then 1 else 0) (unat (i_b instr))"
  have "(case register_limits ch ! at of None \<Rightarrow> Inr () | Some limit \<Rightarrow>
      bindE (check_slot at (i_a instr) limit ''destination register'') (\<lambda>u.
      check_window at (i_a instr) (if i_op instr = OpSpawn then 1 else 0) (unat (i_b instr)) limit)) = Inr () \<longleftrightarrow>
    (\<forall>d. owner ch at d \<longrightarrow> True) \<and> frame_of ch at (max (Suc (unat (i_a instr))) ?w)"
    by (rule limit_check [OF assms]) (simp add: bindE_unit_iff check_slot_iff check_window_iff)
  then show ?thesis
    by (auto simp: verify_call_def Let_def frame_of_max split: option.split)
qed

lemma verify_start_child_iff:
  assumes "at < chunk_len ch"
  shows "verify_start_child ch (register_limits ch ! at) at instr = Inr () \<longleftrightarrow>
    (\<exists>d. chunk_function ch (i_imm instr) = Some d \<and> f_arity d = 0) \<and> i_b instr \<le> 2 \<and>
    frame_of ch at (Suc (unat (i_a instr)))"
proof -
  have "(case register_limits ch ! at of None \<Rightarrow> Inr () | Some limit \<Rightarrow>
      check_slot at (i_a instr) limit ''destination register'') = Inr () \<longleftrightarrow>
    (\<forall>d. owner ch at d \<longrightarrow> True) \<and> frame_of ch at (Suc (unat (i_a instr)))"
    by (rule limit_check [OF assms]) (simp add: check_slot_iff)
  then show ?thesis
    by (auto simp: verify_start_child_def Let_def not_less split: option.split)
qed

lemma verify_native_iff:
  assumes "at < chunk_len ch"
  shows "verify_native (register_limits ch ! at) at instr = Inr () \<longleftrightarrow>
    (if i_op instr = OpCallNativeFrom
     then frame_of ch at (Suc (unat (i_a instr))) \<and> frame_of ch at (Suc (unat (i_b instr)))
     else frame_of ch at (window_end (i_a instr) 0 (unat (i_b instr))))"
proof (cases "i_op instr = OpCallNativeFrom")
  case True
  have "(case register_limits ch ! at of None \<Rightarrow> Inr () | Some limit \<Rightarrow>
      bindE (check_slot at (i_a instr) limit ''destination register'') (\<lambda>u.
      check_slot at (i_b instr) limit ''source register'')) = Inr () \<longleftrightarrow>
    (\<forall>d. owner ch at d \<longrightarrow> True) \<and> frame_of ch at (max (Suc (unat (i_a instr))) (Suc (unat (i_b instr))))"
    by (rule limit_check [OF assms]) (simp add: bindE_unit_iff check_slot_iff del: max_Suc_Suc)
  with True show ?thesis by (simp add: verify_native_def frame_of_max cong: option.case_cong del: max_Suc_Suc)
next
  case False
  have "(case register_limits ch ! at of None \<Rightarrow> Inr () | Some limit \<Rightarrow>
      check_window at (i_a instr) 0 (unat (i_b instr)) limit) = Inr () \<longleftrightarrow>
    (\<forall>d. owner ch at d \<longrightarrow> True) \<and> frame_of ch at (window_end (i_a instr) 0 (unat (i_b instr)))"
    by (rule limit_check [OF assms]) (simp add: check_window_iff)
  with False show ?thesis by (simp add: verify_native_def cong: option.case_cong)
qed

lemma verify_ask_timeout_iff:
  assumes "at < chunk_len ch"
  shows "verify_ask_timeout (register_limits ch ! at) at instr = Inr () \<longleftrightarrow>
    (\<forall>d. owner ch at d \<longrightarrow> 0 \<le> sint (i_imm instr)) \<and> frame_of ch at (Suc (nat (sint (i_imm instr))))"
  unfolding verify_ask_timeout_def
  by (rule limit_check [OF assms]) (simp add: Suc_le_eq)

lemma jump_in_span:
  assumes "owner ch at d" and "at < chunk_len ch" and "t \<le> chunk_len ch"
  shows "t \<noteq> chunk_len ch \<and> (t < unat (f_entry d) \<or>
      exclusive_end (ch_functions ch) (unat (f_entry d)) (chunk_len ch) \<le> t) \<longleftrightarrow>
    \<not> (t = chunk_len ch \<or> owner ch t d)"
proof (cases "t = chunk_len ch")
  case False
  then have "owner ch t d \<longleftrightarrow> unat (f_entry d) \<le> t \<and>
      t < exclusive_end (ch_functions ch) (unat (f_entry d)) (chunk_len ch)"
    using assms by (intro owner_in_span) (simp_all add: owner_def)
  with False show ?thesis by (simp add: not_le not_less)
qed simp

lemma owner_shift:
  assumes "owner ch at d" and "owner ch at d'"
  shows "owner ch t d' \<longleftrightarrow> owner ch t d"
  using assms owner_same_entry [OF assms] by (simp add: owner_def)

lemma verify_jump_iff:
  assumes "at < chunk_len ch"
  shows "verify_jump ch at instr = Inr () \<longleftrightarrow>
    (let target = int at + 1 + sint (i_imm instr) in
     0 \<le> target \<and> target \<le> int (chunk_len ch) \<and>
     (\<forall>d. owner ch at d \<longrightarrow> nat target = chunk_len ch \<or> owner ch (nat target) d))"
proof -
  define target where "target = int at + 1 + sint (i_imm instr)"
  note unfold = verify_jump_def Let_def target_def [symmetric]
  show ?thesis
  proof (cases "0 \<le> target \<and> target \<le> int (chunk_len ch)")
    case True
    then have t: "nat target \<le> chunk_len ch" by linarith
    show ?thesis
    proof (cases "\<exists>d. owner ch at d")
      case own: True
      then obtain d where d: "owner ch at d" by blast
      then have span: "function_span (ch_functions ch) at (chunk_len ch) =
          Some (unat (f_entry d), exclusive_end (ch_functions ch) (unat (f_entry d)) (chunk_len ch))"
        using function_span_owner [OF assms] by blast
      have "(\<forall>d. owner ch at d \<longrightarrow> nat target = chunk_len ch \<or> owner ch (nat target) d) \<longleftrightarrow>
          nat target = chunk_len ch \<or> owner ch (nat target) d"
        using d owner_shift [OF d] by blast
      with True jump_in_span [OF d assms t] show ?thesis
        unfolding unfold span by (simp add: not_less [symmetric])
    next
      case none: False
      then have "function_span (ch_functions ch) at (chunk_len ch) = None"
        using function_span_owner [OF assms] by (cases "function_span (ch_functions ch) at (chunk_len ch)") auto
      with True none show ?thesis unfolding unfold by simp
    qed
  next
    case False
    then show ?thesis unfolding unfold by auto
  qed
qed

lemma verify_tag_imm_iff:
  "verify_tag_imm at instr = Inr () \<longleftrightarrow> 0 \<le> sint (i_imm instr) \<and> sint (i_imm instr) \<le> 65535"
  by (auto simp: verify_tag_imm_def Let_def)

lemma verify_instruction_iff:
  assumes "at < chunk_len ch"
  shows "verify_instruction ch (register_limits ch) (at, instr) = Inr () \<longleftrightarrow> instr_ok ch at instr"
proof -
  consider (const) "i_op instr = OpLoadConst"
    | (call) "i_op instr = OpCall \<or> i_op instr = OpTailCall \<or> i_op instr = OpSpawn"
    | (child) "i_op instr = OpStartChild"
    | (native) "i_op instr = OpCallNative \<or> i_op instr = OpCallNativeFrom"
    | (pack) "i_op instr = OpListPack \<or> i_op instr = OpRecordPack \<or> i_op instr = OpMapPack"
    | (kind) "i_op instr = OpReceiveMatchKind \<or> i_op instr = OpReceiveMatchCmp \<or> i_op instr = OpSetRestartPolicy"
    | (tag) "i_op instr = OpReceiveMatchImm \<or> i_op instr = OpReceiveMatchCorrImm"
    | (ask) "i_op instr = OpAskTimeout"
    | (jump) "i_op instr = OpJump \<or> i_op instr = OpBranch \<or> i_op instr = OpBranchTrue"
    | (other) "\<not> (i_op instr = OpLoadConst \<or> i_op instr = OpCall \<or> i_op instr = OpTailCall \<or> i_op instr = OpSpawn \<or>
        i_op instr = OpStartChild \<or> i_op instr = OpCallNative \<or> i_op instr = OpCallNativeFrom \<or>
        i_op instr = OpListPack \<or> i_op instr = OpRecordPack \<or> i_op instr = OpMapPack \<or>
        i_op instr = OpReceiveMatchKind \<or> i_op instr = OpReceiveMatchCmp \<or> i_op instr = OpSetRestartPolicy \<or>
        i_op instr = OpReceiveMatchImm \<or> i_op instr = OpReceiveMatchCorrImm \<or> i_op instr = OpAskTimeout \<or>
        i_op instr = OpJump \<or> i_op instr = OpBranch \<or> i_op instr = OpBranchTrue)"
    by blast
  then show ?thesis
  proof cases
    case const
    then show ?thesis by (simp add: verify_instruction_def instr_ok_def Let_def not_le)
  next
    case call
    then show ?thesis
      by (elim disjE; simp add: verify_instruction_def instr_ok_def Let_def verify_call_iff [OF assms])
  next
    case child
    then show ?thesis by (simp add: verify_instruction_def instr_ok_def Let_def verify_start_child_iff [OF assms])
  next
    case native
    then show ?thesis
      by (elim disjE; simp add: verify_instruction_def instr_ok_def Let_def verify_native_iff [OF assms])
  next
    case pack
    then show ?thesis
      by (elim disjE; simp add: verify_instruction_def instr_ok_def Let_def check_pack_iff
        MAX_LIST_LEN_def MAX_RECORD_LEN_def MAX_MAP_LEN_def)
  next
    case kind
    then show ?thesis by (elim disjE; simp add: verify_instruction_def instr_ok_def Let_def)
  next
    case tag
    then show ?thesis
      by (elim disjE; simp add: verify_instruction_def instr_ok_def Let_def verify_tag_imm_iff)
  next
    case ask
    then show ?thesis by (simp add: verify_instruction_def instr_ok_def Let_def verify_ask_timeout_iff [OF assms])
  next
    case jump
    then show ?thesis
      by (elim disjE; simp add: verify_instruction_def instr_ok_def verify_jump_iff [OF assms])
  next
    case other
    then show ?thesis by (simp add: verify_instruction_def instr_ok_def Let_def)
  qed
qed

lemma verify_function_iff:
  "verify_function len (i, d) = Inr () \<longleftrightarrow> unat (f_entry d) < len \<and> f_arity d \<le> f_num_registers d"
  by (simp add: verify_function_def not_le not_less)

lemma reject_fallthrough_at_iff:
  assumes "d \<in> set (ch_functions ch)" and "unat (f_entry d) < chunk_len ch"
  shows "reject_fallthrough_at ch (i, d) = Inr () \<longleftrightarrow>
    (\<forall>at. Suc at < chunk_len ch \<longrightarrow> owner ch at d \<longrightarrow> \<not> is_terminator (i_op (ch_code ch ! at)) \<longrightarrow>
       owner ch (Suc at) d)"
proof -
  define e where "e = exclusive_end (ch_functions ch) (unat (f_entry d)) (chunk_len ch)"
  have span: "owner ch t d \<longleftrightarrow> unat (f_entry d) \<le> t \<and> t < e" if "t < chunk_len ch" for t
    unfolding e_def by (rule owner_in_span [OF assms(1) that])
  have start: "unat (f_entry d) < e" using span [OF assms(2)] owner_entry [OF assms(1)] by simp
  have "reject_fallthrough_at ch (i, d) = Inr () \<longleftrightarrow>
      chunk_len ch \<le> e \<or> is_terminator (i_op (ch_code ch ! (e - 1)))"
    using start unfolding reject_fallthrough_at_def e_def Let_def by simp
  moreover have "(\<forall>at. Suc at < chunk_len ch \<longrightarrow> owner ch at d \<longrightarrow> \<not> is_terminator (i_op (ch_code ch ! at)) \<longrightarrow>
       owner ch (Suc at) d) \<longleftrightarrow> chunk_len ch \<le> e \<or> is_terminator (i_op (ch_code ch ! (e - 1)))"
  proof
    assume *: "\<forall>at. Suc at < chunk_len ch \<longrightarrow> owner ch at d \<longrightarrow> \<not> is_terminator (i_op (ch_code ch ! at)) \<longrightarrow>
       owner ch (Suc at) d"
    show "chunk_len ch \<le> e \<or> is_terminator (i_op (ch_code ch ! (e - 1)))"
    proof (rule ccontr)
      assume n: "\<not> ?thesis"
      then have "Suc (e - 1) < chunk_len ch" "owner ch (e - 1) d" "\<not> owner ch (Suc (e - 1)) d"
        using start span [of "e - 1"] span [of e] by auto
      with * n show False by blast
    qed
  next
    assume *: "chunk_len ch \<le> e \<or> is_terminator (i_op (ch_code ch ! (e - 1)))"
    show "\<forall>at. Suc at < chunk_len ch \<longrightarrow> owner ch at d \<longrightarrow> \<not> is_terminator (i_op (ch_code ch ! at)) \<longrightarrow>
       owner ch (Suc at) d"
    proof (intro allI impI)
      fix at assume at: "Suc at < chunk_len ch" "owner ch at d" "\<not> is_terminator (i_op (ch_code ch ! at))"
      then have "unat (f_entry d) \<le> at" "at < e" using span [of at] by auto
      moreover have "e \<noteq> Suc at" using * at by auto
      ultimately show "owner ch (Suc at) d" using span [OF at(1)] by simp
    qed
  qed
  ultimately show ?thesis by simp
qed

lemma forE_enumerate_iff:
  "forE f (enumerate 0 xs) = Inr u \<longleftrightarrow> (\<forall>i < length xs. f (i, xs ! i) = Inr ())"
  by (auto simp: forE_ok_iff in_set_enumerate_eq)

lemma constants_pass_iff:
  "forE (\<lambda>(index, v). validate_constant v trust index) (enumerate 0 cs) = Inr u \<longleftrightarrow> constants_ok trust cs"
  by (auto simp: forE_enumerate_iff validate_constant_iff constants_ok_def list_all_length)

lemma functions_pass_iff:
  "forE (verify_function len) (enumerate 0 fs) = Inr u \<longleftrightarrow>
     (\<forall>d \<in> set fs. unat (f_entry d) < len \<and> f_arity d \<le> f_num_registers d)"
  by (simp add: forE_enumerate_iff verify_function_iff all_set_conv_all_nth)

lemma code_passes_iff:
  "forE (verify_instruction ch (register_limits ch)) (enumerate 0 (ch_code ch)) = Inr u \<longleftrightarrow>
     (\<forall>at < chunk_len ch. instr_ok ch at (ch_code ch ! at))"
  by (simp add: forE_enumerate_iff verify_instruction_iff chunk_len_def)

lemma fallthrough_passes_iff:
  assumes "\<forall>d \<in> set (ch_functions ch). unat (f_entry d) < chunk_len ch"
  shows "reject_fallthrough ch = Inr () \<longleftrightarrow> (\<forall>at d. Suc at < chunk_len ch \<longrightarrow> owner ch at d \<longrightarrow>
    \<not> is_terminator (i_op (ch_code ch ! at)) \<longrightarrow> owner ch (Suc at) d)"
proof -
  have "reject_fallthrough ch = Inr () \<longleftrightarrow>
    (\<forall>i < length (ch_functions ch). reject_fallthrough_at ch (i, ch_functions ch ! i) = Inr ())"
    unfolding reject_fallthrough_def by (rule forE_enumerate_iff)
  also have "\<dots> \<longleftrightarrow> (\<forall>d \<in> set (ch_functions ch). \<forall>at. Suc at < chunk_len ch \<longrightarrow> owner ch at d \<longrightarrow>
    \<not> is_terminator (i_op (ch_code ch ! at)) \<longrightarrow> owner ch (Suc at) d)"
    using assms by (simp add: reject_fallthrough_at_iff all_set_conv_all_nth)
  finally show ?thesis by (auto simp: owner_def)
qed

lemma verify_with_iff: "verify_with ch cfg = Inr () \<longleftrightarrow> well_formed (vc_trust cfg) ch"
proof -
  have "verify_with ch cfg = Inr () \<longleftrightarrow> ch_functions ch \<noteq> [] \<and> constants_ok (vc_trust cfg) (ch_constants ch) \<and>
      (\<forall>d \<in> set (ch_functions ch). unat (f_entry d) < chunk_len ch \<and> f_arity d \<le> f_num_registers d) \<and>
      (\<forall>at < chunk_len ch. instr_ok ch at (ch_code ch ! at)) \<and> reject_fallthrough ch = Inr ()"
    by (simp add: verify_with_def Let_def bindE_unit_iff constants_pass_iff functions_pass_iff code_passes_iff)
  also have "\<dots> \<longleftrightarrow> well_formed (vc_trust cfg) ch"
    using fallthrough_passes_iff [of ch] unfolding well_formed_def is_terminator_iff by (intro conj_cong refl) blast
  finally show ?thesis .
qed

text \<open>After the constant pool has passed, no later check blames a constant.\<close>

lemma not_forbidden:
  "verify_function len p \<noteq> Inl (VForbiddenConstant i k)"
  "verify_instruction ch limits q \<noteq> Inl (VForbiddenConstant i k)"
  "reject_fallthrough_at ch p \<noteq> Inl (VForbiddenConstant i k)"
proof -
  show "verify_function len p \<noteq> Inl (VForbiddenConstant i k)"
    by (simp add: verify_function_def split: prod.split)
  show "reject_fallthrough_at ch p \<noteq> Inl (VForbiddenConstant i k)"
    by (simp add: reject_fallthrough_at_def Let_def split: prod.split)
  note checks = check_slot_def check_window_def
  have "verify_call ch l at instr \<noteq> Inl (VForbiddenConstant i k)"
    "verify_start_child ch l at instr \<noteq> Inl (VForbiddenConstant i k)"
    "verify_native l at instr \<noteq> Inl (VForbiddenConstant i k)"
    "verify_jump ch at instr \<noteq> Inl (VForbiddenConstant i k)"
    "verify_ask_timeout l at instr \<noteq> Inl (VForbiddenConstant i k)"
    "verify_tag_imm at instr \<noteq> Inl (VForbiddenConstant i k)"
    "check_pack at base count width m \<noteq> Inl (VForbiddenConstant i k)" for l at instr base count width m
    by (auto simp: verify_call_def verify_start_child_def verify_native_def verify_jump_def
        verify_ask_timeout_def verify_tag_imm_def check_pack_def checks Let_def result_simps
        split: option.splits if_splits)
  then show "verify_instruction ch limits q \<noteq> Inl (VForbiddenConstant i k)"
    by (simp add: verify_instruction_def Let_def split: prod.split)
qed

section \<open>Properties\<close>


text \<open>
  C17: the decoder and the verifier agree about authority: a module that decodes at a trust
  level is never rejected by the verifier at that level because of a constant.
\<close>

theorem decoded_constants_verify:
  assumes "decode_with bytes trust = Inr ch"
  shows "verify_with ch \<lparr>vc_trust = trust\<rparr> \<noteq> Inl (VForbiddenConstant index kind)"
proof -
  from decode_canonical [OF assms] obtain abi where "chunk_ok trust abi ch" by blast
  then have "constants_ok trust (ch_constants ch)"
    using enc_ok_authority_free enc_ok_within
    by (fastforce simp: constants_ok_def chunk_ok_def list_all_iff forbids_authority_constants_def)
  then have "forE (\<lambda>(index, v). validate_constant v trust index) (enumerate 0 (ch_constants ch)) = Inr ()"
    by (simp add: constants_pass_iff)
  then show ?thesis
    by (auto simp: verify_with_def Let_def result_simps reject_fallthrough_def forE_first_error not_forbidden)
qed

theorem decoded_constants_verify_witness:
  "verify_with sample_chunk \<lparr>vc_trust = Untrusted\<rparr> \<noteq> Inl (VForbiddenConstant 0 KindMessage)"
  by (rule decoded_constants_verify [OF sample_chunk_decodes])

end
