(* ===== verification/Bf_Quota.thy ===== *)
theory Bf_Quota
  imports Bf_HashMap
begin

text \<open>
  Accounting: the runtime memory budget and the buffers charged against it
  (\<^verbatim>\<open>memory.rs\<close>), the per-flow quota with its token buckets (\<^verbatim>\<open>scheduler/quota.rs\<close>) and
  the live-flow limit (\<^verbatim>\<open>scheduler/flow_limit.rs\<close>).

  The counters are atomics updated by a compare-and-swap loop.  The operations below are
  the loops' atomic effects; the section on interleaving gives the loops themselves, one
  shared access per step, and shows that they do nothing else.  Times are nanoseconds on
  the monotonic clock.  Signed 64-bit counters are integers with the saturation written
  out at the places where the source saturates.
\<close>

definition i64_max :: int where "i64_max = 2 ^ 63 - 1"

definition saturating_add_i64 :: "int \<Rightarrow> int \<Rightarrow> int" where
  "saturating_add_i64 a b = max (- (2 ^ 63)) (min i64_max (a + b))"

section \<open>The memory budget\<close>

datatype memory_error = MemLimitExceeded nat nat nat | MemArithmeticOverflow

record memory_budget =
  mb_used :: nat
  mb_limit :: nat

definition MemoryBudget_new :: "nat \<Rightarrow> memory_budget" where
  "MemoryBudget_new limit = \<lparr>mb_used = 0, mb_limit = limit\<rparr>"

definition try_charge :: "nat \<Rightarrow> (memory_budget, memory_error, unit) fallible" where
  "try_charge bytes mb =
     (if bytes = 0 then (Inr (), mb)
      else case checked_add (mb_used mb) bytes of
        None \<Rightarrow> (Inl MemArithmeticOverflow, mb)
      | Some next \<Rightarrow>
          if mb_limit mb < next then (Inl (MemLimitExceeded bytes (mb_used mb) (mb_limit mb)), mb)
          else (Inr (), mb\<lparr>mb_used := next\<rparr>))"

text \<open>Natural subtraction is the saturating one.\<close>

definition mb_release :: "nat \<Rightarrow> memory_budget \<Rightarrow> memory_budget" where
  "mb_release bytes mb = (if bytes = 0 then mb else mb\<lparr>mb_used := mb_used mb - bytes\<rparr>)"

text \<open>
  A charged buffer: \<^verbatim>\<open>HeapStr\<close> and \<^verbatim>\<open>HeapBytes\<close> differ only in their element type.  The
  budget is shared, so it is passed along.
\<close>

record heap_buffer =
  hb_value :: "u8 list"
  hb_charged :: nat

definition heap_new :: "u8 list \<Rightarrow> (memory_budget, memory_error, heap_buffer) fallible" where
  "heap_new v = bindS (try_charge (length v)) (\<lambda>u. returnS \<lparr>hb_value = v, hb_charged = length v\<rparr>)"

definition heap_replace :: "heap_buffer \<Rightarrow> u8 list \<Rightarrow> (memory_budget, memory_error, heap_buffer) fallible" where
  "heap_replace b next mb =
     (case try_charge (length next) mb of
        (Inl e, mb') \<Rightarrow> (Inl e, mb')
      | (Inr _, mb') \<Rightarrow>
          (Inr \<lparr>hb_value = next, hb_charged = length next\<rparr>, mb_release (hb_charged b) mb'))"

definition heap_drop :: "heap_buffer \<Rightarrow> memory_budget \<Rightarrow> memory_budget" where
  "heap_drop b mb = mb_release (hb_charged b) mb"

section \<open>Token buckets\<close>

record token_bucket =
  tb_capacity :: int
  tb_tokens :: int
  tb_refill_per_sec :: int
  tb_last_refill :: nat
  tb_poisoned :: bool

definition TokenBucket_new :: "int \<Rightarrow> int \<Rightarrow> nat \<Rightarrow> token_bucket" where
  "TokenBucket_new capacity refill_per_sec now =
     \<lparr>tb_capacity = capacity, tb_tokens = capacity, tb_refill_per_sec = refill_per_sec,
      tb_last_refill = now, tb_poisoned = False\<rparr>"

definition u128_max :: nat where "u128_max = 2 ^ 128 - 1"

definition tokens_for_elapsed :: "nat \<Rightarrow> int \<Rightarrow> int" where
  "tokens_for_elapsed elapsed per_sec =
     (if per_sec \<le> 0 then 0
      else let add = min u128_max (nat per_sec * elapsed) div 1000000000 in
        if int add \<le> i64_max then int add else i64_max)"

text \<open>The clock is read twice: for the elapsed time and for the new refill instant.\<close>

definition refill :: "nat \<Rightarrow> nat \<Rightarrow> token_bucket \<Rightarrow> bool \<times> token_bucket" where
  "refill now now' tb =
     (if tb_poisoned tb then (False, tb)
      else let elapsed = now - tb_last_refill tb in
        if 50000000 \<le> elapsed then
          let add = tokens_for_elapsed elapsed (tb_refill_per_sec tb) in
          if 0 < add then
            (True, tb\<lparr>tb_tokens := min (saturating_add_i64 (tb_tokens tb) add) (tb_capacity tb),
                      tb_last_refill := now'\<rparr>)
          else (True, tb)
        else (True, tb))"

definition try_consume :: "nat \<Rightarrow> nat \<Rightarrow> token_bucket \<Rightarrow> bool \<times> token_bucket" where
  "try_consume now now' tb =
     (case refill now now' tb of
        (False, tb1) \<Rightarrow> (False, tb1)
      | (True, tb1) \<Rightarrow>
          if tb_tokens tb1 \<le> 0 then (False, tb1)
          else (True, tb1\<lparr>tb_tokens := tb_tokens tb1 - 1\<rparr>))"

definition tb_credit :: "int \<Rightarrow> token_bucket \<Rightarrow> token_bucket" where
  "tb_credit extra tb =
     (if extra \<le> 0 then tb else tb\<lparr>tb_tokens := saturating_add_i64 (tb_tokens tb) extra\<rparr>)"

section \<open>The flow quota\<close>

datatype quota_error =
    CpuExhausted
  | MemoryExhausted nat nat
  | SpawnRateExceeded
  | SendRateExceeded

record quota_config =
  qc_cpu_budget :: int
  qc_mem_limit :: nat
  qc_spawn_burst :: int
  qc_spawn_per_sec :: int
  qc_send_burst :: int
  qc_send_per_sec :: int

definition QuotaConfig_permissive :: quota_config where
  "QuotaConfig_permissive =
     \<lparr>qc_cpu_budget = 1000000000, qc_mem_limit = 64 * 1024 * 1024, qc_spawn_burst = 10000,
      qc_spawn_per_sec = 10000, qc_send_burst = 50000, qc_send_per_sec = 50000\<rparr>"

definition QuotaConfig_sandbox :: quota_config where
  "QuotaConfig_sandbox =
     \<lparr>qc_cpu_budget = 50000, qc_mem_limit = 16 * 1024 * 1024, qc_spawn_burst = 32,
      qc_spawn_per_sec = 32, qc_send_burst = 256, qc_send_per_sec = 64\<rparr>"

record flow_quota =
  q_cpu_budget :: int
  q_mem_limit :: nat
  q_mem_used :: nat
  q_spawn_bucket :: token_bucket
  q_send_bucket :: token_bucket

definition FlowQuota_from_config :: "quota_config \<Rightarrow> nat \<Rightarrow> flow_quota" where
  "FlowQuota_from_config cfg now =
     \<lparr>q_cpu_budget = qc_cpu_budget cfg, q_mem_limit = qc_mem_limit cfg, q_mem_used = 0,
      q_spawn_bucket = TokenBucket_new (qc_spawn_burst cfg) (qc_spawn_per_sec cfg) now,
      q_send_bucket = TokenBucket_new (qc_send_burst cfg) (qc_send_per_sec cfg) now\<rparr>"

definition remaining_cpu :: "flow_quota \<Rightarrow> int" where
  "remaining_cpu q = max (q_cpu_budget q) 0"

text \<open>A cost is a count of executed instructions, so the difference does not overflow.\<close>

definition charge_cpu :: "int \<Rightarrow> (flow_quota, quota_error, unit) fallible" where
  "charge_cpu cost q =
     (if q_cpu_budget q < cost then (Inl CpuExhausted, q)
      else (Inr (), q\<lparr>q_cpu_budget := q_cpu_budget q - cost\<rparr>))"

definition q_alloc :: "nat \<Rightarrow> (flow_quota, quota_error, unit) fallible" where
  "q_alloc bytes q =
     (case checked_add (q_mem_used q) bytes of
        None \<Rightarrow> (Inl (MemoryExhausted bytes (q_mem_limit q)), q)
      | Some next \<Rightarrow>
          if q_mem_limit q < next then (Inl (MemoryExhausted bytes (q_mem_limit q)), q)
          else (Inr (), q\<lparr>q_mem_used := next\<rparr>))"

definition q_free :: "nat \<Rightarrow> flow_quota \<Rightarrow> flow_quota" where
  "q_free bytes q = q\<lparr>q_mem_used := q_mem_used q - bytes\<rparr>"

definition check_spawn :: "nat \<Rightarrow> nat \<Rightarrow> (flow_quota, quota_error, unit) fallible" where
  "check_spawn now now' q =
     (case try_consume now now' (q_spawn_bucket q) of
        (ok, b) \<Rightarrow> (if ok then Inr () else Inl SpawnRateExceeded, q\<lparr>q_spawn_bucket := b\<rparr>))"

definition check_send :: "nat \<Rightarrow> nat \<Rightarrow> (flow_quota, quota_error, unit) fallible" where
  "check_send now now' q =
     (case try_consume now now' (q_send_bucket q) of
        (ok, b) \<Rightarrow> (if ok then Inr () else Inl SendRateExceeded, q\<lparr>q_send_bucket := b\<rparr>))"

definition top_up_cpu :: "int \<Rightarrow> flow_quota \<Rightarrow> flow_quota" where
  "top_up_cpu extra q =
     (if extra \<le> 0 then q else q\<lparr>q_cpu_budget := saturating_add_i64 (q_cpu_budget q) extra\<rparr>)"

definition top_up_mem :: "nat \<Rightarrow> flow_quota \<Rightarrow> flow_quota" where
  "top_up_mem extra q = q\<lparr>q_mem_limit := saturating_add (q_mem_limit q) extra\<rparr>"

definition top_up_send :: "int \<Rightarrow> flow_quota \<Rightarrow> flow_quota" where
  "top_up_send extra q = q\<lparr>q_send_bucket := tb_credit extra (q_send_bucket q)\<rparr>"

section \<open>The live-flow limit\<close>

record flow_limit =
  fl_live :: nat
  fl_max :: nat

definition FlowLimit_new :: "u32 \<Rightarrow> flow_limit" where
  "FlowLimit_new max_flows = \<lparr>fl_live = 0, fl_max = unat max_flows\<rparr>"

definition try_reserve :: "(flow_limit, nat \<times> nat, unit) fallible" where
  "try_reserve l =
     (if fl_max l \<noteq> 0 \<and> fl_max l \<le> fl_live l then (Inl (fl_live l, fl_max l), l)
      else (Inr (), l\<lparr>fl_live := saturating_add (fl_live l) 1\<rparr>))"

definition fl_release :: "flow_limit \<Rightarrow> flow_limit" where
  "fl_release l = l\<lparr>fl_live := fl_live l - 1\<rparr>"

section \<open>The compare-and-swap loops\<close>

text \<open>
  What one round of a loop computes from the value it loaded: an error that ends the loop,
  or the value to swap in.
\<close>

definition charge_attempt :: "nat \<Rightarrow> nat \<Rightarrow> nat \<Rightarrow> memory_error + nat" where
  "charge_attempt limit bytes current =
     (case checked_add current bytes of
        None \<Rightarrow> Inl MemArithmeticOverflow
      | Some next \<Rightarrow> if limit < next then Inl (MemLimitExceeded bytes current limit) else Inr next)"

definition release_attempt :: "nat \<Rightarrow> nat \<Rightarrow> memory_error + nat" where
  "release_attempt bytes current = Inr (current - bytes)"

datatype 'e cas_pc = CasIdle | CasLoaded nat | CasDone "'e + unit"

text \<open>
  Threads \<open>i\<close> run their attempts \<open>att i\<close> against one shared counter.  A swap succeeds only
  if the counter still has the loaded value; a weak swap may also fail for no reason, and a
  failed swap continues with the value it observed.
\<close>

inductive cas_step ::
  "(nat \<Rightarrow> nat \<Rightarrow> 'e + nat) \<Rightarrow> nat \<times> (nat \<Rightarrow> 'e cas_pc) \<Rightarrow> nat \<times> (nat \<Rightarrow> 'e cas_pc) \<Rightarrow> bool"
  for att where
  cas_load: "pcs i = CasIdle \<Longrightarrow> cas_step att (v, pcs) (v, pcs(i := CasLoaded v))"
| cas_refuse: "pcs i = CasLoaded c \<Longrightarrow> att i c = Inl e \<Longrightarrow>
    cas_step att (v, pcs) (v, pcs(i := CasDone (Inl e)))"
| cas_swap: "pcs i = CasLoaded v \<Longrightarrow> att i v = Inr n \<Longrightarrow>
    cas_step att (v, pcs) (n, pcs(i := CasDone (Inr ())))"
| cas_retry: "pcs i = CasLoaded c \<Longrightarrow> att i c = Inr n \<Longrightarrow>
    cas_step att (v, pcs) (v, pcs(i := CasLoaded v))"

text \<open>The same operations, one after the other.\<close>

primrec seq_run :: "(nat \<Rightarrow> nat \<Rightarrow> 'e + nat) \<Rightarrow> nat list \<Rightarrow> nat \<Rightarrow> nat option" where
  "seq_run att [] v = Some v"
| "seq_run att (i # is) v = (case att i v of Inr n \<Rightarrow> seq_run att is n | Inl _ \<Rightarrow> None)"

datatype budget_op = Charge nat | Release nat

primrec budget_attempt :: "nat \<Rightarrow> budget_op \<Rightarrow> nat \<Rightarrow> memory_error + nat" where
  "budget_attempt limit (Charge bytes) = charge_attempt limit bytes"
| "budget_attempt limit (Release bytes) = release_attempt bytes"

primrec budget_apply :: "budget_op \<Rightarrow> (memory_budget, memory_error, unit) fallible" where
  "budget_apply (Charge bytes) mb = try_charge bytes mb"
| "budget_apply (Release bytes) mb = (Inr (), mb_release bytes mb)"

primrec run_ops :: "budget_op list \<Rightarrow> memory_budget \<Rightarrow> memory_budget option" where
  "run_ops [] mb = Some mb"
| "run_ops (p # ps) mb = (case budget_apply p mb of (Inr _, mb') \<Rightarrow> run_ops ps mb' | (Inl _, _) \<Rightarrow> None)"

text \<open>The number of tokens a sequence of calls obtains; each call reads the clock twice.\<close>

fun consume_all :: "(nat \<times> nat) list \<Rightarrow> token_bucket \<Rightarrow> nat \<times> token_bucket" where
  "consume_all [] tb = (0, tb)"
| "consume_all ((now, now') # ts) tb =
     (case try_consume now now' tb of (ok, tb1) \<Rightarrow>
      case consume_all ts tb1 of (n, tb2) \<Rightarrow> ((if ok then Suc n else n), tb2))"

fun clock_readings :: "nat \<Rightarrow> (nat \<times> nat) list \<Rightarrow> bool" where
  "clock_readings t [] = True"
| "clock_readings t ((now, now') # ts) = (t \<le> now \<and> now \<le> now' \<and> clock_readings now' ts)"

fun last_reading :: "nat \<Rightarrow> (nat \<times> nat) list \<Rightarrow> nat" where
  "last_reading t [] = t"
| "last_reading t ((now, now') # ts) = last_reading now' ts"

section \<open>Accounts\<close>

text \<open>
  What the interpreter relies on when it pays for heap values: a charge is all or nothing
  and never passes the ceiling, and a release undoes a charge.
\<close>

locale charge_account =
  fixes charge :: "nat \<Rightarrow> ('s, 'e, unit) fallible"
    and release :: "nat \<Rightarrow> 's \<Rightarrow> 's"
    and used :: "'s \<Rightarrow> nat"
    and ceiling :: "'s \<Rightarrow> nat"
  assumes charge_ok: "charge n s = (Inr u, s') \<Longrightarrow>
      used s' = used s + n \<and> ceiling s' = ceiling s \<and> (used s \<le> ceiling s \<longrightarrow> used s' \<le> ceiling s')"
    and charge_refused: "charge n s = (Inl e, s') \<Longrightarrow> s' = s"
    and charge_release: "charge n s = (Inr u, s') \<Longrightarrow> release n s' = s"
    and release_used: "used (release n s) = used s - n \<and> ceiling (release n s) = ceiling s"
begin

lemma charge_mono:
  assumes "charge n s = (r, s')"
  shows "used s \<le> used s' \<and> used s' \<le> used s + n \<and> ceiling s' = ceiling s"
proof (cases r)
  case (Inl e)
  then show ?thesis using charge_refused [of n s e s'] assms by simp
next
  case (Inr u)
  then show ?thesis using charge_ok [of n s u s'] assms by simp
qed

text \<open>Two accounts charged together: the second refusal rolls the first charge back.\<close>

lemma charge_then_release_used:
  "charge n s = (Inr u, s') \<Longrightarrow> used (release n s') = used s"
  by (simp add: charge_release)

end

interpretation mb: charge_account try_charge mb_release mb_used mb_limit
proof
  show "mb_release n s' = s" if "try_charge n s = (Inr u, s')" for n s u s'
    using that by (auto simp: try_charge_def mb_release_def result_simps split: if_splits option.splits)
qed (auto simp: try_charge_def mb_release_def result_simps split: if_splits option.splits)

interpretation fq: charge_account q_alloc q_free q_mem_used q_mem_limit
proof
  show "q_free n s' = s" if "q_alloc n s = (Inr u, s')" for n s u s'
    using that by (auto simp: q_alloc_def q_free_def result_simps split: if_splits option.splits)
qed (auto simp: q_alloc_def q_free_def result_simps split: if_splits option.splits)

section \<open>Interleaving\<close>

lemma seq_run_append:
  "seq_run att (xs @ ys) v = Option.bind (seq_run att xs v) (seq_run att ys)"
  by (induction xs arbitrary: v) (auto split: sum.split)

lemma seq_run_snoc:
  "seq_run att xs v = Some c \<Longrightarrow> att i c = Inr n \<Longrightarrow> seq_run att (xs @ [i]) v = Some n"
  by (simp add: seq_run_append)

text \<open>
  The successful threads in the order of their swaps explain the counter, and every value a
  thread holds or was refused on is one the counter had along that order.
\<close>

definition linear_witness ::
  "(nat \<Rightarrow> nat \<Rightarrow> 'e + nat) \<Rightarrow> nat \<Rightarrow> nat \<Rightarrow> (nat \<Rightarrow> 'e cas_pc) \<Rightarrow> nat list \<Rightarrow> bool" where
  "linear_witness att v0 v pcs ls \<longleftrightarrow>
     distinct ls \<and> set ls = {i. pcs i = CasDone (Inr ())} \<and> seq_run att ls v0 = Some v \<and>
     (\<forall>i c. pcs i = CasLoaded c \<longrightarrow> (\<exists>k. seq_run att (take k ls) v0 = Some c)) \<and>
     (\<forall>i e. pcs i = CasDone (Inl e) \<longrightarrow> (\<exists>k c. seq_run att (take k ls) v0 = Some c \<and> att i c = Inl e))"

lemma linear_witness_start: "linear_witness att v0 v0 (\<lambda>i. CasIdle) []"
  by (simp add: linear_witness_def)

lemma seq_run_prefix_snoc:
  "\<exists>k. seq_run att (take k ls) v0 = Some c \<Longrightarrow> \<exists>k. seq_run att (take k (ls @ [i])) v0 = Some c"
proof (elim exE)
  fix k assume k: "seq_run att (take k ls) v0 = Some c"
  show "\<exists>k. seq_run att (take k (ls @ [i])) v0 = Some c"
  proof (cases "k \<le> length ls")
    case True
    then show ?thesis using k by (intro exI [of _ k]) simp
  next
    case False
    then show ?thesis using k by (intro exI [of _ "length ls"]) simp
  qed
qed

lemma linear_witness_swap:
  assumes "linear_witness att v0 v pcs ls" and "pcs i = CasLoaded v" and "att i v = Inr n"
  shows "linear_witness att v0 n (pcs(i := CasDone (Inr ()))) (ls @ [i])"
  unfolding linear_witness_def
proof (intro conjI allI impI)
  show "distinct (ls @ [i])" "set (ls @ [i]) = {j. (pcs(i := CasDone (Inr ()))) j = CasDone (Inr ())}"
    "seq_run att (ls @ [i]) v0 = Some n"
    using assms by (auto simp: linear_witness_def seq_run_append)
next
  fix j c assume "(pcs(i := CasDone (Inr ()))) j = CasLoaded c"
  then have "\<exists>k. seq_run att (take k ls) v0 = Some c"
    using assms(1) by (simp add: linear_witness_def split: if_splits)
  then show "\<exists>k. seq_run att (take k (ls @ [i])) v0 = Some c" by (rule seq_run_prefix_snoc)
next
  fix j e assume "(pcs(i := CasDone (Inr ()))) j = CasDone (Inl e)"
  then have "pcs j = CasDone (Inl e)" by (simp split: if_splits)
  then obtain k c where "seq_run att (take k ls) v0 = Some c" "att j c = Inl e"
    using assms(1) unfolding linear_witness_def by blast
  then show "\<exists>k c. seq_run att (take k (ls @ [i])) v0 = Some c \<and> att j c = Inl e"
    using seq_run_prefix_snoc by blast
qed

text \<open>A step of one thread that leaves the counter alone only has to explain its own new position.\<close>

lemma linear_witness_local:
  assumes "linear_witness att v0 v pcs ls" and "pcs i \<noteq> CasDone (Inr ())" and "p \<noteq> CasDone (Inr ())"
    and "\<And>c. p = CasLoaded c \<Longrightarrow> \<exists>k. seq_run att (take k ls) v0 = Some c"
    and "\<And>e. p = CasDone (Inl e) \<Longrightarrow> \<exists>k c. seq_run att (take k ls) v0 = Some c \<and> att i c = Inl e"
  shows "linear_witness att v0 v (pcs(i := p)) ls"
proof -
  have "{j. (pcs(i := p)) j = CasDone (Inr ())} = {j. pcs j = CasDone (Inr ())}"
    using assms(2,3) by auto
  with assms(1,4,5) show ?thesis unfolding linear_witness_def by simp
qed

lemma linear_witness_now: "linear_witness att v0 v pcs ls \<Longrightarrow> \<exists>k. seq_run att (take k ls) v0 = Some v"
  unfolding linear_witness_def by (intro exI [of _ "length ls"]) simp

lemma linear_witness_step:
  assumes "cas_step att (v, pcs) (v', pcs')" and "linear_witness att v0 v pcs ls"
  shows "\<exists>ls'. linear_witness att v0 v' pcs' ls'"
  using assms
proof cases
  case (cas_load i)
  have "linear_witness att v0 v' pcs' ls"
    unfolding cas_load by (rule linear_witness_local)
      (use assms(2) cas_load linear_witness_now [OF assms(2)] in simp_all)
  then show ?thesis by blast
next
  case (cas_refuse i c e)
  then have "\<exists>k. seq_run att (take k ls) v0 = Some c"
    using assms(2) by (simp add: linear_witness_def)
  then have "linear_witness att v0 v' pcs' ls"
    unfolding cas_refuse by (intro linear_witness_local) (use assms(2) cas_refuse in auto)
  then show ?thesis by blast
next
  case (cas_swap i)
  then show ?thesis using linear_witness_swap assms(2) by blast
next
  case (cas_retry i c n)
  have "linear_witness att v0 v' pcs' ls"
    unfolding cas_retry by (rule linear_witness_local)
      (use assms(2) cas_retry linear_witness_now [OF assms(2)] in simp_all)
  then show ?thesis by blast
qed

lemma linear_witness_reachable:
  assumes "(cas_step att)\<^sup>*\<^sup>* (v0, \<lambda>i. CasIdle) (v, pcs)"
  shows "\<exists>ls. linear_witness att v0 v pcs ls"
  using assms
proof (induction "(v, pcs)" arbitrary: v pcs rule: rtranclp_induct)
  case base
  then show ?case using linear_witness_start by blast
next
  case (step y)
  then show ?case by (metis linear_witness_step surj_pair)
qed

lemma seq_run_bounded:
  assumes "\<And>i c n. c \<le> limit \<Longrightarrow> att i c = Inr n \<Longrightarrow> n \<le> limit" and "v \<le> limit"
    and "seq_run att ls v = Some w"
  shows "w \<le> limit"
  using assms(2,3) by (induction ls arbitrary: v) (auto split: sum.splits intro: assms(1))

lemma charge_attempt_bounded: "charge_attempt limit bytes c = Inr n \<Longrightarrow> n \<le> limit"
  by (auto simp: charge_attempt_def split: option.splits if_splits)

text \<open>The loops' atomic effects are the operations above.\<close>

lemma budget_apply_attempt:
  assumes "v \<le> limit" and "limit \<le> usize_max"
  shows "budget_apply p \<lparr>mb_used = v, mb_limit = limit\<rparr> = (case budget_attempt limit p v of
     Inl e \<Rightarrow> (Inl e, \<lparr>mb_used = v, mb_limit = limit\<rparr>)
   | Inr n \<Rightarrow> (Inr (), \<lparr>mb_used = n, mb_limit = limit\<rparr>))"
  using assms
  by (cases p) (auto simp: try_charge_def charge_attempt_def mb_release_def release_attempt_def
      result_simps split: option.splits)

lemma budget_attempt_bounded: "c \<le> limit \<Longrightarrow> budget_attempt limit p c = Inr n \<Longrightarrow> n \<le> limit"
  by (cases p) (auto simp: release_attempt_def dest: charge_attempt_bounded)

lemma seq_run_ops:
  "limit \<le> usize_max \<Longrightarrow> v \<le> limit \<Longrightarrow> seq_run (\<lambda>i. budget_attempt limit (prog i)) ls v = Some w \<Longrightarrow>
     run_ops (map prog ls) \<lparr>mb_used = v, mb_limit = limit\<rparr> = Some \<lparr>mb_used = w, mb_limit = limit\<rparr>"
  by (induction ls arbitrary: v)
    (auto simp: budget_apply_attempt dest: budget_attempt_bounded split: sum.splits)

section \<open>Rates\<close>

lemma tokens_for_elapsed_bound:
  "tokens_for_elapsed elapsed rate * 1000000000 \<le> max rate 0 * int elapsed"
  "0 \<le> tokens_for_elapsed elapsed rate"
proof -
  let ?add = "min u128_max (nat rate * elapsed) div 1000000000"
  have "?add * 1000000000 \<le> nat rate * elapsed" by linarith
  then have "int ?add * 1000000000 \<le> int (nat rate * elapsed)" by linarith
  then have "int ?add * 1000000000 \<le> max rate 0 * int elapsed"
    by (simp add: max_def split: if_splits)
  moreover have "tokens_for_elapsed elapsed rate \<le> int ?add"
    by (simp add: tokens_for_elapsed_def Let_def)
  ultimately show "tokens_for_elapsed elapsed rate * 1000000000 \<le> max rate 0 * int elapsed"
    by linarith
qed (simp add: tokens_for_elapsed_def i64_max_def Let_def)

text \<open>Tokens obtained and tokens left are paid for by the start balance and the elapsed time.\<close>

lemma refill_bound:
  assumes "refill now now' tb = (ok, tb')" and "tb_last_refill tb \<le> now" and "now \<le> now'"
    and "0 \<le> tb_tokens tb" and "0 \<le> tb_capacity tb"
  shows "tb_tokens tb' * 1000000000 \<le> tb_tokens tb * 1000000000 +
      max (tb_refill_per_sec tb) 0 * (int (tb_last_refill tb') - int (tb_last_refill tb)) \<and>
    0 \<le> tb_tokens tb' \<and> tb_last_refill tb' \<le> now' \<and> tb_capacity tb' = tb_capacity tb \<and>
    tb_refill_per_sec tb' = tb_refill_per_sec tb"
proof (cases "\<not> tb_poisoned tb \<and> 50000000 \<le> now - tb_last_refill tb \<and>
    0 < tokens_for_elapsed (now - tb_last_refill tb) (tb_refill_per_sec tb)")
  case True
  let ?add = "tokens_for_elapsed (now - tb_last_refill tb) (tb_refill_per_sec tb)"
  let ?rate = "max (tb_refill_per_sec tb) 0"
  have tb': "tb' = tb\<lparr>tb_tokens := min (saturating_add_i64 (tb_tokens tb) ?add) (tb_capacity tb),
      tb_last_refill := now'\<rparr>"
    using assms(1) True by (auto simp: refill_def Let_def)
  have le: "saturating_add_i64 (tb_tokens tb) ?add \<le> tb_tokens tb + ?add"
    and nonneg: "0 \<le> saturating_add_i64 (tb_tokens tb) ?add"
    using assms(4) True by (auto simp: saturating_add_i64_def i64_max_def)
  have "?add * 1000000000 \<le> ?rate * int (now - tb_last_refill tb)"
    by (rule tokens_for_elapsed_bound)
  also have "\<dots> \<le> ?rate * (int now' - int (tb_last_refill tb))"
    using assms(2,3) by (intro mult_left_mono) auto
  finally show ?thesis using le nonneg assms(3,5) unfolding tb' by auto
next
  case False
  then have "tb' = tb" using assms(1) by (auto simp: refill_def Let_def split: if_splits)
  then show ?thesis using assms by simp
qed

lemma try_consume_bound:
  assumes "try_consume now now' tb = (ok, tb')" and "tb_last_refill tb \<le> now" and "now \<le> now'"
    and "0 \<le> tb_tokens tb" and "0 \<le> tb_capacity tb"
  shows "(tb_tokens tb' + (if ok then 1 else 0)) * 1000000000 \<le> tb_tokens tb * 1000000000 +
      max (tb_refill_per_sec tb) 0 * (int (tb_last_refill tb') - int (tb_last_refill tb)) \<and>
    0 \<le> tb_tokens tb' \<and> tb_last_refill tb' \<le> now' \<and> tb_capacity tb' = tb_capacity tb \<and>
    tb_refill_per_sec tb' = tb_refill_per_sec tb"
proof -
  obtain ok1 tb1 where r: "refill now now' tb = (ok1, tb1)" by fastforce
  from refill_bound [OF r assms(2-5)] assms(1) show ?thesis
    by (auto simp: try_consume_def r split: bool.splits if_splits)
qed

lemma consume_all_bound:
  assumes "consume_all ts tb = (n, tb')" and "clock_readings t ts" and "tb_last_refill tb \<le> t"
    and "0 \<le> tb_tokens tb" and "0 \<le> tb_capacity tb"
  shows "(int n + tb_tokens tb') * 1000000000 \<le> tb_tokens tb * 1000000000 +
      max (tb_refill_per_sec tb) 0 * (int (tb_last_refill tb') - int (tb_last_refill tb)) \<and>
    0 \<le> tb_tokens tb' \<and> tb_last_refill tb' \<le> last_reading t ts"
  using assms
proof (induction ts arbitrary: t tb n)
  case (Cons c ts)
  obtain now now' where c: "c = (now, now')" by fastforce
  obtain ok tb1 where k: "try_consume now now' tb = (ok, tb1)" by fastforce
  obtain m where m: "consume_all ts tb1 = (m, tb')" and n: "n = (if ok then Suc m else m)"
    using Cons.prems(1) by (auto simp: c k split: prod.splits if_splits)
  have t: "tb_last_refill tb \<le> now" "now \<le> now'" "clock_readings now' ts"
    using Cons.prems(2,3) by (auto simp: c)
  note b = try_consume_bound [OF k t(1,2) Cons.prems(4,5)]
  then have "tb_last_refill tb1 \<le> now'" "0 \<le> tb_tokens tb1" "0 \<le> tb_capacity tb1"
    using Cons.prems(5) by auto
  from Cons.IH [OF m t(3) this] b n show ?case
    by (auto simp: c algebra_simps split: if_splits)
qed simp

section \<open>Properties\<close>

text \<open>
  C20: however the threads' loops interleave, and even when swaps fail spuriously, the memory
  budget never passes its ceiling, and the counter has the value that the threads which
  reported success leave when their operations run one after the other in some order;
  every refusal is the one the operation gives at a point of that order.
\<close>

theorem memory_budget_linearizable:
  assumes "(cas_step (\<lambda>i. budget_attempt limit (prog i)))\<^sup>*\<^sup>* (v0, \<lambda>i. CasIdle) (v, pcs)"
    and "v0 \<le> limit" and "limit \<le> usize_max"
  shows "v \<le> limit \<and> (\<exists>ls. distinct ls \<and> set ls = {i. pcs i = CasDone (Inr ())} \<and>
    run_ops (map prog ls) \<lparr>mb_used = v0, mb_limit = limit\<rparr> = Some \<lparr>mb_used = v, mb_limit = limit\<rparr> \<and>
    (\<forall>i e. pcs i = CasDone (Inl e) \<longrightarrow> (\<exists>k mb. run_ops (map prog (take k ls))
        \<lparr>mb_used = v0, mb_limit = limit\<rparr> = Some mb \<and> fst (budget_apply (prog i) mb) = Inl e)))"
proof -
  let ?att = "\<lambda>i. budget_attempt limit (prog i)"
  from linear_witness_reachable [OF assms(1)] obtain ls where ls: "linear_witness ?att v0 v pcs ls"
    by blast
  have bound: "c \<le> limit" if "seq_run ?att xs v0 = Some c" for xs c
    by (rule seq_run_bounded [OF budget_attempt_bounded assms(2) that])
  have "\<exists>k mb. run_ops (map prog (take k ls)) \<lparr>mb_used = v0, mb_limit = limit\<rparr> = Some mb \<and>
      fst (budget_apply (prog i) mb) = Inl e" if "pcs i = CasDone (Inl e)" for i e
  proof -
    from ls that obtain k c where c: "seq_run ?att (take k ls) v0 = Some c" "?att i c = Inl e"
      unfolding linear_witness_def by blast
    with bound have "fst (budget_apply (prog i) \<lparr>mb_used = c, mb_limit = limit\<rparr>) = Inl e"
      using assms(3) by (simp add: budget_apply_attempt)
    with seq_run_ops [OF assms(3,2) c(1)] show ?thesis by blast
  qed
  with ls bound seq_run_ops [OF assms(3,2)] show ?thesis unfolding linear_witness_def by blast
qed

theorem memory_budget_linearizable_witness:
  "\<exists>ls. distinct ls \<and> set ls = {0 :: nat} \<and>
     run_ops (map (\<lambda>i. Charge 3) ls) \<lparr>mb_used = 4, mb_limit = 9\<rparr> = Some \<lparr>mb_used = 7, mb_limit = 9\<rparr>"
proof -
  let ?att = "\<lambda>i :: nat. budget_attempt 9 (Charge 3)"
  let ?one = "(\<lambda>i. CasIdle)(0 := CasLoaded 4)"
  have "cas_step ?att (4, \<lambda>i. CasIdle) (4, ?one)" by (rule cas_load) simp
  moreover have "cas_step ?att (4, ?one) (7, ?one(0 := CasDone (Inr ())))"
    by (rule cas_swap) (simp_all add: charge_attempt_def checked_add_def)
  ultimately have run: "(cas_step ?att)\<^sup>*\<^sup>* (4, \<lambda>i. CasIdle) (7, ?one(0 := CasDone (Inr ())))"
    by (meson r_into_rtranclp rtranclp.rtrancl_into_rtrancl)
  have bounds: "(4 :: nat) \<le> 9" "(9 :: nat) \<le> usize_max" by simp_all
  have fin: "{i. (?one(0 := CasDone (Inr ()))) i = CasDone (Inr ())} = {0}" by auto
  show ?thesis
    using memory_budget_linearizable [OF run bounds, unfolded fin]
    by (elim conjE exE) (intro exI conjI)
qed



end
