(* ===== verification/Bf_Vm.thy ===== *)
theory Bf_Vm
  imports Bf_CapTable Bf_Isa Bf_Quota
begin

text \<open>
  The bytecode interpreter (\<^verbatim>\<open>vm/machine/mod.rs\<close>, \<^verbatim>\<open>vm/machine/heap.rs\<close>, \<^verbatim>\<open>vm/frame.rs\<close>,
  \<^verbatim>\<open>vm/result.rs\<close>, \<^verbatim>\<open>vm/fault.rs\<close>).  An operation of the machine is a function in the
  state-threading result monad over the machine record: a failing operation keeps the
  changes made before it.  The flow quota and the runtime memory budget are shared
  objects; the machine carries its view of them, and what other parties do to them
  between two operations is a change of these two fields.  Host functions are parameters:
  a native table is a list of optional functions from arguments to a result.  The call
  stack grows at the head of the list.

  The match of \<^verbatim>\<open>run\<close> on the opcode is cut along its arms, in order; each part takes the
  remaining arms as an argument.
\<close>

section \<open>Faults and results\<close>

text \<open>The text of a quota fault, by the error it prints.\<close>

datatype quota_text = QText string | QQuota quota_error | QMemory memory_error

datatype fault =
    FDivideByZero
  | FRegisterOutOfRange u8 u8
  | FRegisterIndexOverflow u8 u8
  | FBadConstant u32 u32
  | FBadFunction u32 u32
  | FBadArity nat u8
  | FCallStackOverflow nat
  | FTypeMismatch string string
  | FBadNative u32 u32
  | FNativeError "u8 list"
  | FNativeDenied native_call_error
  | FExplicit i32
  | FInvariant string
  | FQuotaExceeded quota_text
  | FBadJump nat nat

text \<open>The parameters of a receive; durations are milliseconds.\<close>

record receive_spec =
  rc_dest :: u8
  rc_timeout :: "nat option"
  rc_tag :: "u16 option"
  rc_request_id :: "u64 option"
  rc_kind :: "u8 option"
  rc_eq :: "i64 option"
  rc_value :: "value option"
  rc_cmp :: "(int_cmp \<times> i64) option"

datatype (plugins only:) vm_result =
    RComplete "value"
  | RYield
  | RSleep nat
  | RSpawn u32 "value list" u8 cap_rights
  | RSelfPid u8
  | RSend cap_id "value"
  | RReceive receive_spec
  | RTableOpen u8 "u8 list"
  | RTableGet u8 cap_id "value"
  | RTablePut cap_id "value" "value"
  | RSendRemote u64 "u8 list" "value"
  | RStartSupervisor u8
  | RAsk u8 cap_id "value" "nat option"
  | RMonitor u8 cap_id
  | RDemonitor u8
  | RLink u8 cap_id
  | RUnlink u8
  | RSetTrapExit bool
  | RSetRestartPolicy u8
  | RHostAwait u8 u32 "value"
  | RRegisterName "u8 list"
  | RWhereis u8 "u8 list"
  | RIsAlive u8 cap_id
  | RExitSignal cap_id u64
  | RStartChild u8 u32 u8
  | RDelegate u8 cap_id cap_rights "cap_id option"
  | RTrap fault

section \<open>State\<close>

type_synonym native_fn = "value list \<Rightarrow> fault + value"
type_synonym native_table = "(u8 list \<times> native_fn) option list"

definition natives_get :: "native_table \<Rightarrow> u32 \<Rightarrow> native_fn option" where
  "natives_get tbl index =
     (case list_get tbl (unat index) of Some (Some (_, f)) \<Rightarrow> Some f | _ \<Rightarrow> None)"

record frame =
  fr_function :: u32
  fr_pc :: nat
  fr_registers :: "value list"
  fr_dest_reg :: "u8 option"
  fr_heap_charge :: nat

definition Frame_new :: "u32 \<Rightarrow> u8 \<Rightarrow> u8 option \<Rightarrow> frame" where
  "Frame_new function num_registers dest_reg =
     \<lparr>fr_function = function, fr_pc = 0, fr_registers = replicate (unat num_registers) VUnit,
      fr_dest_reg = dest_reg, fr_heap_charge = 0\<rparr>"

definition try_add_heap_charge :: "nat \<Rightarrow> frame \<Rightarrow> frame option" where
  "try_add_heap_charge delta fr =
     map_option (\<lambda>next. fr\<lparr>fr_heap_charge := next\<rparr>) (checked_add (fr_heap_charge fr) delta)"

definition sub_heap_charge :: "nat \<Rightarrow> frame \<Rightarrow> frame" where
  "sub_heap_charge delta fr = fr\<lparr>fr_heap_charge := fr_heap_charge fr - delta\<rparr>"

definition MAX_CALL_DEPTH :: nat where "MAX_CALL_DEPTH = 4096"

record vm =
  vm_chunk :: chunk
  vm_natives :: native_table
  vm_gate :: native_gate
  vm_frames :: "frame list"
  vm_instructions :: u64
  vm_next_request_id :: u64
  vm_quota :: "flow_quota option"
  vm_memory :: "memory_budget option"
  vm_dict :: "(i64, value) hash_map option"
  vm_dict_bytes :: nat

type_synonym 'a vmop = "(vm, fault, 'a) fallible"

section \<open>Heap charges\<close>

definition nesting_fault :: fault where
  "nesting_fault = FQuotaExceeded (QText ''value nesting exceeds limit'')"

definition fit_fault :: fault where
  "fit_fault = FQuotaExceeded (QText ''heap charge does not fit'')"

fun dict_owned_bytes :: "value \<Rightarrow> fault + nat" where
  "dict_owned_bytes VUnit = Inr 0"
| "dict_owned_bytes (VBool _) = Inr 0"
| "dict_owned_bytes (VInt _) = Inr 0"
| "dict_owned_bytes (VFloat _) = Inr 0"
| "dict_owned_bytes (VStr s) = Inr (length s)"
| "dict_owned_bytes (VBytes b) = Inr (length b)"
| "dict_owned_bytes other = Inl (FTypeMismatch ''dict value (scalar, str, or bytes)'' (type_name other))"

fun charge_walk :: "value \<Rightarrow> nat \<Rightarrow> fault + nat" where
  "charge_walk (VStr s) depth = (if depth > MAX_VALUE_DEPTH then Inl nesting_fault else Inr (length s))"
| "charge_walk (VBytes b) depth = (if depth > MAX_VALUE_DEPTH then Inl nesting_fault else Inr (length b))"
| "charge_walk (VMessage (Message s r q t p)) depth =
     (if depth > MAX_VALUE_DEPTH then Inl nesting_fault else charge_walk p (depth + 1))"
| "charge_walk (VList items) depth =
     (if depth > MAX_VALUE_DEPTH then Inl nesting_fault
      else bindE (ok_or fit_fault (checked_mul (length items) size_of_value)) (\<lambda>sum.
           foldE (\<lambda>item sum. bindE (charge_walk item (depth + 1)) (\<lambda>part.
             ok_or fit_fault (checked_add sum part))) items sum))"
| "charge_walk (VRecord items) depth =
     (if depth > MAX_VALUE_DEPTH then Inl nesting_fault
      else bindE (ok_or fit_fault (checked_mul (length items) size_of_value)) (\<lambda>sum.
           foldE (\<lambda>item sum. bindE (charge_walk item (depth + 1)) (\<lambda>part.
             ok_or fit_fault (checked_add sum part))) items sum))"
| "charge_walk (VMap entries) depth =
     (if depth > MAX_VALUE_DEPTH then Inl nesting_fault
      else bindE (ok_or fit_fault (checked_mul (length entries) size_of_value)) (\<lambda>sum.
           foldE (\<lambda>e sum. bindE (case fst e of
               KStr text \<Rightarrow> ok_or fit_fault (checked_add sum (length text))
             | KInt _ \<Rightarrow> Inr sum) (\<lambda>sum.
             bindE (charge_walk (snd e) (depth + 1)) (\<lambda>part.
             ok_or fit_fault (checked_add sum part)))) entries sum))"
| "charge_walk _ depth = (if depth > MAX_VALUE_DEPTH then Inl nesting_fault else Inr 0)"

definition heap_charge_of :: "value \<Rightarrow> fault + nat" where
  "heap_charge_of v = charge_walk v 0"

definition in_flight_hop_charge :: "value \<Rightarrow> nat" where
  "in_flight_hop_charge v =
     (case heap_charge_of v of Inr held \<Rightarrow> memory_size v - held | Inl _ \<Rightarrow> memory_size v)"

definition reg_at :: "u8 \<Rightarrow> nat \<Rightarrow> fault + u8" where
  "reg_at base offset =
     (if unat base + offset \<le> 255 then Inr (of_nat (unat base + offset))
      else Inl (FRegisterIndexOverflow base (if offset \<le> 255 then of_nat offset else 255)))"

definition charge_pair ::
  "nat \<Rightarrow> flow_quota \<Rightarrow> memory_budget option \<Rightarrow> (fault + unit) \<times> flow_quota \<times> memory_budget option" where
  "charge_pair bytes quota memory =
     (if bytes = 0 then (Inr (), quota, memory)
      else case q_alloc bytes quota of
        (Inl e, quota1) \<Rightarrow> (Inl (FQuotaExceeded (QQuota e)), quota1, memory)
      | (Inr _, quota1) \<Rightarrow>
          (case memory of
             None \<Rightarrow> (Inr (), quota1, None)
           | Some mem \<Rightarrow>
               (case try_charge bytes mem of
                  (Inl e, mem1) \<Rightarrow> (Inl (FQuotaExceeded (QMemory e)), q_free bytes quota1, Some mem1)
                | (Inr _, mem1) \<Rightarrow> (Inr (), quota1, Some mem1))))"

definition release_pair ::
  "nat \<Rightarrow> flow_quota \<Rightarrow> memory_budget option \<Rightarrow> flow_quota \<times> memory_budget option" where
  "release_pair bytes quota memory =
     (if bytes = 0 then (quota, memory)
      else (q_free bytes quota, map_option (mb_release bytes) memory))"

text \<open>The same on the machine: nothing to pay without a quota.\<close>

definition vm_charge :: "nat \<Rightarrow> unit vmop" where
  "vm_charge bytes vm =
     (case vm_quota vm of
        None \<Rightarrow> (Inr (), vm)
      | Some quota \<Rightarrow>
          (case charge_pair bytes quota (vm_memory vm) of
             (res, quota1, memory1) \<Rightarrow> (res, vm\<lparr>vm_quota := Some quota1, vm_memory := memory1\<rparr>)))"

definition vm_release :: "nat \<Rightarrow> vm \<Rightarrow> vm" where
  "vm_release bytes vm =
     (case vm_quota vm of
        None \<Rightarrow> vm
      | Some quota \<Rightarrow>
          (case release_pair bytes quota (vm_memory vm) of
             (quota1, memory1) \<Rightarrow> vm\<lparr>vm_quota := Some quota1, vm_memory := memory1\<rparr>))"

definition as_f64 :: "value \<Rightarrow> fault + f64" where
  "as_f64 v = (case v of VInt i \<Rightarrow> Inr (f64_of_i64 i) | VFloat f \<Rightarrow> Inr f
     | other \<Rightarrow> Inl (FTypeMismatch ''int or float'' (type_name other)))"

definition tag_from_imm :: "i32 \<Rightarrow> fault + u16" where
  "tag_from_imm imm =
     (if 0 \<le> sint imm \<and> sint imm \<le> 65535 then Inr (ucast imm)
      else Inl (FTypeMismatch ''tag u16'' ''imm-out-of-range''))"

definition require_int :: "value \<Rightarrow> fault + i64" where
  "require_int v = (case v of VInt n \<Rightarrow> Inr n | other \<Rightarrow> Inl (FTypeMismatch ''int'' (type_name other)))"

definition tag_from_value :: "value \<Rightarrow> fault + u16" where
  "tag_from_value v = bindE (require_int v) (\<lambda>i.
     if 0 \<le> sint i \<and> sint i \<le> 65535 then Inr (ucast i)
     else Inl (FTypeMismatch ''tag u16'' ''int-out-of-range''))"

definition request_id_from_value :: "value \<Rightarrow> fault + u64" where
  "request_id_from_value v = bindE (require_int v) (\<lambda>i.
     if 0 \<le> sint i then Inr i else Inl (FTypeMismatch ''request_id u64'' ''negative-int''))"

section \<open>Registers\<close>

definition empty_stack :: fault where
  "empty_stack = FInvariant ''empty frame stack while running''"

definition get_reg :: "u8 \<Rightarrow> value vmop" where
  "get_reg reg vm =
     (case vm_frames vm of
        [] \<Rightarrow> (Inl empty_stack, vm)
      | fr # _ \<Rightarrow>
          (ok_or (FRegisterOutOfRange reg (of_nat (length (fr_registers fr))))
             (list_get (fr_registers fr) (unat reg)), vm))"

definition set_top :: "frame \<Rightarrow> vm \<Rightarrow> vm" where
  "set_top fr vm = vm\<lparr>vm_frames := fr # tl (vm_frames vm)\<rparr>"

text \<open>
  The slow path of a register write: pay for the growth or return the difference, adjust
  the frame's counter, and write.  The shortcut for two references to one buffer is not
  visible: such a write moves no charge and stores an equal value.
\<close>

definition set_reg_charged :: "u8 \<Rightarrow> value \<Rightarrow> frame \<Rightarrow> value \<Rightarrow> unit vmop" where
  "set_reg_charged reg old fr v =
     bindS (liftS (heap_charge_of old)) (\<lambda>old_bytes.
     bindS (liftS (heap_charge_of v)) (\<lambda>new_bytes.
     let write = (\<lambda>fr. fr\<lparr>fr_registers := (fr_registers fr)[unat reg := v]\<rparr>) in
     if old_bytes < new_bytes then
       let delta = new_bytes - old_bytes in
       bindS (vm_charge delta) (\<lambda>u vm.
         case try_add_heap_charge delta fr of
           None \<Rightarrow> (Inl fit_fault, vm_release delta vm)
         | Some fr1 \<Rightarrow> (Inr (), set_top (write fr1) vm))
     else if new_bytes < old_bytes then
       let delta = old_bytes - new_bytes in
       (\<lambda>vm. (Inr (), set_top (write (sub_heap_charge delta fr)) (vm_release delta vm)))
     else (\<lambda>vm. (Inr (), set_top (write fr) vm))))"

definition set_reg :: "u8 \<Rightarrow> value \<Rightarrow> unit vmop" where
  "set_reg reg v vm =
     (case vm_frames vm of
        [] \<Rightarrow> (Inl empty_stack, vm)
      | fr # _ \<Rightarrow>
          (case list_get (fr_registers fr) (unat reg) of
             None \<Rightarrow> (Inl (FRegisterOutOfRange reg (of_nat (length (fr_registers fr)))), vm)
           | Some old \<Rightarrow>
               if is_scalar old \<and> is_scalar v
               then (Inr (), set_top (fr\<lparr>fr_registers := (fr_registers fr)[unat reg := v]\<rparr>) vm)
               else set_reg_charged reg old fr v vm))"

definition resume_with :: "u8 \<Rightarrow> value \<Rightarrow> unit vmop" where
  "resume_with dest_reg v = set_reg dest_reg v"

definition fetch :: "instruction option vmop" where
  "fetch vm =
     (case vm_frames vm of
        [] \<Rightarrow> (Inl empty_stack, vm)
      | fr # _ \<Rightarrow>
          (case list_get (ch_code (vm_chunk vm)) (fr_pc fr) of
             None \<Rightarrow> (Inr None, vm)
           | Some instr \<Rightarrow> (Inr (Some instr), set_top (fr\<lparr>fr_pc := fr_pc fr + 1\<rparr>) vm)))"

definition fresh_request_id :: "u64 vmop" where
  "fresh_request_id vm =
     (let next = (if vm_next_request_id vm = 0 then 1 else vm_next_request_id vm) in
      if 2 ^ 63 - 1 \<le> next then (Inr (2 ^ 63 - 1), vm\<lparr>vm_next_request_id := 2 ^ 63 - 1\<rparr>)
      else (Inr next, vm\<lparr>vm_next_request_id := next + 1\<rparr>))"

section \<open>Construction\<close>

fun load_frame_args_loop :: "nat \<Rightarrow> value list \<Rightarrow> frame \<Rightarrow> fault + frame" where
  "load_frame_args_loop i [] fr = Inr fr"
| "load_frame_args_loop i (a # args) fr =
     (if i < length (fr_registers fr)
      then load_frame_args_loop (Suc i) args (fr\<lparr>fr_registers := (fr_registers fr)[i := a]\<rparr>)
      else Inl (FRegisterOutOfRange (of_nat i) (of_nat (length (fr_registers fr)))))"

definition load_frame_args :: "frame \<Rightarrow> value list \<Rightarrow> u8 \<Rightarrow> fault + frame" where
  "load_frame_args fr args arity = load_frame_args_loop 0 (take (unat arity) args) fr"

definition Vm_with_native_gate ::
  "chunk \<Rightarrow> native_table \<Rightarrow> native_gate \<Rightarrow> u32 \<Rightarrow> value list \<Rightarrow> fault + vm" where
  "Vm_with_native_gate ch natives gate function args =
     bindE (ok_or (FBadFunction function (of_nat (length (ch_functions ch)))) (chunk_function ch function))
       (\<lambda>d.
     bindE (load_frame_args ((Frame_new function (f_num_registers d) None)\<lparr>fr_pc := unat (f_entry d)\<rparr>)
              args (f_arity d)) (\<lambda>fr.
     Inr \<lparr>vm_chunk = ch, vm_natives = natives, vm_gate = gate, vm_frames = [fr], vm_instructions = 0,
          vm_next_request_id = 1, vm_quota = None, vm_memory = None, vm_dict = None, vm_dict_bytes = 0\<rparr>))"

definition set_memory_budget :: "memory_budget \<Rightarrow> vm \<Rightarrow> vm" where
  "set_memory_budget mb vm = vm\<lparr>vm_memory := Some mb\<rparr>"

definition frame_bytes :: "frame \<Rightarrow> fault + nat" where
  "frame_bytes fr = foldE (\<lambda>v bytes. bindE (heap_charge_of v) (\<lambda>part.
     ok_or fit_fault (checked_add bytes part))) (fr_registers fr) 0"

definition set_quota :: "flow_quota \<Rightarrow> vm \<Rightarrow> (fault + unit) \<times> flow_quota \<times> vm" where
  "set_quota quota vm =
     (case foldE (\<lambda>fr (per_frame, acc). bindE (frame_bytes fr) (\<lambda>bytes.
             bindE (ok_or fit_fault (checked_add acc bytes)) (\<lambda>acc.
             Inr (per_frame @ [bytes], acc)))) (vm_frames vm) ([], 0) of
        Inl e \<Rightarrow> (Inl e, quota, vm)
      | Inr (per_frame, acc) \<Rightarrow>
          (case checked_add acc (vm_dict_bytes vm) of
             None \<Rightarrow> (Inl fit_fault, quota, vm)
           | Some acc \<Rightarrow>
               (case charge_pair acc quota (vm_memory vm) of
                  (Inl e, quota1, memory1) \<Rightarrow> (Inl e, quota1, vm\<lparr>vm_memory := memory1\<rparr>)
                | (Inr _, quota1, memory1) \<Rightarrow>
                    (Inr (), quota1,
                     vm\<lparr>vm_memory := memory1, vm_quota := Some quota1,
                        vm_frames := map2 (\<lambda>fr bytes. fr\<lparr>fr_heap_charge := bytes\<rparr>)
                          (vm_frames vm) per_frame\<rparr>))))"

section \<open>Arithmetic and data\<close>

definition numeric_mismatch :: "value \<Rightarrow> 'a vmop" where
  "numeric_mismatch v = throwS (FTypeMismatch ''int or float'' (type_name v))"

definition add_imm :: "u8 \<Rightarrow> u8 \<Rightarrow> i32 \<Rightarrow> unit vmop" where
  "add_imm dst src imm = bindS (get_reg src) (\<lambda>v. case v of
       VInt x \<Rightarrow> set_reg dst (VInt (x + scast imm))
     | VFloat x \<Rightarrow> set_reg dst (VFloat (f64_add x (f64_of_i64 (scast imm))))
     | other \<Rightarrow> numeric_mismatch other)"

definition sub_imm :: "u8 \<Rightarrow> u8 \<Rightarrow> i32 \<Rightarrow> unit vmop" where
  "sub_imm dst src imm = bindS (get_reg src) (\<lambda>v. case v of
       VInt x \<Rightarrow> set_reg dst (VInt (x - scast imm))
     | VFloat x \<Rightarrow> set_reg dst (VFloat (f64_sub x (f64_of_i64 (scast imm))))
     | other \<Rightarrow> numeric_mismatch other)"

definition mul_imm :: "u8 \<Rightarrow> u8 \<Rightarrow> i32 \<Rightarrow> unit vmop" where
  "mul_imm dst src imm = bindS (get_reg src) (\<lambda>v. case v of
       VInt x \<Rightarrow> set_reg dst (VInt (x * scast imm))
     | VFloat x \<Rightarrow> set_reg dst (VFloat (f64_mul x (f64_of_i64 (scast imm))))
     | other \<Rightarrow> numeric_mismatch other)"

definition lt_imm :: "u8 \<Rightarrow> u8 \<Rightarrow> i32 \<Rightarrow> unit vmop" where
  "lt_imm dst src imm = bindS (get_reg src) (\<lambda>v. case v of
       VInt x \<Rightarrow> set_reg dst (VBool (sint x < sint imm))
     | VFloat x \<Rightarrow> set_reg dst (VBool (f64_lt x (f64_of_i64 (scast imm))))
     | other \<Rightarrow> numeric_mismatch other)"

definition le_imm :: "u8 \<Rightarrow> u8 \<Rightarrow> i32 \<Rightarrow> unit vmop" where
  "le_imm dst src imm = bindS (get_reg src) (\<lambda>v. case v of
       VInt x \<Rightarrow> set_reg dst (VBool (sint x \<le> sint imm))
     | VFloat x \<Rightarrow> set_reg dst (VBool (f64_le x (f64_of_i64 (scast imm))))
     | other \<Rightarrow> numeric_mismatch other)"

definition gt_imm :: "u8 \<Rightarrow> u8 \<Rightarrow> i32 \<Rightarrow> unit vmop" where
  "gt_imm dst src imm = bindS (get_reg src) (\<lambda>v. case v of
       VInt x \<Rightarrow> set_reg dst (VBool (sint imm < sint x))
     | VFloat x \<Rightarrow> set_reg dst (VBool (f64_lt (f64_of_i64 (scast imm)) x))
     | other \<Rightarrow> numeric_mismatch other)"

definition ge_imm :: "u8 \<Rightarrow> u8 \<Rightarrow> i32 \<Rightarrow> unit vmop" where
  "ge_imm dst src imm = bindS (get_reg src) (\<lambda>v. case v of
       VInt x \<Rightarrow> set_reg dst (VBool (sint imm \<le> sint x))
     | VFloat x \<Rightarrow> set_reg dst (VBool (f64_le (f64_of_i64 (scast imm)) x))
     | other \<Rightarrow> numeric_mismatch other)"

definition eq_imm :: "u8 \<Rightarrow> u8 \<Rightarrow> i32 \<Rightarrow> unit vmop" where
  "eq_imm dst src imm = bindS (get_reg src) (\<lambda>v.
     set_reg dst (VBool (case v of VInt x \<Rightarrow> x = scast imm | _ \<Rightarrow> False)))"

definition ne_imm :: "u8 \<Rightarrow> u8 \<Rightarrow> i32 \<Rightarrow> unit vmop" where
  "ne_imm dst src imm = bindS (get_reg src) (\<lambda>v.
     set_reg dst (VBool (case v of VInt x \<Rightarrow> x \<noteq> scast imm | _ \<Rightarrow> True)))"

definition int_from_reg :: "u8 \<Rightarrow> i64 vmop" where
  "int_from_reg reg = bindS (get_reg reg) (\<lambda>v. liftS (require_int v))"

definition bit_result :: "opcode \<Rightarrow> i64 \<Rightarrow> i64 \<Rightarrow> fault + i64" where
  "bit_result oc x y =
     (let amount = unat (ucast y :: u32) mod 64 in
      if oc = OpBitAnd then Inr (x AND y)
      else if oc = OpBitOr then Inr (x OR y)
      else if oc = OpBitXor then Inr (x XOR y)
      else if oc = OpShl then Inr (push_bit amount x)
      else if oc = OpShr then Inr (signed_drop_bit amount x)
      else if oc = OpUshr then Inr (drop_bit amount x)
      else Inl (FInvariant ''bit_binop called with a non-bitwise opcode''))"

definition bit_binop :: "opcode \<Rightarrow> u8 \<Rightarrow> u8 \<Rightarrow> u8 \<Rightarrow> unit vmop" where
  "bit_binop oc dst lhs rhs =
     bindS (int_from_reg lhs) (\<lambda>x. bindS (int_from_reg rhs) (\<lambda>y.
     bindS (liftS (bit_result oc x y)) (\<lambda>r. set_reg dst (VInt r))))"

definition bit_not :: "u8 \<Rightarrow> u8 \<Rightarrow> unit vmop" where
  "bit_not dst src = bindS (int_from_reg src) (\<lambda>x. set_reg dst (VInt (NOT x)))"

text \<open>The values of the registers \<open>base + offset\<close>, for the given offsets.\<close>

definition gather_offsets :: "u8 \<Rightarrow> nat list \<Rightarrow> value list vmop" where
  "gather_offsets base offsets = mapS (\<lambda>off. bindS (liftS (reg_at base off)) get_reg) offsets"

definition gather_regs :: "u8 \<Rightarrow> u8 \<Rightarrow> nat \<Rightarrow> value list vmop" where
  "gather_regs base argc first_offset = gather_offsets base (map ((+) first_offset) [0..<unat argc])"

definition pack_count :: "i32 \<Rightarrow> nat \<Rightarrow> string \<Rightarrow> fault + nat" where
  "pack_count count max_len expected =
     (if 0 \<le> sint count \<and> sint count \<le> int max_len then Inr (nat (sint count))
      else Inl (FTypeMismatch expected ''imm-out-of-range''))"

definition list_pack :: "u8 \<Rightarrow> u8 \<Rightarrow> i32 \<Rightarrow> unit vmop" where
  "list_pack dst base count =
     bindS (liftS (pack_count count MAX_LIST_LEN ''list length 0..=256'')) (\<lambda>n.
     bindS (gather_offsets base [0..<n]) (\<lambda>items.
     bindS (liftS (ok_or nesting_fault (try_list items))) (set_reg dst)))"

definition record_pack :: "u8 \<Rightarrow> u8 \<Rightarrow> i32 \<Rightarrow> unit vmop" where
  "record_pack dst base count =
     bindS (liftS (pack_count count MAX_RECORD_LEN ''record length 0..=256'')) (\<lambda>n.
     bindS (gather_offsets base [0..<n]) (\<lambda>flds.
     bindS (liftS (ok_or nesting_fault (try_record flds))) (set_reg dst)))"

definition key_of_value :: "value \<Rightarrow> fault + map_key" where
  "key_of_value v = (case v of VInt n \<Rightarrow> Inr (KInt n) | VStr text \<Rightarrow> Inr (KStr text)
     | other \<Rightarrow> Inl (FTypeMismatch ''map key (int or str)'' (type_name other)))"

definition gather_entry :: "u8 \<Rightarrow> nat \<Rightarrow> (map_key \<times> value) vmop" where
  "gather_entry base index =
     bindS (liftS (reg_at base (index * 2))) (\<lambda>key_reg.
     bindS (liftS (reg_at base (index * 2 + 1))) (\<lambda>value_reg.
     bindS (get_reg key_reg) (\<lambda>kv. bindS (liftS (key_of_value kv)) (\<lambda>key.
     bindS (get_reg value_reg) (\<lambda>v. returnS (key, v))))))"

definition map_pack :: "u8 \<Rightarrow> u8 \<Rightarrow> i32 \<Rightarrow> unit vmop" where
  "map_pack dst base count =
     bindS (liftS (pack_count count MAX_MAP_LEN ''map length 0..=256'')) (\<lambda>n.
     bindS (mapS (gather_entry base) [0..<n]) (\<lambda>entries.
     bindS (liftS (ok_or (FTypeMismatch ''map'' ''duplicate-key-or-nested'') (try_map entries)))
       (set_reg dst)))"

definition index_of :: "string \<Rightarrow> 'a list \<Rightarrow> i32 \<Rightarrow> fault + 'a" where
  "index_of what xs index =
     ok_or (FTypeMismatch what ''out-of-range'') (list_get xs (nat (sint index)))"

definition list_get_op :: "u8 \<Rightarrow> u8 \<Rightarrow> i32 \<Rightarrow> unit vmop" where
  "list_get_op dst src index =
     (if sint index < 0 then throwS (FTypeMismatch ''list index'' ''negative-int'')
      else bindS (get_reg src) (\<lambda>v. case v of
          VList items \<Rightarrow> bindS (liftS (index_of ''list index'' items index)) (set_reg dst)
        | other \<Rightarrow> throwS (FTypeMismatch ''list'' (type_name other))))"

definition record_get :: "u8 \<Rightarrow> u8 \<Rightarrow> i32 \<Rightarrow> unit vmop" where
  "record_get dst src index =
     (if sint index < 0 then throwS (FTypeMismatch ''record index'' ''negative-int'')
      else bindS (get_reg src) (\<lambda>v. case v of
          VRecord flds \<Rightarrow> bindS (liftS (index_of ''record index'' flds index)) (set_reg dst)
        | other \<Rightarrow> throwS (FTypeMismatch ''record'' (type_name other))))"

definition list_len :: "u8 \<Rightarrow> u8 \<Rightarrow> unit vmop" where
  "list_len dst src = bindS (get_reg src) (\<lambda>v. case v of
       VList items \<Rightarrow> set_reg dst (VInt (of_nat (length items)))
     | other \<Rightarrow> throwS (FTypeMismatch ''list'' (type_name other)))"

definition record_len :: "u8 \<Rightarrow> u8 \<Rightarrow> unit vmop" where
  "record_len dst src = bindS (get_reg src) (\<lambda>v. case v of
       VRecord flds \<Rightarrow> set_reg dst (VInt (of_nat (length flds)))
     | other \<Rightarrow> throwS (FTypeMismatch ''record'' (type_name other)))"

definition map_len :: "u8 \<Rightarrow> u8 \<Rightarrow> unit vmop" where
  "map_len dst src = bindS (get_reg src) (\<lambda>v. case v of
       VMap entries \<Rightarrow> set_reg dst (VInt (of_nat (length entries)))
     | other \<Rightarrow> throwS (FTypeMismatch ''map'' (type_name other)))"

definition str_len :: "u8 \<Rightarrow> u8 \<Rightarrow> unit vmop" where
  "str_len dst src = bindS (get_reg src) (\<lambda>v. case v of
       VStr s \<Rightarrow> set_reg dst (VInt (of_nat (length s)))
     | other \<Rightarrow> throwS (FTypeMismatch ''str'' (type_name other)))"

definition bytes_len :: "u8 \<Rightarrow> u8 \<Rightarrow> unit vmop" where
  "bytes_len dst src = bindS (get_reg src) (\<lambda>v. case v of
       VBytes b \<Rightarrow> set_reg dst (VInt (of_nat (length b)))
     | other \<Rightarrow> throwS (FTypeMismatch ''bytes'' (type_name other)))"

definition map_get_op :: "u8 \<Rightarrow> u8 \<Rightarrow> u8 \<Rightarrow> unit vmop" where
  "map_get_op dst src key = bindS (get_reg src) (\<lambda>v. case v of
       VMap entries \<Rightarrow>
         bindS (get_reg key) (\<lambda>kv. bindS (liftS (key_of_value kv)) (\<lambda>k.
         set_reg dst (case map_get (VMap entries) k of Some item \<Rightarrow> item | None \<Rightarrow> VUnit)))
     | other \<Rightarrow> throwS (FTypeMismatch ''map'' (type_name other)))"

text \<open>Two's-complement division and remainder, truncated towards zero and wrapping.\<close>

definition trunc_div :: "int \<Rightarrow> int \<Rightarrow> int" where
  "trunc_div a b = sgn a * sgn b * (\<bar>a\<bar> div \<bar>b\<bar>)"

definition wrapping_div :: "i64 \<Rightarrow> i64 \<Rightarrow> i64" where
  "wrapping_div x y = word_of_int (trunc_div (sint x) (sint y))"

definition wrapping_rem :: "i64 \<Rightarrow> i64 \<Rightarrow> i64" where
  "wrapping_rem x y = word_of_int (sint x - sint y * trunc_div (sint x) (sint y))"

definition both_ints :: "value \<Rightarrow> value \<Rightarrow> (i64 \<times> i64) option" where
  "both_ints a b =
     (case a of VInt x \<Rightarrow> (case b of VInt y \<Rightarrow> Some (x, y) | _ \<Rightarrow> None) | _ \<Rightarrow> None)"

definition int_or_float ::
  "(i64 \<Rightarrow> i64 \<Rightarrow> 'r) \<Rightarrow> (f64 \<Rightarrow> f64 \<Rightarrow> 'r) \<Rightarrow> value \<Rightarrow> value \<Rightarrow> fault + 'r" where
  "int_or_float on_ints on_floats a b =
     (case both_ints a b of
        Some (x, y) \<Rightarrow> Inr (on_ints x y)
      | None \<Rightarrow> bindE (as_f64 a) (\<lambda>x. bindE (as_f64 b) (\<lambda>y. Inr (on_floats x y))))"

definition div_result :: "value \<Rightarrow> value \<Rightarrow> fault + value" where
  "div_result a b =
     (case both_ints a b of
        Some (x, y) \<Rightarrow> if y = 0 then Inl FDivideByZero else Inr (VInt (wrapping_div x y))
      | None \<Rightarrow> bindE (as_f64 b) (\<lambda>denom. bindE (as_f64 a) (\<lambda>x. Inr (VFloat (f64_div x denom)))))"

definition rem_result :: "value \<Rightarrow> value \<Rightarrow> fault + value" where
  "rem_result a b =
     (case both_ints a b of
        Some (x, y) \<Rightarrow> if y = 0 then Inl FDivideByZero else Inr (VInt (wrapping_rem x y))
      | None \<Rightarrow> Inl (FTypeMismatch ''int''
          (if (case a of VInt _ \<Rightarrow> False | _ \<Rightarrow> True) then type_name a else type_name b)))"

definition numeric_result :: "opcode \<Rightarrow> value \<Rightarrow> value \<Rightarrow> fault + value" where
  "numeric_result oc a b =
     (if oc = OpAdd then int_or_float (\<lambda>x y. VInt (x + y)) (\<lambda>x y. VFloat (f64_add x y)) a b
      else if oc = OpSub then int_or_float (\<lambda>x y. VInt (x - y)) (\<lambda>x y. VFloat (f64_sub x y)) a b
      else if oc = OpMul then int_or_float (\<lambda>x y. VInt (x * y)) (\<lambda>x y. VFloat (f64_mul x y)) a b
      else if oc = OpDiv then div_result a b
      else if oc = OpMod then rem_result a b
      else if oc = OpEq then Inr (VBool (value_eq a b))
      else if oc = OpNe then Inr (VBool (\<not> value_eq a b))
      else if oc = OpLt then int_or_float (\<lambda>x y. VBool (sint x < sint y)) (\<lambda>x y. VBool (f64_lt x y)) a b
      else if oc = OpLe then int_or_float (\<lambda>x y. VBool (sint x \<le> sint y)) (\<lambda>x y. VBool (f64_le x y)) a b
      else if oc = OpGt then int_or_float (\<lambda>x y. VBool (sint y < sint x)) (\<lambda>x y. VBool (f64_lt y x)) a b
      else if oc = OpGe then int_or_float (\<lambda>x y. VBool (sint y \<le> sint x)) (\<lambda>x y. VBool (f64_le y x)) a b
      else Inl (FInvariant ''numeric_binop called with a non-arithmetic opcode''))"

definition numeric_binop :: "opcode \<Rightarrow> u8 \<Rightarrow> u8 \<Rightarrow> u8 \<Rightarrow> unit vmop" where
  "numeric_binop oc dst lhs rhs =
     bindS (get_reg lhs) (\<lambda>a. bindS (get_reg rhs) (\<lambda>b.
     bindS (liftS (numeric_result oc a b)) (set_reg dst)))"

definition expect_cap_reg :: "u8 \<Rightarrow> cap_id vmop" where
  "expect_cap_reg reg = bindS (get_reg reg) (\<lambda>v.
     liftS (ok_or (FTypeMismatch ''cap'' (type_name v)) (as_cap v)))"

definition expect_message_value :: "u8 \<Rightarrow> value vmop" where
  "expect_message_value reg = bindS (get_reg reg) (\<lambda>v.
     if as_message v = None then throwS (FTypeMismatch ''message'' (type_name v)) else returnS v)"

definition expect_str_reg :: "u8 \<Rightarrow> (u8 list) vmop" where
  "expect_str_reg reg = bindS (get_reg reg) (\<lambda>v. case v of
       VStr s \<Rightarrow> returnS s
     | other \<Rightarrow> throwS (FTypeMismatch ''str'' (type_name other)))"

definition tag_from_reg :: "u8 \<Rightarrow> u16 vmop" where
  "tag_from_reg reg = bindS (get_reg reg) (\<lambda>v. liftS (tag_from_value v))"

definition request_id_from_reg :: "u8 \<Rightarrow> u64 vmop" where
  "request_id_from_reg reg = bindS (get_reg reg) (\<lambda>v. liftS (request_id_from_value v))"

definition duration_millis_from_reg :: "u8 \<Rightarrow> nat vmop" where
  "duration_millis_from_reg reg = bindS (get_reg reg) (\<lambda>v. bindS (liftS (require_int v)) (\<lambda>ms.
     if 0 \<le> sint ms then returnS (unat ms)
     else throwS (FTypeMismatch ''non-negative int'' ''negative-int'')))"

definition adjust_dict_quota :: "nat \<Rightarrow> nat \<Rightarrow> unit vmop" where
  "adjust_dict_quota old_bytes new_bytes =
     (if old_bytes < new_bytes then
        let delta = new_bytes - old_bytes in
        bindS (vm_charge delta) (\<lambda>u vm.
          case checked_add (vm_dict_bytes vm) delta of
            Some next \<Rightarrow> (Inr (), vm\<lparr>vm_dict_bytes := next\<rparr>)
          | None \<Rightarrow> (Inl fit_fault, vm_release delta vm))
      else if new_bytes < old_bytes then
        let delta = old_bytes - new_bytes in
        (\<lambda>vm. (Inr (), (vm_release delta vm)\<lparr>vm_dict_bytes := vm_dict_bytes vm - delta\<rparr>))
      else returnS ())"

section \<open>Control\<close>

definition apply_relative_jump :: "i32 \<Rightarrow> unit vmop" where
  "apply_relative_jump imm vm =
     (case vm_frames vm of
        [] \<Rightarrow> (Inl empty_stack, vm)
      | fr # _ \<Rightarrow>
          let code_len = chunk_len (vm_chunk vm); target_i = int (fr_pc fr) + sint imm in
          if target_i < 0 \<or> int code_len < target_i
          then (Inl (FBadJump (if target_i < 0 then usize_max else nat target_i) code_len), vm)
          else (Inr (), set_top (fr\<lparr>fr_pc := nat target_i\<rparr>) vm))"

text \<open>
  Arguments move into a frame that is not on the stack yet, each paid for first; a refused
  argument returns what the earlier ones paid.  \<open>charge_arg\<close> is one payment.
\<close>

definition charge_arg :: "nat \<Rightarrow> nat \<Rightarrow> frame \<Rightarrow> (nat \<times> frame) vmop" where
  "charge_arg charged bytes fr vm =
     (if bytes = 0 then (Inr (charged, fr), vm)
      else case vm_charge bytes vm of
        (Inl e, vm1) \<Rightarrow> (Inl e, if 0 < charged then vm_release charged vm1 else vm1)
      | (Inr _, vm1) \<Rightarrow>
          (case checked_add charged bytes of
             None \<Rightarrow> (Inl fit_fault, vm_release bytes (vm_release charged vm1))
           | Some next \<Rightarrow>
               (case try_add_heap_charge bytes fr of
                  None \<Rightarrow> (Inl fit_fault, vm_release next vm1)
                | Some fr1 \<Rightarrow> (Inr (next, fr1), vm1))))"

fun load_args_charged :: "nat \<Rightarrow> nat \<Rightarrow> value list \<Rightarrow> frame \<Rightarrow> frame vmop" where
  "load_args_charged i charged [] fr vm = (Inr fr, vm)"
| "load_args_charged i charged (a # args) fr vm =
     bindS (liftS (heap_charge_of a)) (\<lambda>bytes.
     bindS (charge_arg charged bytes fr) (\<lambda>(charged, fr) vm1.
       if i < length (fr_registers fr)
       then load_args_charged (Suc i) charged args (fr\<lparr>fr_registers := (fr_registers fr)[i := a]\<rparr>) vm1
       else (Inl (FRegisterOutOfRange (of_nat i) (of_nat (length (fr_registers fr)))),
             if 0 < charged then vm_release charged vm1 else vm1))) vm"

definition load_frame_args_charged :: "frame \<Rightarrow> value list \<Rightarrow> u8 \<Rightarrow> frame vmop" where
  "load_frame_args_charged fr args arity = load_args_charged 0 0 (take (unat arity) args) fr"

definition push_frame :: "frame \<Rightarrow> unit vmop" where
  "push_frame fr vm = (Inr (), vm\<lparr>vm_frames := fr # vm_frames vm\<rparr>)"

definition callee :: "u32 \<Rightarrow> function_def vmop" where
  "callee function vm =
     (ok_or (FBadFunction function (of_nat (length (ch_functions (vm_chunk vm)))))
        (chunk_function (vm_chunk vm) function), vm)"

definition check_arity :: "u8 \<Rightarrow> u8 \<Rightarrow> unit vmop" where
  "check_arity argc arity = liftS (guardE (argc = arity) (FBadArity (unat argc) arity))"

definition exec_call :: "instruction \<Rightarrow> unit vmop" where
  "exec_call instr vm =
     (if MAX_CALL_DEPTH \<le> length (vm_frames vm)
      then (Inl (FCallStackOverflow (length (vm_frames vm))), vm)
      else
        bindS (callee (i_imm instr)) (\<lambda>d.
        bindS (check_arity (i_b instr) (f_arity d)) (\<lambda>u.
        bindS (gather_regs (i_a instr) (i_b instr) 0) (\<lambda>args.
        bindS (load_frame_args_charged
                 ((Frame_new (i_imm instr) (f_num_registers d) (Some (i_a instr)))\<lparr>fr_pc := unat (f_entry d)\<rparr>)
                 args (f_arity d))
          push_frame))) vm)"

text \<open>The finished frame leaves the stack and its charge is returned before the callee is paid for.\<close>

definition drop_frame :: "(u8 option) vmop" where
  "drop_frame vm =
     (case vm_frames vm of
        [] \<Rightarrow> (Inl empty_stack, vm)
      | fr # rest \<Rightarrow> (Inr (fr_dest_reg fr), vm_release (fr_heap_charge fr) (vm\<lparr>vm_frames := rest\<rparr>)))"

definition exec_tail_call :: "instruction \<Rightarrow> unit vmop" where
  "exec_tail_call instr =
     bindS (callee (i_imm instr)) (\<lambda>d.
     bindS (check_arity (i_b instr) (f_arity d)) (\<lambda>u.
     bindS (gather_regs (i_a instr) (i_b instr) 0) (\<lambda>args.
     bindS drop_frame (\<lambda>dest_reg.
     bindS (load_frame_args_charged
              ((Frame_new (i_imm instr) (f_num_registers d) dest_reg)\<lparr>fr_pc := unat (f_entry d)\<rparr>)
              args (f_arity d))
       push_frame))))"

definition pop_frame :: "value \<Rightarrow> vm_result option vmop" where
  "pop_frame v vm =
     (case vm_frames vm of
        [] \<Rightarrow> (Inl (FInvariant ''pop_frame on empty stack''), vm)
      | fr # rest \<Rightarrow>
          (case fr_dest_reg fr of
             Some dest \<Rightarrow>
               bindS (set_reg dest v) (\<lambda>u. returnS None)
                 (vm_release (fr_heap_charge fr) (vm\<lparr>vm_frames := rest\<rparr>))
           | None \<Rightarrow>
               (case heap_charge_of v of
                  Inl e \<Rightarrow> (Inl e, vm)
                | Inr keep \<Rightarrow>
                    (Inr (Some (RComplete v)),
                     vm_release (fr_heap_charge fr - keep) (vm\<lparr>vm_frames := rest\<rparr>)))))"

text \<open>The cells that decide whether the gate is live belong to the capability table.\<close>

definition native_fault :: "vm \<Rightarrow> native_call_error \<Rightarrow> fault" where
  "native_fault vm err =
     (case err of IndexOutOfRange index \<Rightarrow> FBadNative index (of_nat (length (vm_natives vm)))
      | other \<Rightarrow> FNativeDenied other)"

definition native_admission :: "cap_table \<Rightarrow> u32 \<Rightarrow> unit vmop" where
  "native_admission ct native_index vm =
     (case check_native_gate ct (vm_gate vm) (length (vm_natives vm)) native_index of
        Inl err \<Rightarrow> (Inl (native_fault vm err), vm)
      | Inr _ \<Rightarrow> (Inr (), vm))"

definition call_native_fn :: "u32 \<Rightarrow> value list \<Rightarrow> value vmop" where
  "call_native_fn native_index args vm =
     (case natives_get (vm_natives vm) native_index of
        Some native_fn \<Rightarrow> (native_fn args, vm)
      | None \<Rightarrow> (Inl (FBadNative native_index (of_nat (length (vm_natives vm)))), vm))"

definition exec_call_native :: "cap_table \<Rightarrow> instruction \<Rightarrow> unit vmop" where
  "exec_call_native ct instr =
     (let (arg_base, argc) =
        (if i_op instr = OpCallNativeFrom then (i_b instr, 1) else (i_a instr, i_b instr)) in
      bindS (native_admission ct (i_imm instr)) (\<lambda>u.
      bindS (gather_regs arg_base argc 0) (\<lambda>args.
      bindS (call_native_fn (i_imm instr) args) (set_reg (i_a instr)))))"

section \<open>The dictionary\<close>

definition dict_lookup :: "i64 \<Rightarrow> vm \<Rightarrow> value option" where
  "dict_lookup key vm = (case vm_dict vm of None \<Rightarrow> None | Some d \<Rightarrow> hm_get d key)"

definition dict_insert :: "i64 \<Rightarrow> value \<Rightarrow> vm \<Rightarrow> vm" where
  "dict_insert key v vm =
     vm\<lparr>vm_dict := Some (hm_insert key v (case vm_dict vm of None \<Rightarrow> [] | Some d \<Rightarrow> d))\<rparr>"

definition dict_remove :: "i64 \<Rightarrow> vm \<Rightarrow> vm" where
  "dict_remove key vm = vm\<lparr>vm_dict := map_option (hm_remove key) (vm_dict vm)\<rparr>"

definition unit_if_absent :: "value option \<Rightarrow> value" where
  "unit_if_absent m = (case m of Some v \<Rightarrow> v | None \<Rightarrow> VUnit)"

definition exec_dict_put :: "instruction \<Rightarrow> unit vmop" where
  "exec_dict_put instr =
     bindS (int_from_reg (i_b instr)) (\<lambda>key.
     bindS (get_reg (i_c instr)) (\<lambda>v.
     bindS (liftS (dict_owned_bytes v)) (\<lambda>new_bytes vm.
     let previous = unit_if_absent (dict_lookup key vm) in
     bindS (liftS (dict_owned_bytes previous)) (\<lambda>old_bytes.
     bindS (adjust_dict_quota old_bytes new_bytes) (\<lambda>u vm1.
       case set_reg (i_a instr) previous vm1 of
         (Inl fault, vm2) \<Rightarrow>
           (case adjust_dict_quota new_bytes old_bytes vm2 of
              (Inl rollback, vm3) \<Rightarrow> (Inl rollback, vm3)
            | (Inr _, vm3) \<Rightarrow> (Inl fault, vm3))
       | (Inr _, vm2) \<Rightarrow> (Inr (), dict_insert key v vm2))) vm)))"

definition exec_dict_get :: "instruction \<Rightarrow> unit vmop" where
  "exec_dict_get instr =
     bindS (int_from_reg (i_b instr)) (\<lambda>key vm.
       set_reg (i_a instr) (unit_if_absent (dict_lookup key vm)) vm)"

definition exec_dict_erase :: "instruction \<Rightarrow> unit vmop" where
  "exec_dict_erase instr =
     bindS (int_from_reg (i_b instr)) (\<lambda>key.
     bindS (get_reg (i_a instr)) (\<lambda>u vm.
       case dict_lookup key vm of
         None \<Rightarrow> set_reg (i_a instr) VUnit vm
       | Some old \<Rightarrow>
           bindS (liftS (dict_owned_bytes old)) (\<lambda>old_bytes vm1.
             case adjust_dict_quota old_bytes 0 vm1 of
               (Inl fault, vm2) \<Rightarrow> (Inl fault, dict_insert key old vm2)
             | (Inr _, vm2) \<Rightarrow>
                 (case set_reg (i_a instr) old vm2 of
                    (Inl fault, vm3) \<Rightarrow>
                      (case adjust_dict_quota 0 old_bytes (dict_insert key old vm3) of
                         (Inl rollback, vm4) \<Rightarrow> (Inl rollback, vm4)
                       | (Inr _, vm4) \<Rightarrow> (Inl fault, vm4))
                  | (Inr _, vm3) \<Rightarrow> (Inr (), vm3))) (dict_remove key vm)))"

section \<open>One instruction\<close>

text \<open>An arm either continues with the next instruction or ends the slice with a result.\<close>

type_synonym step_outcome = "vm_result option"

definition continue :: "unit vmop \<Rightarrow> step_outcome vmop" where
  "continue m = bindS m (\<lambda>u. returnS None)"

definition finish :: "vm_result vmop \<Rightarrow> step_outcome vmop" where
  "finish m = bindS m (\<lambda>r. returnS (Some r))"

definition load_const :: "instruction \<Rightarrow> unit vmop" where
  "load_const instr vm =
     (case chunk_constant (vm_chunk vm) (i_imm instr) of
        Some konst \<Rightarrow> set_reg (i_a instr) konst vm
      | None \<Rightarrow> (Inl (FBadConstant (i_imm instr) (of_nat (length (ch_constants (vm_chunk vm))))), vm))"

definition exec_data :: "instruction \<Rightarrow> step_outcome vmop \<Rightarrow> step_outcome vmop" where
  "exec_data instr rest =
     (let oc = i_op instr; a = i_a instr; b = i_b instr; c = i_c instr; imm = i_imm instr in
      if oc = OpHalt then finish (bindS (get_reg 0) (\<lambda>v. returnS (RComplete v)))
      else if oc = OpNop then returnS None
      else if oc = OpLoadConst then continue (load_const instr)
      else if oc = OpLoadImm then continue (set_reg a (VInt (scast imm)))
      else if oc = OpAddImm then continue (add_imm a b imm)
      else if oc = OpSubImm then continue (sub_imm a b imm)
      else if oc = OpLtImm then continue (lt_imm a b imm)
      else if oc = OpMulImm then continue (mul_imm a b imm)
      else if oc = OpEqImm then continue (eq_imm a b imm)
      else if oc = OpNeImm then continue (ne_imm a b imm)
      else if oc = OpLeImm then continue (le_imm a b imm)
      else if oc = OpGtImm then continue (gt_imm a b imm)
      else if oc = OpGeImm then continue (ge_imm a b imm)
      else if oc = OpBitAnd \<or> oc = OpBitOr \<or> oc = OpBitXor \<or> oc = OpShl \<or> oc = OpShr \<or> oc = OpUshr
      then continue (bit_binop oc a b c)
      else if oc = OpBitNot then continue (bit_not a b)
      else if oc = OpListPack then continue (list_pack a b imm)
      else if oc = OpListGet then continue (list_get_op a b imm)
      else if oc = OpListLen then continue (list_len a b)
      else if oc = OpRecordPack then continue (record_pack a b imm)
      else if oc = OpRecordGet then continue (record_get a b imm)
      else if oc = OpRecordLen then continue (record_len a b)
      else if oc = OpStrLen then continue (str_len a b)
      else if oc = OpBytesLen then continue (bytes_len a b)
      else if oc = OpMapPack then continue (map_pack a b imm)
      else if oc = OpMapGet then continue (map_get_op a b c)
      else if oc = OpMapLen then continue (map_len a b)
      else rest)"

definition receive_any :: "u8 \<Rightarrow> receive_spec" where
  "receive_any dest =
     \<lparr>rc_dest = dest, rc_timeout = None, rc_tag = None, rc_request_id = None, rc_kind = None,
      rc_eq = None, rc_value = None, rc_cmp = None\<rparr>"

definition exec_table :: "instruction \<Rightarrow> step_outcome vmop \<Rightarrow> step_outcome vmop" where
  "exec_table instr rest =
     (let oc = i_op instr; a = i_a instr; b = i_b instr; c = i_c instr in
      if oc = OpReceiveMatchCmp then finish (
        bindS (tag_from_reg b) (\<lambda>tag. bindS (int_from_reg c) (\<lambda>bound.
        case int_cmp_from_imm (i_imm instr) of
          None \<Rightarrow> throwS (FTypeMismatch ''cmp 0..=2'' ''imm-out-of-range'')
        | Some cmp \<Rightarrow> returnS (RReceive ((receive_any a)\<lparr>rc_tag := Some tag, rc_cmp := Some (cmp, bound)\<rparr>)))))
      else if oc = OpTableOpen then finish (
        bindS (expect_str_reg b) (\<lambda>name. returnS (RTableOpen a name)))
      else if oc = OpTableGet then finish (
        bindS (expect_cap_reg b) (\<lambda>cap. bindS (get_reg c) (\<lambda>key. returnS (RTableGet a cap key))))
      else if oc = OpTablePut then finish (
        bindS (expect_cap_reg a) (\<lambda>cap. bindS (get_reg b) (\<lambda>key. bindS (get_reg c) (\<lambda>v.
        returnS (RTablePut cap key v)))))
      else rest)"

definition exec_move :: "instruction \<Rightarrow> step_outcome vmop \<Rightarrow> step_outcome vmop" where
  "exec_move instr rest =
     (let oc = i_op instr; a = i_a instr; b = i_b instr; c = i_c instr in
      if oc = OpMove then continue (if a \<noteq> b then bindS (get_reg b) (set_reg a) else returnS ())
      else if oc = OpAdd \<or> oc = OpSub \<or> oc = OpMul \<or> oc = OpDiv \<or> oc = OpMod \<or> oc = OpEq \<or> oc = OpNe \<or>
        oc = OpLt \<or> oc = OpLe \<or> oc = OpGt \<or> oc = OpGe
      then continue (numeric_binop oc a b c)
      else if oc = OpNeg then continue (bindS (get_reg b) (\<lambda>v. case v of
          VInt x \<Rightarrow> set_reg a (VInt (- x))
        | VFloat x \<Rightarrow> set_reg a (VFloat (f64_neg x))
        | other \<Rightarrow> numeric_mismatch other))
      else rest)"

definition exec_control :: "cap_table \<Rightarrow> instruction \<Rightarrow> step_outcome vmop \<Rightarrow> step_outcome vmop" where
  "exec_control ct instr rest =
     (let oc = i_op instr; a = i_a instr; imm = i_imm instr in
      if oc = OpJump then continue (apply_relative_jump imm)
      else if oc = OpBranch then continue (bindS (get_reg a) (\<lambda>v.
        if \<not> is_truthy v then apply_relative_jump imm else returnS ()))
      else if oc = OpBranchTrue then continue (bindS (get_reg a) (\<lambda>v.
        if is_truthy v then apply_relative_jump imm else returnS ()))
      else if oc = OpCall then continue (exec_call instr)
      else if oc = OpTailCall then continue (exec_tail_call instr)
      else if oc = OpCallNative \<or> oc = OpCallNativeFrom then continue (exec_call_native ct instr)
      else if oc = OpReturn then bindS (get_reg a) pop_frame
      else rest)"

definition exec_flow :: "instruction \<Rightarrow> step_outcome vmop \<Rightarrow> step_outcome vmop" where
  "exec_flow instr rest =
     (let oc = i_op instr; a = i_a instr; b = i_b instr in
      if oc = OpSpawn then finish (
        bindS (gather_regs a b 1) (\<lambda>args. returnS (RSpawn (i_imm instr) args a (rights_from_u8 (i_c instr)))))
      else if oc = OpYield then finish (returnS RYield)
      else if oc = OpSleep then finish (bindS (duration_millis_from_reg a) (\<lambda>ms. returnS (RSleep ms)))
      else if oc = OpExit then finish (bindS (get_reg a) (\<lambda>v. returnS (RComplete v)))
      else if oc = OpSelfPid then finish (returnS (RSelfPid a))
      else if oc = OpSend then finish (
        bindS (expect_cap_reg a) (\<lambda>cap. bindS (expect_message_value b) (\<lambda>m. returnS (RSend cap m))))
      else rest)"

definition exec_receive :: "instruction \<Rightarrow> step_outcome vmop \<Rightarrow> step_outcome vmop" where
  "exec_receive instr rest =
     (let oc = i_op instr; b = i_b instr; c = i_c instr; any = receive_any (i_a instr) in
      if oc = OpReceive then finish (returnS (RReceive any))
      else if oc = OpReceiveTimeout then finish (
        bindS (duration_millis_from_reg b) (\<lambda>ms. returnS (RReceive (any\<lparr>rc_timeout := Some ms\<rparr>))))
      else if oc = OpReceiveMatch then finish (
        bindS (tag_from_reg b) (\<lambda>tag. returnS (RReceive (any\<lparr>rc_tag := Some tag\<rparr>))))
      else if oc = OpReceiveMatchImm then finish (
        bindS (liftS (tag_from_imm (i_imm instr))) (\<lambda>tag. returnS (RReceive (any\<lparr>rc_tag := Some tag\<rparr>))))
      else if oc = OpReceiveMatchTimeout then finish (
        bindS (tag_from_reg b) (\<lambda>tag. bindS (duration_millis_from_reg c) (\<lambda>ms.
        returnS (RReceive (any\<lparr>rc_timeout := Some ms, rc_tag := Some tag\<rparr>)))))
      else if oc = OpReceiveMatchImmTimeout then finish (
        bindS (liftS (tag_from_imm (i_imm instr))) (\<lambda>tag. bindS (duration_millis_from_reg b) (\<lambda>ms.
        returnS (RReceive (any\<lparr>rc_timeout := Some ms, rc_tag := Some tag\<rparr>)))))
      else rest)"

definition exec_signal :: "instruction \<Rightarrow> step_outcome vmop \<Rightarrow> step_outcome vmop" where
  "exec_signal instr rest =
     (let oc = i_op instr; a = i_a instr; b = i_b instr in
      if oc = OpIsAlive then finish (bindS (expect_cap_reg b) (\<lambda>cap. returnS (RIsAlive a cap)))
      else if oc = OpExitSignal then finish (
        bindS (expect_cap_reg a) (\<lambda>cap. bindS (int_from_reg b) (\<lambda>reason.
        if sint reason < 0 \<or> 6 < sint reason
        then throwS (FTypeMismatch ''FlowExitReason 0..=6'' ''imm-out-of-range'')
        else returnS (RExitSignal cap reason))))
      else if oc = OpDictPut then continue (exec_dict_put instr)
      else if oc = OpDictGet then continue (exec_dict_get instr)
      else if oc = OpDictErase then continue (exec_dict_erase instr)
      else rest)"

definition start_child :: "instruction \<Rightarrow> vm_result vmop" where
  "start_child instr vm =
     (let function = (if 0 \<le> sint (i_imm instr) then i_imm instr else - 1) in
      if chunk_function (vm_chunk vm) function = None
      then (Inl (FBadFunction function (of_nat (length (ch_functions (vm_chunk vm))))), vm)
      else if 2 < i_b instr
      then (Inl (FTypeMismatch ''restart policy 0..=2'' ''imm-out-of-range''), vm)
      else (Inr (RStartChild (i_a instr) function (i_b instr)), vm))"

definition exec_remote :: "instruction \<Rightarrow> step_outcome vmop \<Rightarrow> step_outcome vmop" where
  "exec_remote instr rest =
     (let oc = i_op instr; a = i_a instr; b = i_b instr; c = i_c instr; imm = i_imm instr in
      if oc = OpReceiveMatchEq then finish (
        bindS (tag_from_reg b) (\<lambda>tag. bindS (int_from_reg c) (\<lambda>payload.
        returnS (RReceive ((receive_any a)\<lparr>rc_tag := Some tag, rc_eq := Some payload\<rparr>)))))
      else if oc = OpReceiveMatchValue then finish (
        bindS (tag_from_reg b) (\<lambda>tag. bindS (get_reg c) (\<lambda>payload.
        returnS (RReceive ((receive_any a)\<lparr>rc_tag := Some tag, rc_value := Some payload\<rparr>)))))
      else if oc = OpSendRemote then finish (
        bindS (int_from_reg a) (\<lambda>node.
        if sint node < 0 then throwS (FTypeMismatch ''node id >= 0'' ''negative'')
        else bindS (get_reg b) (\<lambda>v. case v of
            VStr name \<Rightarrow> bindS (expect_message_value c) (\<lambda>m. returnS (RSendRemote node name m))
          | _ \<Rightarrow> throwS (FTypeMismatch ''str'' ''not-str''))))
      else if oc = OpStartSupervisor then finish (
        if 0 \<le> sint imm \<and> sint imm \<le> 2 then returnS (RStartSupervisor (ucast imm))
        else throwS (FTypeMismatch ''strategy 0..=2'' ''imm-out-of-range''))
      else if oc = OpStartChild then finish (start_child instr)
      else if oc = OpReceiveMatchKind then finish (
        if 0 \<le> sint imm \<and> sint imm \<le> 10
        then returnS (RReceive ((receive_any a)\<lparr>rc_kind := Some (ucast imm)\<rparr>))
        else throwS (FTypeMismatch ''payload kind 0..=10'' ''imm-out-of-range''))
      else rest)"

definition exec_ask :: "instruction \<Rightarrow> step_outcome vmop \<Rightarrow> step_outcome vmop" where
  "exec_ask instr rest =
     (let oc = i_op instr; a = i_a instr; b = i_b instr; c = i_c instr; imm = i_imm instr in
      if oc = OpFreshRequestId then continue (
        bindS fresh_request_id (\<lambda>rid. set_reg a (value_from_u64 rid)))
      else if oc = OpReceiveMatchCorr then finish (
        bindS (tag_from_reg b) (\<lambda>tag. bindS (request_id_from_reg c) (\<lambda>rid.
        returnS (RReceive ((receive_any a)\<lparr>rc_tag := Some tag, rc_request_id := Some rid\<rparr>)))))
      else if oc = OpReceiveMatchCorrImm then finish (
        bindS (liftS (tag_from_imm imm)) (\<lambda>tag. bindS (request_id_from_reg b) (\<lambda>rid.
        returnS (RReceive ((receive_any a)\<lparr>rc_tag := Some tag, rc_request_id := Some rid\<rparr>)))))
      else if oc = OpAsk then finish (
        bindS (expect_cap_reg b) (\<lambda>cap. bindS (expect_message_value c) (\<lambda>m. returnS (RAsk a cap m None))))
      else if oc = OpAskTimeout then finish (
        if 0 \<le> sint imm \<and> sint imm \<le> 255 then
          bindS (duration_millis_from_reg (ucast imm)) (\<lambda>ms.
          bindS (expect_cap_reg b) (\<lambda>cap. bindS (expect_message_value c) (\<lambda>m.
          returnS (RAsk a cap m (Some ms)))))
        else throwS (FTypeMismatch ''millis register'' ''imm-out-of-range''))
      else rest)"

text \<open>The remaining arms; the last one is \<^verbatim>\<open>Trap\<close>.\<close>

definition exec_relation :: "instruction \<Rightarrow> step_outcome vmop" where
  "exec_relation instr =
     (let oc = i_op instr; a = i_a instr; b = i_b instr; c = i_c instr; imm = i_imm instr in
      if oc = OpMonitor then finish (bindS (expect_cap_reg b) (\<lambda>cap. returnS (RMonitor a cap)))
      else if oc = OpDemonitor then finish (returnS (RDemonitor a))
      else if oc = OpLink then finish (bindS (expect_cap_reg b) (\<lambda>cap. returnS (RLink a cap)))
      else if oc = OpUnlink then finish (returnS (RUnlink a))
      else if oc = OpSetTrapExit then finish (bindS (get_reg a) (\<lambda>v. returnS (RSetTrapExit (is_truthy v))))
      else if oc = OpSetRestartPolicy then finish (
        if 0 \<le> sint imm \<and> sint imm \<le> 2 then returnS (RSetRestartPolicy (ucast imm))
        else throwS (FTypeMismatch ''restart policy 0..=2'' ''imm-out-of-range''))
      else if oc = OpHostAwait then finish (
        bindS (get_reg b) (\<lambda>args.
        if sint imm < 0 then throwS (FTypeMismatch ''HostAwait op >= 0'' ''imm-negative'')
        else returnS (RHostAwait a imm args)))
      else if oc = OpRegisterName then finish (bindS (expect_str_reg a) (\<lambda>name. returnS (RRegisterName name)))
      else if oc = OpWhereis then finish (bindS (expect_str_reg b) (\<lambda>name. returnS (RWhereis a name)))
      else if oc = OpDelegate then finish (
        bindS (expect_cap_reg b) (\<lambda>src.
        if c = 255 then returnS (RDelegate a src imm None)
        else bindS (expect_cap_reg c) (\<lambda>want. returnS (RDelegate a src imm (Some want)))))
      else throwS (FExplicit imm))"

definition exec_instruction :: "cap_table \<Rightarrow> instruction \<Rightarrow> step_outcome vmop" where
  "exec_instruction ct instr =
     exec_data instr (exec_table instr (exec_move instr (exec_control ct instr (exec_flow instr
       (exec_receive instr (exec_signal instr (exec_remote instr (exec_ask instr
       (exec_relation instr)))))))))"

definition step :: "cap_table \<Rightarrow> step_outcome vmop" where
  "step ct vm =
     bindS fetch (\<lambda>m. case m of None \<Rightarrow> pop_frame VUnit | Some instr \<Rightarrow> exec_instruction ct instr)
       (vm\<lparr>vm_instructions := vm_instructions vm + 1\<rparr>)"

primrec run_loop :: "cap_table \<Rightarrow> nat \<Rightarrow> vm \<Rightarrow> vm_result \<times> vm" where
  "run_loop ct 0 vm = (RYield, vm)"
| "run_loop ct (Suc n) vm =
     (case step ct vm of
        (Inl fault, vm1) \<Rightarrow> (RTrap fault, vm1)
      | (Inr (Some r), vm1) \<Rightarrow> (r, vm1)
      | (Inr None, vm1) \<Rightarrow> run_loop ct n vm1)"

definition run :: "cap_table \<Rightarrow> u32 \<Rightarrow> vm \<Rightarrow> vm_result \<times> vm" where
  "run ct budget vm = run_loop ct (unat budget) vm"

end
