(* ===== verification/Bf_VmSafe.thy ===== *)
theory Bf_VmSafe
  imports Bf_Vm Bf_Verify
begin

text \<open>
  What verification buys the interpreter.  A machine that runs a verified chunk keeps its
  call stack well formed: every frame belongs to a function of the chunk, has its register
  file, and its program counter stays inside the code of that function; and the machine
  never traps for a structural reason (a jump, a constant, a function, an argument count or
  a register window that verification ruled out, or a broken internal invariant).
\<close>

named_theorems ord_intros \<open>operations that change neither the call stack nor the code\<close>

section \<open>Shapes\<close>

fun structural_fault :: "fault \<Rightarrow> bool" where
  "structural_fault (FBadConstant _ _) = True"
| "structural_fault (FBadFunction _ _) = True"
| "structural_fault (FBadArity _ _) = True"
| "structural_fault (FBadJump _ _) = True"
| "structural_fault (FInvariant _) = True"
| "structural_fault (FRegisterIndexOverflow _ _) = True"
| "structural_fault _ = False"

type_synonym frame_shape = "u32 \<times> nat \<times> u8 option \<times> nat"

definition frame_shape :: "frame \<Rightarrow> frame_shape" where
  "frame_shape fr = (fr_function fr, fr_pc fr, fr_dest_reg fr, length (fr_registers fr))"

type_synonym vm_shape = "chunk \<times> native_table \<times> frame_shape list"

definition vm_shape :: "vm \<Rightarrow> vm_shape" where
  "vm_shape vm = (vm_chunk vm, vm_natives vm, map frame_shape (vm_frames vm))"

text \<open>
  An ordinary operation keeps the shape, and if it fails then not for a structural reason.
\<close>

definition ordinary :: "vm_shape \<Rightarrow> 'a vmop \<Rightarrow> bool" where
  "ordinary S m \<longleftrightarrow> (\<forall>vm r vm'. vm_shape vm = S \<longrightarrow> m vm = (r, vm') \<longrightarrow>
     vm_shape vm' = S \<and> (\<forall>e. r = Inl e \<longrightarrow> \<not> structural_fault e))"

lemma ordinaryI:
  "(\<And>vm r vm'. vm_shape vm = S \<Longrightarrow> m vm = (r, vm') \<Longrightarrow>
     vm_shape vm' = S \<and> (\<forall>e. r = Inl e \<longrightarrow> \<not> structural_fault e)) \<Longrightarrow> ordinary S m"
  by (simp add: ordinary_def)

lemma ordinaryD:
  "ordinary S m \<Longrightarrow> vm_shape vm = S \<Longrightarrow> m vm = (r, vm') \<Longrightarrow> vm_shape vm' = S"
  "ordinary S m \<Longrightarrow> vm_shape vm = S \<Longrightarrow> m vm = (Inl e, vm') \<Longrightarrow> \<not> structural_fault e"
  by (auto simp: ordinary_def)

lemma ord_return [ord_intros]: "ordinary S (returnS x)"
  by (simp add: ordinary_def returnS_def)

lemma ord_throw [ord_intros]: "\<not> structural_fault e \<Longrightarrow> ordinary S (throwS e)"
  by (simp add: ordinary_def throwS_def)

lemma ord_lift: "(\<And>e. m = Inl e \<Longrightarrow> \<not> structural_fault e) \<Longrightarrow> ordinary S (liftS m)"
  by (simp add: ordinary_def liftS_def)

lemma ord_bind [ord_intros]:
  assumes "ordinary S m" and "\<And>x. ordinary S (f x)"
  shows "ordinary S (bindS m f)"
proof (rule ordinaryI)
  fix vm r vm' assume *: "vm_shape vm = S" "bindS m f vm = (r, vm')"
  show "vm_shape vm' = S \<and> (\<forall>e. r = Inl e \<longrightarrow> \<not> structural_fault e)"
  proof (cases "m vm")
    case (Pair r1 vm1)
    with * assms(1) have "vm_shape vm1 = S" by (auto dest: ordinaryD)
    with * Pair assms show ?thesis
      by (cases r1) (auto simp: bindS_def dest: ordinaryD)
  qed
qed

text \<open>Where the continuation only runs on the results of the first computation.\<close>

lemma ord_bind_lift:
  assumes "\<And>e. m = Inl e \<Longrightarrow> \<not> structural_fault e" and "\<And>x. m = Inr x \<Longrightarrow> ordinary S (f x)"
  shows "ordinary S (bindS (liftS m) f)"
  using assms by (cases m) (auto simp: ordinary_def bindS_def liftS_def)

lemma ord_mapS:
  assumes "\<And>x. x \<in> set xs \<Longrightarrow> ordinary S (f x)"
  shows "ordinary S (mapS f xs)"
  using assms by (induction xs) (auto intro!: ord_intros)

lemma ord_if [ord_intros]:
  "(c \<Longrightarrow> ordinary S m) \<Longrightarrow> (\<not> c \<Longrightarrow> ordinary S n) \<Longrightarrow> ordinary S (if c then m else n)"
  by simp

lemma ord_continue [ord_intros]: "ordinary S m \<Longrightarrow> ordinary S (continue m)"
  by (simp add: continue_def ord_intros)

lemma ord_finish [ord_intros]: "ordinary S m \<Longrightarrow> ordinary S (finish m)"
  by (simp add: finish_def ord_intros)

section \<open>Accounting keeps the shape\<close>

lemma shape_release [simp]: "vm_shape (vm_release n vm) = vm_shape vm"
  by (auto simp: vm_release_def vm_shape_def split: option.split prod.split)

lemma shape_charge: "vm_charge n vm = (r, vm') \<Longrightarrow> vm_shape vm' = vm_shape vm"
  by (auto simp: vm_charge_def vm_shape_def split: option.splits prod.splits)

lemma charge_pair_fault: "charge_pair n q m = (Inl e, q', m') \<Longrightarrow> \<not> structural_fault e"
  by (auto simp: charge_pair_def split: if_splits prod.splits sum.splits option.splits)

lemma ord_charge: "ordinary S (vm_charge n)"
  by (auto simp: ordinary_def dest: shape_charge)
    (auto simp: vm_charge_def dest: charge_pair_fault split: option.splits prod.splits)

lemma fit_not_structural [simp]: "\<not> structural_fault fit_fault" "\<not> structural_fault nesting_fault"
  by (simp_all add: fit_fault_def nesting_fault_def)

lemma foldE_fault:
  assumes "foldE f xs s = Inl e" and "\<And>x s e. x \<in> set xs \<Longrightarrow> f x s = Inl e \<Longrightarrow> P e"
  shows "P e"
  using assms by (induction xs arbitrary: s) (auto simp: result_simps)

lemma charge_walk_fault: "charge_walk v depth = Inl e \<Longrightarrow> e = fit_fault \<or> e = nesting_fault"
proof (induction v arbitrary: depth e rule: value_induct)
  case (List items)
  then show ?case
    by (fastforce simp: result_simps split: if_splits
        dest!: foldE_fault [where P = "\<lambda>e. e = fit_fault \<or> e = nesting_fault"])
next
  case (Record items)
  then show ?case
    by (fastforce simp: result_simps split: if_splits
        dest!: foldE_fault [where P = "\<lambda>e. e = fit_fault \<or> e = nesting_fault"])
next
  case (Map entries)
  show ?case
  proof (rule ccontr)
    assume n: "\<not> ?thesis"
    with Map(2) obtain s0 where "foldE (\<lambda>e sum. bindE (case fst e of
          KStr text \<Rightarrow> ok_or fit_fault (checked_add sum (length text)) | KInt _ \<Rightarrow> Inr sum) (\<lambda>sum.
        bindE (charge_walk (snd e) (depth + 1)) (\<lambda>part. ok_or fit_fault (checked_add sum part)))) entries s0 = Inl e"
      by (auto simp: result_simps split: if_splits)
    then have "e = fit_fault \<or> e = nesting_fault"
      by (rule foldE_fault) (use Map(1) in \<open>fastforce simp: result_simps split: map_key.splits\<close>)
    with n show False by simp
  qed
qed (auto simp: result_simps split: if_splits)

lemma heap_charge_fault: "heap_charge_of v = Inl e \<Longrightarrow> \<not> structural_fault e"
  unfolding heap_charge_of_def by (auto dest: charge_walk_fault)

section \<open>Registers and operands\<close>

definition live_shape :: "vm_shape \<Rightarrow> bool" where
  "live_shape S \<longleftrightarrow> snd (snd S) \<noteq> []"

lemma live_frames: "live_shape (vm_shape vm) \<longleftrightarrow> vm_frames vm \<noteq> []"
  by (simp add: live_shape_def vm_shape_def)

lemma ord_get_reg [ord_intros]: "live_shape S \<Longrightarrow> ordinary S (get_reg reg)"
  by (rule ordinaryI)
    (auto simp: get_reg_def live_frames ok_or_def split: list.splits option.splits)

lemma shape_set_top:
  "vm_frames vm = fr # rest \<Longrightarrow> frame_shape fr' = frame_shape fr \<Longrightarrow> vm_shape (set_top fr' vm) = vm_shape vm"
  by (simp add: vm_shape_def set_top_def)

lemma frames_release [simp]: "vm_frames (vm_release n vm) = vm_frames vm"
  by (auto simp: vm_release_def split: option.split prod.split)

lemma frames_charge: "vm_charge n vm = (r, vm') \<Longrightarrow> vm_frames vm' = vm_frames vm"
  by (auto simp: vm_charge_def split: option.splits prod.splits)

lemma frame_shape_updates [simp]:
  "frame_shape (fr\<lparr>fr_registers := (fr_registers fr)[i := v]\<rparr>) = frame_shape fr"
  "frame_shape (sub_heap_charge n fr) = frame_shape fr"
  "frame_shape (fr\<lparr>fr_heap_charge := n\<rparr>) = frame_shape fr"
  by (simp_all add: frame_shape_def sub_heap_charge_def)

lemma frame_shape_write [simp]:
  "frame_shape (fr'\<lparr>fr_registers := (fr_registers fr')[i := v]\<rparr>) = frame_shape fr \<longleftrightarrow> frame_shape fr' = frame_shape fr"
  by simp

lemma try_add_shape: "try_add_heap_charge n fr = Some fr' \<Longrightarrow> frame_shape fr' = frame_shape fr"
  by (auto simp: try_add_heap_charge_def frame_shape_def)

lemma set_reg_charged_shape:
  assumes "set_reg_charged reg old fr v vm = (r, vm')" and "vm_frames vm = fr # rest"
  shows "vm_shape vm' = vm_shape vm \<and> (\<forall>e. r = Inl e \<longrightarrow> \<not> structural_fault e)"
proof (cases "\<exists>m n. heap_charge_of old = Inr m \<and> heap_charge_of v = Inr n")
  case True
  then obtain m n where mn: "heap_charge_of old = Inr m" "heap_charge_of v = Inr n" by blast
  show ?thesis
  proof (cases "m < n")
    case True
    obtain r1 vm1 where c: "vm_charge (n - m) vm = (r1, vm1)" by fastforce
    note facts = shape_charge [OF c] frames_charge [OF c]
    show ?thesis
    proof (cases r1)
      case (Inl e)
      then have "\<not> structural_fault e"
        using c ord_charge ordinaryD(2) by blast
      with Inl c assms True mn facts show ?thesis
        by (auto simp: set_reg_charged_def bindS_def liftS_def Let_def)
    next
      case (Inr u)
      with c assms True mn facts show ?thesis
        by (auto simp: set_reg_charged_def bindS_def liftS_def Let_def shape_set_top try_add_shape
            split: option.splits)
    qed
  next
    case False
    with assms mn show ?thesis
      by (auto simp: set_reg_charged_def bindS_def liftS_def Let_def shape_set_top split: if_splits)
  qed
next
  case False
  with assms(1) show ?thesis
    by (cases "heap_charge_of old"; cases "heap_charge_of v")
      (auto simp: set_reg_charged_def bindS_def liftS_def dest: heap_charge_fault)
qed

lemma ord_set_reg [ord_intros]: 
  assumes "live_shape S" shows "ordinary S (set_reg reg v)"
proof (rule ordinaryI)
  fix vm r vm' assume *: "vm_shape vm = S" "set_reg reg v vm = (r, vm')"
  with assms obtain fr rest where fr: "vm_frames vm = fr # rest"
    by (cases "vm_frames vm") (auto simp: live_frames)
  show "vm_shape vm' = S \<and> (\<forall>e. r = Inl e \<longrightarrow> \<not> structural_fault e)"
  proof (cases "list_get (fr_registers fr) (unat reg)")
    case None
    with * fr show ?thesis by (auto simp: set_reg_def)
  next
    case (Some old)
    show ?thesis
    proof (cases "is_scalar old \<and> is_scalar v")
      case True
      with * fr Some show ?thesis by (auto simp: set_reg_def shape_set_top)
    next
      case False
      with * fr Some have "set_reg_charged reg old fr v vm = (r, vm')"
        by (simp add: set_reg_def split: if_splits)
      from set_reg_charged_shape [OF this fr] * show ?thesis by simp
    qed
  qed
qed

lemma ord_int_from_reg [ord_intros]: "live_shape S \<Longrightarrow> ordinary S (int_from_reg reg)"
  by (auto simp: int_from_reg_def require_int_def intro!: ord_intros ord_lift split: "value.splits")

lemma ord_tag_from_reg [ord_intros]: "live_shape S \<Longrightarrow> ordinary S (tag_from_reg reg)"
  by (auto simp: tag_from_reg_def tag_from_value_def require_int_def result_simps
      intro!: ord_intros ord_lift split: "value.splits" if_splits)

lemma ord_request_id [ord_intros]: "live_shape S \<Longrightarrow> ordinary S (request_id_from_reg reg)"
  by (auto simp: request_id_from_reg_def request_id_from_value_def require_int_def result_simps
      intro!: ord_intros ord_lift split: "value.splits" if_splits)

lemma ord_duration [ord_intros]: "live_shape S \<Longrightarrow> ordinary S (duration_millis_from_reg reg)"
  by (auto simp: duration_millis_from_reg_def require_int_def intro!: ord_intros ord_lift split: "value.splits")

lemma ord_expect_cap [ord_intros]: "live_shape S \<Longrightarrow> ordinary S (expect_cap_reg reg)"
  by (auto simp: expect_cap_reg_def result_simps intro!: ord_intros ord_lift)

lemma ord_expect_message [ord_intros]: "live_shape S \<Longrightarrow> ordinary S (expect_message_value reg)"
  by (auto simp: expect_message_value_def intro!: ord_intros)

lemma ord_expect_str [ord_intros]: "live_shape S \<Longrightarrow> ordinary S (expect_str_reg reg)"
  by (auto simp: expect_str_reg_def intro!: ord_intros split: "value.split")

lemma ord_tag_from_imm [ord_intros]: "ordinary S (liftS (tag_from_imm imm))"
  by (rule ord_lift) (auto simp: tag_from_imm_def split: if_splits)

lemma ord_numeric_mismatch [ord_intros]: "ordinary S (numeric_mismatch v)"
  by (simp add: numeric_mismatch_def ord_intros)

lemma ord_imm_ops [ord_intros]:
  assumes "live_shape S"
  shows "ordinary S (add_imm a b imm)" "ordinary S (sub_imm a b imm)" "ordinary S (mul_imm a b imm)"
    "ordinary S (lt_imm a b imm)" "ordinary S (le_imm a b imm)" "ordinary S (gt_imm a b imm)"
    "ordinary S (ge_imm a b imm)" "ordinary S (eq_imm a b imm)" "ordinary S (ne_imm a b imm)"
  using assms
  by (auto simp: add_imm_def sub_imm_def mul_imm_def lt_imm_def le_imm_def gt_imm_def ge_imm_def eq_imm_def
      ne_imm_def intro!: ord_intros split: "value.split")

lemma as_f64_fault: "as_f64 v = Inl e \<Longrightarrow> \<not> structural_fault e"
  by (auto simp: as_f64_def split: "value.splits")

lemma ord_bit_binop [ord_intros]:
  assumes "live_shape S" and "oc = OpBitAnd \<or> oc = OpBitOr \<or> oc = OpBitXor \<or> oc = OpShl \<or> oc = OpShr \<or> oc = OpUshr"
  shows "ordinary S (bit_binop oc a b c)"
proof -
  have "\<not> structural_fault e" if "bit_result oc x y = Inl e" for x y e
    using that assms(2) by (auto simp: bit_result_def Let_def split: if_splits)
  then show ?thesis unfolding bit_binop_def by (intro ord_intros ord_lift assms(1))
qed

lemma int_or_float_fault: "int_or_float f g a b = Inl e \<Longrightarrow> \<not> structural_fault e"
  by (auto simp: int_or_float_def result_simps dest: as_f64_fault split: option.splits)

lemma div_rem_fault:
  "div_result a b = Inl e \<Longrightarrow> \<not> structural_fault e" "rem_result a b = Inl e \<Longrightarrow> \<not> structural_fault e"
  by (auto simp: div_result_def rem_result_def result_simps dest: as_f64_fault split: option.splits if_splits)

lemma ord_numeric_binop [ord_intros]:
  assumes "live_shape S" and "oc = OpAdd \<or> oc = OpSub \<or> oc = OpMul \<or> oc = OpDiv \<or> oc = OpMod \<or> oc = OpEq \<or>
    oc = OpNe \<or> oc = OpLt \<or> oc = OpLe \<or> oc = OpGt \<or> oc = OpGe"
  shows "ordinary S (numeric_binop oc a b c)"
proof -
  have "\<not> structural_fault e" if "numeric_result oc x y = Inl e" for x y e
    using that assms(2)
    by (auto simp: numeric_result_def dest: int_or_float_fault div_rem_fault split: if_splits)
  then show ?thesis unfolding numeric_binop_def by (intro ord_intros ord_lift assms(1))
qed

lemma reg_at_ok: "unat base + off \<le> 255 \<Longrightarrow> reg_at base off = Inr (of_nat (unat base + off))"
  by (simp add: reg_at_def)

lemma ord_gather_offsets:
  assumes "live_shape S" and "\<And>off. off \<in> set offs \<Longrightarrow> unat base + off \<le> 255"
  shows "ordinary S (gather_offsets base offs)"
  unfolding gather_offsets_def
  by (intro ord_mapS ord_bind_lift) (use assms in \<open>auto simp: reg_at_ok intro!: ord_intros\<close>)

text \<open>A register window that ends inside the register index space.\<close>

lemma ord_gather_regs:
  assumes "live_shape S" and "window_end base first (unat argc) \<le> 255"
  shows "ordinary S (gather_regs base argc first)"
  unfolding gather_regs_def
  by (intro ord_gather_offsets assms(1)) (use assms(2) in \<open>auto simp: window_end_def split: if_splits\<close>)

lemma ord_pack_count:
  assumes "\<And>n. n = nat (sint imm) \<Longrightarrow> ordinary S (f n)"
  shows "ordinary S (bindS (liftS (pack_count imm m what)) f)"
  by (rule ord_bind_lift) (use assms in \<open>auto simp: pack_count_def split: if_splits\<close>)

lemma ord_packs [ord_intros]:
  assumes "live_shape S" and "window_end b 0 (nat (sint imm)) \<le> 255"
  shows "ordinary S (list_pack a b imm)" "ordinary S (record_pack a b imm)"
proof -
  have "ordinary S (gather_offsets b [0..<nat (sint imm)])"
    by (rule ord_gather_offsets [OF assms(1)]) (use assms(2) in \<open>auto simp: window_end_def split: if_splits\<close>)
  then show "ordinary S (list_pack a b imm)" "ordinary S (record_pack a b imm)"
    unfolding list_pack_def record_pack_def
    by (auto intro!: ord_pack_count ord_intros ord_lift assms(1) simp: result_simps)
qed

lemma ord_map_pack [ord_intros]:
  assumes "live_shape S" and "window_end b 0 (2 * nat (sint imm)) \<le> 255"
  shows "ordinary S (map_pack a b imm)"
proof -
  have "ordinary S (gather_entry b i)" if "i < nat (sint imm)" for i
  proof -
    have "unat b + (i * 2 + 1) \<le> 255" "unat b + i * 2 \<le> 255"
      using that assms(2) by (auto simp: window_end_def split: if_splits)
    then show ?thesis
      unfolding gather_entry_def
      by (auto simp: reg_at_ok key_of_value_def intro!: ord_intros ord_lift assms(1) split: "value.splits")
  qed
  then have "ordinary S (mapS (gather_entry b) [0..<nat (sint imm)])" by (intro ord_mapS) auto
  then show ?thesis
    unfolding map_pack_def
    by (auto intro!: ord_pack_count ord_intros ord_lift assms(1) simp: result_simps)
qed

lemma ord_data_ops [ord_intros]:
  assumes "live_shape S"
  shows "ordinary S (bit_not a b)" "ordinary S (list_get_op a b imm)" "ordinary S (record_get a b imm)"
    "ordinary S (list_len a b)" "ordinary S (record_len a b)" "ordinary S (map_len a b)"
    "ordinary S (str_len a b)" "ordinary S (bytes_len a b)"
  using assms
  by (auto simp: bit_not_def list_get_op_def record_get_def list_len_def record_len_def map_len_def
      str_len_def bytes_len_def index_of_def result_simps intro!: ord_intros ord_lift split: "value.split")

lemma ord_map_get [ord_intros]: "live_shape S \<Longrightarrow> ordinary S (map_get_op a b c)"
  unfolding map_get_op_def key_of_value_def
  by (auto intro!: ord_intros ord_lift split: "value.splits")

lemma ord_load_const [ord_intros]:
  assumes "live_shape S" and "unat (i_imm instr) < length (ch_constants (fst S))"
  shows "ordinary S (load_const instr)"
proof (rule ordinaryI)
  fix vm r vm' assume *: "vm_shape vm = S" "load_const instr vm = (r, vm')"
  then obtain k where "chunk_constant (vm_chunk vm) (i_imm instr) = Some k"
    using assms(2) by (auto simp: chunk_constant_def list_get_def vm_shape_def)
  with * have "set_reg (i_a instr) k vm = (r, vm')" by (simp add: load_const_def)
  with ord_set_reg [OF assms(1)] * show "vm_shape vm' = S \<and> (\<forall>e. r = Inl e \<longrightarrow> \<not> structural_fault e)"
    by (auto dest: ordinaryD)
qed

lemma ord_fresh [ord_intros]: "ordinary S fresh_request_id"
  by (rule ordinaryI) (auto simp: fresh_request_id_def vm_shape_def Let_def split: if_splits)

section \<open>Natives and the dictionary\<close>

lemma ord_catch:
  assumes "ordinary S m" and "\<And>e. \<not> structural_fault e \<Longrightarrow> ordinary S (h e)" and "\<And>x. ordinary S (k x)"
  shows "ordinary S (\<lambda>vm. case m vm of (Inl e, vm1) \<Rightarrow> h e vm1 | (Inr x, vm1) \<Rightarrow> k x vm1)"
proof (rule ordinaryI)
  fix vm r vm'
  assume *: "vm_shape vm = S" "(case m vm of (Inl e, vm1) \<Rightarrow> h e vm1 | (Inr x, vm1) \<Rightarrow> k x vm1) = (r, vm')"
  obtain r1 vm1 where m: "m vm = (r1, vm1)" by fastforce
  then have vm1: "vm_shape vm1 = S" using * assms(1) by (auto dest: ordinaryD)
  show "vm_shape vm' = S \<and> (\<forall>e. r = Inl e \<longrightarrow> \<not> structural_fault e)"
  proof (cases r1)
    case (Inl e)
    then have "\<not> structural_fault e" using ordinaryD(2) [OF assms(1) *(1)] m by simp
    then have "ordinary S (h e)" by (rule assms(2))
    moreover have "h e vm1 = (r, vm')" using * m Inl by simp
    ultimately show ?thesis using vm1 unfolding ordinary_def by blast
  next
    case (Inr x)
    moreover have "k x vm1 = (r, vm')" using * m Inr by simp
    ultimately show ?thesis using vm1 assms(3) [of x] unfolding ordinary_def by blast
  qed
qed

lemma ord_after: "(\<And>vm. vm_shape (g vm) = vm_shape vm) \<Longrightarrow> ordinary S m \<Longrightarrow> ordinary S (\<lambda>vm. m (g vm))"
  unfolding ordinary_def by metis

lemma ord_case_option:
  assumes "ordinary S n" and "\<And>x. ordinary S (m x)"
  shows "ordinary S (\<lambda>vm. case g vm of None \<Rightarrow> n vm | Some x \<Rightarrow> m x vm)"
proof (rule ordinaryI)
  fix vm r vm' assume *: "vm_shape vm = S" "(case g vm of None \<Rightarrow> n vm | Some x \<Rightarrow> m x vm) = (r, vm')"
  show "vm_shape vm' = S \<and> (\<forall>e. r = Inl e \<longrightarrow> \<not> structural_fault e)"
  proof (cases "g vm")
    case None
    with * assms(1) show ?thesis unfolding ordinary_def by simp
  next
    case (Some x)
    with * assms(2) [of x] show ?thesis unfolding ordinary_def by simp
  qed
qed

lemma ord_update:
  "(\<And>vm. vm_shape (g vm) = vm_shape vm) \<Longrightarrow> (\<And>e. r = Inl e \<Longrightarrow> \<not> structural_fault e) \<Longrightarrow>
     ordinary S (\<lambda>vm. (r, g vm))"
  by (simp add: ordinary_def)

lemma ord_result:
  "ordinary S (\<lambda>vm. (Inr x, vm))" "\<not> structural_fault e \<Longrightarrow> ordinary S (\<lambda>vm. (Inl e, vm))"
  by (simp_all add: ordinary_def)

lemma ord_gets: "(\<And>x. ordinary S (f x)) \<Longrightarrow> ordinary S (\<lambda>vm. f (g vm) vm)"
  by (simp add: ordinary_def)

lemma shape_dict [simp]:
  "vm_shape (dict_insert k v vm) = vm_shape vm" "vm_shape (dict_remove k vm) = vm_shape vm"
  "vm_shape (vm\<lparr>vm_dict_bytes := n\<rparr>) = vm_shape vm"
  by (simp_all add: vm_shape_def dict_insert_def dict_remove_def)

lemma ord_adjust_dict [ord_intros]: "ordinary S (adjust_dict_quota m n)"
proof -
  have grow: "ordinary S (\<lambda>vm. case checked_add (vm_dict_bytes vm) d of
      Some next \<Rightarrow> (Inr (), vm\<lparr>vm_dict_bytes := next\<rparr>) | None \<Rightarrow> (Inl fit_fault, vm_release d vm))" for d
    by (rule ordinaryI) (auto split: option.splits)
  have shrink: "ordinary S (\<lambda>vm. (Inr (), (vm_release d vm)\<lparr>vm_dict_bytes := vm_dict_bytes vm - d\<rparr>))" for d
    by (rule ord_update) simp_all
  show ?thesis
    unfolding adjust_dict_quota_def Let_def by (intro ord_if ord_bind ord_charge grow shrink ord_return)
qed

lemma dict_owned_fault: "dict_owned_bytes v = Inl e \<Longrightarrow> \<not> structural_fault e"
  by (cases v) auto

lemma ord_rollback:
  "\<not> structural_fault e \<Longrightarrow> ordinary S (\<lambda>vm. case adjust_dict_quota m n vm of
     (Inl rollback, vm1) \<Rightarrow> (Inl rollback, vm1) | (Inr x, vm1) \<Rightarrow> (Inl e, vm1))"
  by (rule ord_catch [OF ord_adjust_dict]) (simp_all add: ord_result)

lemma ord_dict_put [ord_intros]:
  assumes "live_shape S"
  shows "ordinary S (exec_dict_put instr)"
proof -
  have "ordinary S (\<lambda>vm1. case set_reg (i_a instr) previous vm1 of
      (Inl fault, vm2) \<Rightarrow> (case adjust_dict_quota n m vm2 of
         (Inl rollback, vm3) \<Rightarrow> (Inl rollback, vm3) | (Inr _, vm3) \<Rightarrow> (Inl fault, vm3))
    | (Inr _, vm2) \<Rightarrow> (Inr (), dict_insert key v vm2))" for previous n m key v
    by (rule ord_catch [OF ord_set_reg [OF assms] ord_rollback ord_update]) simp_all
  then have "ordinary S (bindS (liftS (dict_owned_bytes previous)) (\<lambda>old_bytes.
      bindS (adjust_dict_quota old_bytes new_bytes) (\<lambda>u vm1. case set_reg (i_a instr) previous vm1 of
      (Inl fault, vm2) \<Rightarrow> (case adjust_dict_quota new_bytes old_bytes vm2 of
         (Inl rollback, vm3) \<Rightarrow> (Inl rollback, vm3) | (Inr _, vm3) \<Rightarrow> (Inl fault, vm3))
    | (Inr _, vm2) \<Rightarrow> (Inr (), dict_insert key v vm2))))" for previous new_bytes key v
    by (intro ord_intros ord_lift) (auto dest: dict_owned_fault)
  note inner = ord_gets [OF this, where g = "\<lambda>vm. unit_if_absent (dict_lookup key vm)" for key]
  show ?thesis
    unfolding exec_dict_put_def Let_def
    by (intro ord_intros ord_lift assms inner) (auto dest: dict_owned_fault)
qed

lemma ord_dict_get [ord_intros]:
  assumes "live_shape S"
  shows "ordinary S (exec_dict_get instr)"
proof -
  have read: "ordinary S (\<lambda>vm. set_reg (i_a instr) (unit_if_absent (dict_lookup key vm)) vm)" for key
    by (rule ord_gets [where f = "set_reg (i_a instr)"]) (rule ord_set_reg [OF assms])
  show ?thesis
    unfolding exec_dict_get_def by (rule ord_bind [OF ord_int_from_reg [OF assms] read])
qed

lemma ord_dict_erase [ord_intros]:
  assumes "live_shape S"
  shows "ordinary S (exec_dict_erase instr)"
proof -
  have restore: "ordinary S (\<lambda>vm. case adjust_dict_quota 0 n (dict_insert key old vm) of
      (Inl rollback, vm4) \<Rightarrow> (Inl rollback, vm4) | (Inr _, vm4) \<Rightarrow> (Inl e, vm4))"
    if "\<not> structural_fault e" for e n key old
    by (rule ord_after [OF shape_dict(1) ord_rollback [OF that]])
  have stored: "ordinary S (\<lambda>vm. case set_reg (i_a instr) old vm of
      (Inl fault, vm3) \<Rightarrow> (case adjust_dict_quota 0 n (dict_insert key old vm3) of
         (Inl rollback, vm4) \<Rightarrow> (Inl rollback, vm4) | (Inr _, vm4) \<Rightarrow> (Inl fault, vm4))
    | (Inr _, vm3) \<Rightarrow> (Inr (), vm3))" for old n key
    by (rule ord_catch [OF ord_set_reg [OF assms] restore ord_result(1)])
  have "ordinary S (\<lambda>vm. case adjust_dict_quota n 0 vm of
      (Inl fault, vm2) \<Rightarrow> (Inl fault, dict_insert key old vm2)
    | (Inr _, vm2) \<Rightarrow> (case set_reg (i_a instr) old vm2 of
        (Inl fault, vm3) \<Rightarrow> (case adjust_dict_quota 0 n (dict_insert key old vm3) of
           (Inl rollback, vm4) \<Rightarrow> (Inl rollback, vm4) | (Inr _, vm4) \<Rightarrow> (Inl fault, vm4))
      | (Inr _, vm3) \<Rightarrow> (Inr (), vm3)))" for n key old
    by (rule ord_catch [OF ord_adjust_dict ord_update stored]) simp_all
  then have erase: "ordinary S (bindS (liftS (dict_owned_bytes old)) (\<lambda>old_bytes vm1.
      case adjust_dict_quota old_bytes 0 vm1 of
        (Inl fault, vm2) \<Rightarrow> (Inl fault, dict_insert key old vm2)
      | (Inr _, vm2) \<Rightarrow> (case set_reg (i_a instr) old vm2 of
          (Inl fault, vm3) \<Rightarrow> (case adjust_dict_quota 0 old_bytes (dict_insert key old vm3) of
             (Inl rollback, vm4) \<Rightarrow> (Inl rollback, vm4) | (Inr _, vm4) \<Rightarrow> (Inl fault, vm4))
        | (Inr _, vm3) \<Rightarrow> (Inr (), vm3))))" for old key
    by (intro ord_intros ord_lift) (auto dest: dict_owned_fault)
  show ?thesis
    unfolding exec_dict_erase_def
    by (rule ord_bind [OF ord_int_from_reg [OF assms] ord_bind [OF ord_get_reg [OF assms]
          ord_case_option [OF ord_set_reg [OF assms] ord_after [OF shape_dict(2) erase]]]])
qed

text \<open>
  A host function is outside the machine; it may fail with any fault it likes, and the ones
  that imitate a structural fault are excluded by assumption where the machine is run.
\<close>

definition natives_ok :: "native_table \<Rightarrow> bool" where
  "natives_ok tbl \<longleftrightarrow> (\<forall>name f args e. Some (name, f) \<in> set tbl \<longrightarrow> f args = Inl e \<longrightarrow> \<not> structural_fault e)"

lemma ord_native_admission: "ordinary S (native_admission ct idx)"
  by (rule ordinaryI)
    (auto simp: native_admission_def native_fault_def split: sum.splits native_call_error.splits)

lemma ord_call_native_fn:
  assumes "natives_ok (fst (snd S))"
  shows "ordinary S (call_native_fn idx args)"
proof (rule ordinaryI)
  fix vm r vm' assume *: "vm_shape vm = S" "call_native_fn idx args vm = (r, vm')"
  then have "natives_ok (vm_natives vm)" using assms by (auto simp: vm_shape_def)
  with * show "vm_shape vm' = S \<and> (\<forall>e. r = Inl e \<longrightarrow> \<not> structural_fault e)"
    by (auto simp: call_native_fn_def natives_get_def natives_ok_def list_get_def
        split: option.splits if_splits) (metis nth_mem)
qed

lemma window_end_one: "window_end b 0 (unat (1 :: u8)) = Suc (unat b)"
  by (simp add: window_end_def)

lemma ord_call_native:
  assumes "live_shape S" and "natives_ok (fst (snd S))"
    and "i_op instr = OpCallNativeFrom \<Longrightarrow> Suc (unat (i_b instr)) \<le> 255"
    and "i_op instr \<noteq> OpCallNativeFrom \<Longrightarrow> window_end (i_a instr) 0 (unat (i_b instr)) \<le> 255"
  shows "ordinary S (exec_call_native ct instr)"
  unfolding exec_call_native_def
  by (auto intro!: ord_bind ord_native_admission ord_gather_regs ord_call_native_fn ord_set_reg assms(1,2)
      dest: assms(3,4) simp: window_end_one simp del: unsigned_1)

section \<open>Arms that keep the stack\<close>

text \<open>What the interpreter needs of the operands of an instruction.\<close>

definition operands_ok :: "chunk \<Rightarrow> instruction \<Rightarrow> bool" where
  "operands_ok ch instr \<longleftrightarrow>
     (i_op instr = OpLoadConst \<longrightarrow> unat (i_imm instr) < length (ch_constants ch)) \<and>
     (i_op instr = OpListPack \<or> i_op instr = OpRecordPack \<longrightarrow>
        window_end (i_b instr) 0 (nat (sint (i_imm instr))) \<le> 255) \<and>
     (i_op instr = OpMapPack \<longrightarrow> window_end (i_b instr) 0 (2 * nat (sint (i_imm instr))) \<le> 255) \<and>
     (i_op instr = OpCallNative \<longrightarrow> window_end (i_a instr) 0 (unat (i_b instr)) \<le> 255) \<and>
     (i_op instr = OpCallNativeFrom \<longrightarrow> Suc (unat (i_b instr)) \<le> 255) \<and>
     (i_op instr = OpSpawn \<longrightarrow> window_end (i_a instr) 1 (unat (i_b instr)) \<le> 255) \<and>
     (i_op instr = OpStartChild \<longrightarrow> 0 \<le> sint (i_imm instr) \<and> chunk_function ch (i_imm instr) \<noteq> None)"

lemma ord_exec_data:
  assumes "live_shape S" and "operands_ok (fst S) instr" and "ordinary S rest"
  shows "ordinary S (exec_data instr rest)"
  unfolding exec_data_def Let_def
  by (intro ord_intros assms(1,3)) (use assms(2) in \<open>simp_all add: operands_ok_def\<close>)

lemma ord_exec_table:
  assumes "live_shape S" and "ordinary S rest"
  shows "ordinary S (exec_table instr rest)"
proof -
  have "ordinary S (case int_cmp_from_imm imm of
      None \<Rightarrow> throwS (FTypeMismatch ''cmp 0..=2'' ''imm-out-of-range'') | Some cmp \<Rightarrow> returnS (f cmp))"
    for imm and f :: "int_cmp \<Rightarrow> vm_result"
    by (auto intro!: ord_intros split: option.split)
  then show ?thesis
    unfolding exec_table_def Let_def by (intro ord_intros assms) simp_all
qed

lemma ord_exec_move:
  assumes "live_shape S" and "ordinary S rest"
  shows "ordinary S (exec_move instr rest)"
proof -
  have "ordinary S (case v of VInt x \<Rightarrow> set_reg a (f x) | VFloat x \<Rightarrow> set_reg a (g x)
      | other \<Rightarrow> numeric_mismatch other)" for v a f g
    by (auto intro!: ord_intros assms(1) split: "value.split")
  then show ?thesis
    unfolding exec_move_def Let_def by (intro ord_intros assms) simp_all
qed

lemma ord_exec_flow:
  assumes "live_shape S" and "operands_ok (fst S) instr" and "ordinary S rest"
  shows "ordinary S (exec_flow instr rest)"
  unfolding exec_flow_def Let_def
  by (intro ord_intros ord_gather_regs assms(1,3)) (use assms(2) in \<open>simp_all add: operands_ok_def\<close>)

lemma ord_exec_receive:
  assumes "live_shape S" and "ordinary S rest"
  shows "ordinary S (exec_receive instr rest)"
  unfolding exec_receive_def Let_def by (intro ord_intros assms)

lemma ord_exec_signal:
  assumes "live_shape S" and "ordinary S rest"
  shows "ordinary S (exec_signal instr rest)"
  unfolding exec_signal_def Let_def by (intro ord_intros assms) simp_all

lemma ord_start_child:
  assumes "0 \<le> sint (i_imm instr)" and "chunk_function (fst S) (i_imm instr) \<noteq> None"
  shows "ordinary S (start_child instr)"
  by (rule ordinaryI) (use assms in \<open>auto simp: start_child_def vm_shape_def Let_def split: if_splits\<close>)

lemma ord_exec_remote:
  assumes "live_shape S" and "operands_ok (fst S) instr" and "ordinary S rest"
  shows "ordinary S (exec_remote instr rest)"
  unfolding exec_remote_def Let_def
  by (intro ord_intros ord_start_child assms(1,3))
    (use assms in \<open>auto simp: operands_ok_def intro!: ord_intros split: "value.split"\<close>)

lemma ord_exec_ask:
  assumes "live_shape S" and "ordinary S rest"
  shows "ordinary S (exec_ask instr rest)"
  unfolding exec_ask_def Let_def by (intro ord_intros assms) simp_all

lemma ord_exec_relation:
  assumes "live_shape S"
  shows "ordinary S (exec_relation instr)"
  unfolding exec_relation_def Let_def by (intro ord_intros assms) simp_all

lemma ord_exec_rest:
  assumes "live_shape S" and "operands_ok (fst S) instr"
  shows "ordinary S (exec_flow instr (exec_receive instr (exec_signal instr (exec_remote instr
    (exec_ask instr (exec_relation instr))))))"
  by (intro ord_exec_flow ord_exec_receive ord_exec_signal ord_exec_remote ord_exec_ask ord_exec_relation assms)

definition moves_control :: "opcode \<Rightarrow> bool" where
  "moves_control oc \<longleftrightarrow> oc = OpJump \<or> oc = OpBranch \<or> oc = OpBranchTrue \<or> oc = OpCall \<or> oc = OpTailCall \<or>
     oc = OpReturn"

lemma ord_exec_control:
  assumes "live_shape S" and "operands_ok (fst S) instr" and "natives_ok (fst (snd S))"
    and "\<not> moves_control (i_op instr)" and "ordinary S rest"
  shows "ordinary S (exec_control ct instr rest)"
proof -
  have "ordinary S (exec_call_native ct instr)" if "i_op instr = OpCallNative \<or> i_op instr = OpCallNativeFrom"
    using that assms(2) by (intro ord_call_native assms(1,3)) (auto simp: operands_ok_def)
  with assms(4,5) show ?thesis
    by (simp add: exec_control_def moves_control_def Let_def ord_continue)
qed

lemma ord_exec_instruction:
  assumes "live_shape S" and "operands_ok (fst S) instr" and "natives_ok (fst (snd S))"
    and "\<not> moves_control (i_op instr)"
  shows "ordinary S (exec_instruction ct instr)"
  unfolding exec_instruction_def
  by (intro ord_exec_data ord_exec_table ord_exec_move ord_exec_control ord_exec_rest assms)

section \<open>Arms that move control\<close>

text \<open>The stack: each frame fits a function, and a callee returns into a register its caller has.\<close>

definition pc_fits :: "chunk \<Rightarrow> function_def \<Rightarrow> nat \<Rightarrow> bool" where
  "pc_fits ch d pc \<longleftrightarrow> pc = chunk_len ch \<or> pc < chunk_len ch \<and> owner ch pc d"

definition frame_fits :: "chunk \<Rightarrow> frame_shape \<Rightarrow> bool" where
  "frame_fits ch = (\<lambda>(function, pc, dest, n).
     \<exists>d. chunk_function ch function = Some d \<and> n = unat (f_num_registers d) \<and> pc_fits ch d pc)"

fun stack_fits :: "chunk \<Rightarrow> frame_shape list \<Rightarrow> bool" where
  "stack_fits ch [] = False"
| "stack_fits ch [f] = (frame_fits ch f \<and> fst (snd (snd f)) = None)"
| "stack_fits ch (f # g # fs) =
     (frame_fits ch f \<and> (\<exists>d. fst (snd (snd f)) = Some d \<and> unat d < snd (snd (snd g))) \<and> stack_fits ch (g # fs))"

lemma chunk_function_in: "chunk_function ch i = Some d \<Longrightarrow> d \<in> set (ch_functions ch)"
  by (auto simp: chunk_function_def result_simps)

lemma jump_shape:
  assumes "apply_relative_jump imm vm = (r, vm')"
    and "vm_shape vm = (ch, nt, (f, pc, dest, n) # fs)"
    and "0 \<le> int pc + sint imm" and "int pc + sint imm \<le> int (chunk_len ch)"
  shows "r = Inr () \<and> vm_shape vm' = (ch, nt, (f, nat (int pc + sint imm), dest, n) # fs)"
  using assms
  by (auto simp: apply_relative_jump_def vm_shape_def set_top_def frame_shape_def Let_def
      split: list.splits if_splits)

lemma charge_arg_shape:
  assumes "charge_arg charged bytes fr vm = (r, vm')"
  shows "vm_shape vm' = vm_shape vm \<and> (\<forall>e. r = Inl e \<longrightarrow> \<not> structural_fault e) \<and>
    (\<forall>c fr'. r = Inr (c, fr') \<longrightarrow> frame_shape fr' = frame_shape fr)"
proof (cases "bytes = 0")
  case False
  obtain r1 vm1 where c: "vm_charge bytes vm = (r1, vm1)" by fastforce
  have "\<not> structural_fault e" if "r1 = Inl e" for e
    using ordinaryD(2) [OF ord_charge] c that by blast
  with False assms c shape_charge [OF c] show ?thesis
    by (cases r1) (auto simp: charge_arg_def try_add_shape split: option.splits if_splits)
qed (use assms in \<open>auto simp: charge_arg_def\<close>)

lemma load_args_shape:
  "load_args_charged i charged args fr vm = (r, vm') \<Longrightarrow>
     vm_shape vm' = vm_shape vm \<and> (\<forall>e. r = Inl e \<longrightarrow> \<not> structural_fault e) \<and>
     (\<forall>fr'. r = Inr fr' \<longrightarrow> frame_shape fr' = frame_shape fr)"
proof (induction args arbitrary: i charged fr vm)
  case (Cons a args)
  show ?case
  proof (cases "heap_charge_of a")
    case (Inl e)
    with Cons.prems heap_charge_fault [OF Inl] show ?thesis by (auto simp: bindS_def liftS_def)
  next
    case (Inr bytes)
    obtain r1 vm1 where c: "charge_arg charged bytes fr vm = (r1, vm1)" by fastforce
    note shape = charge_arg_shape [OF c]
    show ?thesis
    proof (cases r1)
      case (Inl e)
      with Cons.prems Inr c shape show ?thesis by (auto simp: bindS_def liftS_def)
    next
      case r1: (Inr p)
      obtain charged' fr' where p: "p = (charged', fr')" by fastforce
      show ?thesis
      proof (cases "i < length (fr_registers fr')")
        case True
        with Cons.prems Inr c r1 p have "load_args_charged (Suc i) charged' args
            (fr'\<lparr>fr_registers := (fr_registers fr')[i := a]\<rparr>) vm1 = (r, vm')"
          by (simp add: bindS_def liftS_def)
        from Cons.IH [OF this] shape r1 p show ?thesis by simp
      next
        case False
        with Cons.prems Inr c r1 p shape show ?thesis by (auto simp: bindS_def liftS_def)
      qed
    qed
  qed
qed auto

lemma frame_shape_new:
  "frame_shape ((Frame_new f n dest)\<lparr>fr_pc := pc\<rparr>) = (f, pc, dest, unat n)"
  by (simp add: Frame_new_def frame_shape_def)

lemma load_and_push_shape:
  assumes "bindS (load_frame_args_charged fr args arity) push_frame vm = (r, vm')"
    and "vm_shape vm = (ch, nt, fs)"
  shows "(\<forall>e. r = Inl e \<longrightarrow> \<not> structural_fault e) \<and>
    (r = Inr () \<longrightarrow> vm_shape vm' = (ch, nt, frame_shape fr # fs))"
proof -
  obtain r1 vm1 where l: "load_frame_args_charged fr args arity vm = (r1, vm1)" by fastforce
  with load_args_shape have "vm_shape vm1 = vm_shape vm" "\<And>e. r1 = Inl e \<Longrightarrow> \<not> structural_fault e"
    "\<And>fr'. r1 = Inr fr' \<Longrightarrow> frame_shape fr' = frame_shape fr"
    unfolding load_frame_args_charged_def by blast+
  with assms l show ?thesis
    by (cases r1) (auto simp: bindS_def push_frame_def vm_shape_def)
qed

lemma bindS_step: "m s = (Inr x, t) \<Longrightarrow> bindS m f s = f x t"
  by (simp add: bindS_def)

lemma bindS_check_arity: "argc = arity \<Longrightarrow> bindS (check_arity argc arity) f = f ()"
  by (simp add: fun_eq_iff bindS_def check_arity_def liftS_def)

lemma callee_shape:
  assumes "vm_shape vm = (ch, nt, fs)" and "chunk_function ch f = Some d"
  shows "callee f vm = (Inr d, vm)"
  using assms by (auto simp: callee_def vm_shape_def)

lemma call_shape:
  assumes "exec_call instr vm = (r, vm')" and "vm_shape vm = (ch, nt, fs)" and "fs \<noteq> []"
    and "chunk_function ch (i_imm instr) = Some d" and "f_arity d = i_b instr"
    and "window_end (i_a instr) 0 (unat (i_b instr)) \<le> 255"
  shows "(\<forall>e. r = Inl e \<longrightarrow> \<not> structural_fault e) \<and> (r = Inr () \<longrightarrow> length fs < MAX_CALL_DEPTH \<and>
    vm_shape vm' = (ch, nt, (i_imm instr, unat (f_entry d), Some (i_a instr), unat (f_num_registers d)) # fs))"
proof (cases "MAX_CALL_DEPTH \<le> length (vm_frames vm)")
  case True
  with assms(1) show ?thesis by (auto simp: exec_call_def)
next
  case False
  have depth: "length fs < MAX_CALL_DEPTH" using False assms(2) by (auto simp: vm_shape_def)
  have live: "live_shape (ch, nt, fs)" using assms(3) by (simp add: live_shape_def)
  obtain r1 vm1 where g: "gather_regs (i_a instr) (i_b instr) 0 vm = (r1, vm1)" by fastforce
  note ord = ord_gather_regs [OF live assms(6)]
  show ?thesis
  proof (cases r1)
    case (Inl e)
    with g have "\<not> structural_fault e" using ordinaryD(2) [OF ord assms(2)] by blast
    with assms(1,5) False Inl g callee_shape [OF assms(2,4)] show ?thesis
      by (auto simp: exec_call_def bindS_def check_arity_def liftS_def)
  next
    case (Inr args)
    with assms(1,5) False g callee_shape [OF assms(2,4)]
    have "bindS (load_frame_args_charged
        ((Frame_new (i_imm instr) (f_num_registers d) (Some (i_a instr)))\<lparr>fr_pc := unat (f_entry d)\<rparr>)
        args (f_arity d)) push_frame vm1 = (r, vm')"
      by (simp add: exec_call_def bindS_step [of "callee _"] bindS_step [of "gather_regs _ _ _"]
          bindS_check_arity)
    from load_and_push_shape [OF this ordinaryD(1) [OF ord assms(2) g]] depth show ?thesis
      by (simp add: frame_shape_new)
  qed
qed

lemma tail_call_shape:
  assumes "exec_tail_call instr vm = (r, vm')" and "vm_shape vm = (ch, nt, (f, pc, dest, n) # fs)"
    and "chunk_function ch (i_imm instr) = Some d" and "f_arity d = i_b instr"
    and "window_end (i_a instr) 0 (unat (i_b instr)) \<le> 255"
  shows "(\<forall>e. r = Inl e \<longrightarrow> \<not> structural_fault e) \<and> (r = Inr () \<longrightarrow>
    vm_shape vm' = (ch, nt, (i_imm instr, unat (f_entry d), dest, unat (f_num_registers d)) # fs))"
proof -
  have live: "live_shape (ch, nt, (f, pc, dest, n) # fs)" by (simp add: live_shape_def)
  obtain r1 vm1 where g: "gather_regs (i_a instr) (i_b instr) 0 vm = (r1, vm1)" by fastforce
  note ord = ord_gather_regs [OF live assms(5)]
  show ?thesis
  proof (cases r1)
    case (Inl e)
    with g have "\<not> structural_fault e" using ordinaryD(2) [OF ord assms(2)] by blast
    with assms(1,4) Inl g callee_shape [OF assms(2,3)] show ?thesis
      by (auto simp: exec_tail_call_def bindS_def check_arity_def liftS_def)
  next
    case (Inr args)
    have "vm_shape vm1 = (ch, nt, (f, pc, dest, n) # fs)" by (rule ordinaryD(1) [OF ord assms(2) g])
    then obtain fr rest where fr: "vm_frames vm1 = fr # rest" "frame_shape fr = (f, pc, dest, n)"
      "map frame_shape rest = fs" "vm_chunk vm1 = ch" "vm_natives vm1 = nt"
      by (auto simp: vm_shape_def)
    define vm2 where "vm2 = vm_release (fr_heap_charge fr) (vm1\<lparr>vm_frames := rest\<rparr>)"
    have shape2: "vm_shape vm2 = (ch, nt, fs)" 
      unfolding vm2_def shape_release using fr by (simp add: vm_shape_def)
    have "drop_frame vm1 = (Inr dest, vm2)"
      using fr by (simp add: drop_frame_def vm2_def frame_shape_def)
    with Inr assms(1,4) g callee_shape [OF assms(2,3)]
    have "bindS (load_frame_args_charged
        ((Frame_new (i_imm instr) (f_num_registers d) dest)\<lparr>fr_pc := unat (f_entry d)\<rparr>)
        args (f_arity d)) push_frame vm2 = (r, vm')"
      by (simp add: exec_tail_call_def bindS_step [of "callee _"] bindS_step [of "gather_regs _ _ _"]
          bindS_step [of drop_frame] bindS_check_arity)
    from load_and_push_shape [OF this shape2] show ?thesis by (simp add: frame_shape_new)
  qed
qed

lemma pop_shape:
  assumes "pop_frame v vm = (r, vm')" and "vm_shape vm = (ch, nt, f # fs)"
    and "fs = [] \<Longrightarrow> fst (snd (snd f)) = None"
  shows "(\<forall>e. r = Inl e \<longrightarrow> \<not> structural_fault e) \<and> (\<forall>res. r = Inr (Some res) \<longrightarrow> res = RComplete v) \<and>
    (r = Inr None \<longrightarrow> vm_shape vm' = (ch, nt, fs) \<and> fs \<noteq> [])"
proof -
  obtain fr rest where fr: "vm_frames vm = fr # rest" "frame_shape fr = f" "map frame_shape rest = fs"
    "vm_chunk vm = ch" "vm_natives vm = nt"
    using assms(2) by (auto simp: vm_shape_def)
  show ?thesis
  proof (cases "fr_dest_reg fr")
    case None
    with fr assms(1) show ?thesis
      by (auto simp: pop_frame_def split: sum.splits dest: heap_charge_fault)
  next
    case (Some dest)
    then have ne: "fs \<noteq> []" using assms(3) fr(2) by (auto simp: frame_shape_def)
    define vm1 where "vm1 = vm_release (fr_heap_charge fr) (vm\<lparr>vm_frames := rest\<rparr>)"
    have shape1: "vm_shape vm1 = (ch, nt, fs)" 
      unfolding vm1_def shape_release using fr by (simp add: vm_shape_def)
    have ord: "ordinary (ch, nt, fs) (bindS (set_reg dest v) (\<lambda>u. returnS (None :: step_outcome)))"
      using ne by (intro ord_intros) (simp add: live_shape_def)
    have run: "bindS (set_reg dest v) (\<lambda>u. returnS None) vm1 = (r, vm')"
      using assms(1) fr Some by (simp add: pop_frame_def vm1_def)
    have "res = None" if "r = Inr res" for res
      using run that by (auto simp: result_simps)
    with ordinaryD(1) [OF ord shape1 run] ordinaryD(2) [OF ord shape1] run ne show ?thesis by fastforce
  qed
qed

section \<open>One step\<close>

definition vm_safe :: "chunk \<Rightarrow> vm \<Rightarrow> bool" where
  "vm_safe ch vm \<longleftrightarrow> vm_chunk vm = ch \<and> natives_ok (vm_natives vm) \<and>
     stack_fits ch (map frame_shape (vm_frames vm)) \<and> length (vm_frames vm) \<le> MAX_CALL_DEPTH"

lemma vm_safe_shape:
  "vm_shape vm = (ch, nt, fs) \<Longrightarrow>
     vm_safe ch vm \<longleftrightarrow> natives_ok nt \<and> stack_fits ch fs \<and> length fs \<le> MAX_CALL_DEPTH"
  by (auto simp: vm_safe_def vm_shape_def)

lemma u8_le: "unat (x :: u8) \<le> 255"
proof -
  have "unat x < 2 ^ LENGTH(8)" by (rule unsigned_less)
  then show ?thesis by simp
qed

lemma frame_of_owner: "frame_of ch at n \<Longrightarrow> owner ch at d \<Longrightarrow> n \<le> unat (f_num_registers d)"
  by (simp add: frame_of_def)

lemma frame_of_bound: "frame_of ch at n \<Longrightarrow> owner ch at d \<Longrightarrow> n \<le> 255"
  by (rule order_trans [OF frame_of_owner u8_le])

lemma small_index:
  assumes "chunk_function ch i = Some d" and "length (ch_functions ch) \<le> 2 ^ 31"
  shows "0 \<le> sint i"
proof -
  have "unat i < 2 ^ 31" using assms by (auto simp: chunk_function_def result_simps)
  then have "int (unat i) < int (2 ^ 31)" by (simp only: of_nat_less_iff)
  then have "uint i < 2 ^ 31" by simp
  then have "sint i = uint i"
    unfolding sint_uint by (intro signed_take_bit_int_eq_self order_trans [OF _ uint_ge_0]) simp_all
  then show ?thesis by simp
qed

lemma instr_operands:
  assumes "instr_ok ch at instr" and "owner ch at d" and "length (ch_functions ch) \<le> 2 ^ 31"
  shows "operands_ok ch instr"
proof -
  note b = frame_of_bound [OF _ assms(2)] and io = assms(1) [unfolded instr_ok_def Let_def]
  show ?thesis
    unfolding operands_ok_def
  proof (intro conjI impI)
    assume "i_op instr = OpLoadConst"
    then show "unat (i_imm instr) < length (ch_constants ch)" using io by simp
  next
    assume "i_op instr = OpListPack \<or> i_op instr = OpRecordPack"
    then show "window_end (i_b instr) 0 (nat (sint (i_imm instr))) \<le> 255" using io by blast
  next
    assume "i_op instr = OpMapPack"
    then show "window_end (i_b instr) 0 (2 * nat (sint (i_imm instr))) \<le> 255" using io by blast
  next
    assume "i_op instr = OpCallNative"
    then have "frame_of ch at (window_end (i_a instr) 0 (unat (i_b instr)))" using io by blast
    then show "window_end (i_a instr) 0 (unat (i_b instr)) \<le> 255" by (rule b)
  next
    assume "i_op instr = OpCallNativeFrom"
    then have "frame_of ch at (Suc (unat (i_b instr)))" using io by blast
    then show "Suc (unat (i_b instr)) \<le> 255" by (rule b)
  next
    assume "i_op instr = OpSpawn"
    then have "frame_of ch at (window_end (i_a instr) 1 (unat (i_b instr)))" using io by simp
    then show "window_end (i_a instr) 1 (unat (i_b instr)) \<le> 255" by (rule b)
  next
    assume "i_op instr = OpStartChild"
    then obtain d' where "chunk_function ch (i_imm instr) = Some d'" using io by blast
    with small_index [OF _ assms(3)] show "0 \<le> sint (i_imm instr)" "chunk_function ch (i_imm instr) \<noteq> None"
      by simp_all
  qed
qed

lemma next_pc:
  assumes "well_formed trust ch" and "owner ch at d" and "at < chunk_len ch"
    and "\<not> is_terminator (i_op (ch_code ch ! at))"
  shows "pc_fits ch d (Suc at)"
  using assms unfolding well_formed_def pc_fits_def is_terminator_iff by (cases "Suc at = chunk_len ch") auto

lemma entry_fits:
  assumes "well_formed trust ch" and "chunk_function ch i = Some d"
  shows "pc_fits ch d (unat (f_entry d))"
  using assms chunk_function_in [OF assms(2)] owner_entry unfolding well_formed_def pc_fits_def by blast

lemma exec_arms:
  "i_op instr = OpHalt \<Longrightarrow> exec_instruction ct instr = finish (bindS (get_reg 0) (\<lambda>v. returnS (RComplete v)))"
  "i_op instr = OpExit \<Longrightarrow> exec_instruction ct instr = finish (bindS (get_reg (i_a instr)) (\<lambda>v. returnS (RComplete v)))"
  "i_op instr = OpTrap \<Longrightarrow> exec_instruction ct instr = throwS (FExplicit (i_imm instr))"
  "i_op instr = OpJump \<Longrightarrow> exec_instruction ct instr = continue (apply_relative_jump (i_imm instr))"
  "i_op instr = OpBranch \<Longrightarrow> exec_instruction ct instr = continue (bindS (get_reg (i_a instr)) (\<lambda>v.
     if \<not> is_truthy v then apply_relative_jump (i_imm instr) else returnS ()))"
  "i_op instr = OpBranchTrue \<Longrightarrow> exec_instruction ct instr = continue (bindS (get_reg (i_a instr)) (\<lambda>v.
     if is_truthy v then apply_relative_jump (i_imm instr) else returnS ()))"
  "i_op instr = OpCall \<Longrightarrow> exec_instruction ct instr = continue (exec_call instr)"
  "i_op instr = OpTailCall \<Longrightarrow> exec_instruction ct instr = continue (exec_tail_call instr)"
  "i_op instr = OpReturn \<Longrightarrow> exec_instruction ct instr = bindS (get_reg (i_a instr)) pop_frame"
  by (simp_all add: exec_instruction_def exec_data_def exec_table_def exec_move_def exec_control_def
      exec_flow_def exec_receive_def exec_signal_def exec_remote_def exec_ask_def exec_relation_def Let_def)

text \<open>What a step may leave behind.\<close>

definition step_ok :: "chunk \<Rightarrow> fault + step_outcome \<Rightarrow> vm \<Rightarrow> bool" where
  "step_ok ch r vm \<longleftrightarrow> (\<forall>e. r = Inl e \<longrightarrow> \<not> structural_fault e) \<and> (r = Inr None \<longrightarrow> vm_safe ch vm) \<and>
     (\<forall>res. r = Inr (Some res) \<longrightarrow> (\<exists>v. res = RComplete v) \<or> vm_safe ch vm)"

lemma continue_ok:
  assumes "continue m vm = (r, vm')"
    and "\<And>r1. m vm = (r1, vm') \<Longrightarrow> (\<forall>e. r1 = Inl e \<longrightarrow> \<not> structural_fault e) \<and> (r1 = Inr () \<longrightarrow> vm_safe ch vm')"
  shows "step_ok ch r vm'"
proof (cases "m vm")
  case (Pair r1 vm1)
  with assms show ?thesis
    by (cases r1) (auto simp: continue_def bindS_def returnS_def step_ok_def)
qed

lemma stack_fits_tail: "stack_fits ch (f # fs) \<Longrightarrow> fs \<noteq> [] \<Longrightarrow> stack_fits ch fs"
  by (cases fs) auto

lemma stack_fits_replace:
  assumes "stack_fits ch ((f, pc, dest, n) # fs)" and "frame_fits ch (f', pc', dest, n')"
  shows "stack_fits ch ((f', pc', dest, n') # fs)"
  using assms by (cases fs) auto

lemma stack_fits_push:
  assumes "stack_fits ch ((f, pc, dest, n) # fs)" and "frame_fits ch (f', pc', Some a, n')" and "unat a < n"
  shows "stack_fits ch ((f', pc', Some a, n') # (f, pc, dest, n) # fs)"
  using assms by simp

lemma frame_after_jump:
  assumes "chunk_function ch f = Some d" and "n = unat (f_num_registers d)" and "owner ch at d"
    and "nat (int at + 1 + sint imm) = chunk_len ch \<or> owner ch (nat (int at + 1 + sint imm)) d"
    and "int at + 1 + sint imm \<le> int (chunk_len ch)"
  shows "frame_fits ch (f, nat (int at + 1 + sint imm), dest, n)"
  using assms by (auto simp: frame_fits_def pc_fits_def)

text \<open>
  The situation after a fetch: the active frame belongs to a function that owns the position
  of the fetched instruction, and its counter is one past it.
\<close>

definition fetched ::
  "chunk \<Rightarrow> nat \<Rightarrow> instruction \<Rightarrow> native_table \<Rightarrow> u32 \<Rightarrow> u8 option \<Rightarrow> nat \<Rightarrow> frame_shape list \<Rightarrow> vm \<Rightarrow> bool" where
  "fetched ch at instr nt f dest n fs vm \<longleftrightarrow>
     at < chunk_len ch \<and> instr = ch_code ch ! at \<and> instr_ok ch at instr \<and> operands_ok ch instr \<and> natives_ok nt \<and>
     (\<exists>d. chunk_function ch f = Some d \<and> n = unat (f_num_registers d) \<and> owner ch at d) \<and>
     stack_fits ch ((f, at, dest, n) # fs) \<and> length fs < MAX_CALL_DEPTH \<and>
     vm_shape vm = (ch, nt, (f, Suc at, dest, n) # fs)"

lemma fetched_live: "fetched ch at instr nt f dest n fs vm \<Longrightarrow> live_shape (vm_shape vm)"
  by (auto simp: fetched_def live_shape_def)

text \<open>An instruction that can continue leaves the frame inside its function.\<close>

lemma fetched_continues:
  assumes "fetched ch at instr nt f dest n fs vm" and "well_formed trust ch"
    and "\<not> is_terminator (i_op instr)" and "vm_shape vm' = vm_shape vm"
  shows "vm_safe ch vm'"
proof -
  from assms(1) obtain d where d: "chunk_function ch f = Some d" "n = unat (f_num_registers d)" "owner ch at d"
    and at: "at < chunk_len ch" "instr = ch_code ch ! at" by (auto simp: fetched_def)
  have "frame_fits ch (f, Suc at, dest, n)"
    using d next_pc [OF assms(2) d(3) at(1)] assms(3) at(2) by (auto simp: frame_fits_def)
  with assms(1,4) show ?thesis
    by (auto simp: vm_safe_shape fetched_def intro: stack_fits_replace)
qed

lemma jump_target:
  assumes "instr_ok ch at instr" and "i_op instr = OpJump \<or> i_op instr = OpBranch \<or> i_op instr = OpBranchTrue"
  shows "0 \<le> int at + 1 + sint (i_imm instr) \<and> int at + 1 + sint (i_imm instr) \<le> int (chunk_len ch) \<and>
    (\<forall>d. owner ch at d \<longrightarrow> nat (int at + 1 + sint (i_imm instr)) = chunk_len ch \<or>
       owner ch (nat (int at + 1 + sint (i_imm instr))) d)"
  using assms(2,1) by (elim disjE) (simp_all add: instr_ok_def Let_def)

lemma jump_ok:
  assumes "fetched ch at instr nt f dest n fs vm" and "apply_relative_jump (i_imm instr) vm = (r, vm')"
    and "i_op instr = OpJump \<or> i_op instr = OpBranch \<or> i_op instr = OpBranchTrue"
  shows "r = Inr () \<and> vm_safe ch vm'"
proof -
  from assms(1) obtain d where d: "chunk_function ch f = Some d" "n = unat (f_num_registers d)" "owner ch at d"
    and fits: "stack_fits ch ((f, at, dest, n) # fs)"
    and rest: "natives_ok nt" "length fs < MAX_CALL_DEPTH" "vm_shape vm = (ch, nt, (f, Suc at, dest, n) # fs)"
    by (auto simp: fetched_def)
  let ?t = "int at + 1 + sint (i_imm instr)"
  have "instr_ok ch at instr" using assms(1) unfolding fetched_def by blast
  from jump_target [OF this assms(3)] d(3)
  have t: "0 \<le> ?t" "?t \<le> int (chunk_len ch)" "nat ?t = chunk_len ch \<or> owner ch (nat ?t) d" by blast+
  have eq: "int (Suc at) + sint (i_imm instr) = ?t" by simp
  from jump_shape [OF assms(2) rest(3)] t(1,2)
  have shape: "r = Inr ()" "vm_shape vm' = (ch, nt, (f, nat ?t, dest, n) # fs)"
    unfolding eq by blast+
  have "stack_fits ch ((f, nat ?t, dest, n) # fs)"
    by (rule stack_fits_replace [OF fits frame_after_jump [OF d t(3) t(2)]])
  with shape rest show ?thesis by (simp add: vm_safe_shape)
qed

lemma branch_ok:
  assumes "fetched ch at instr nt f dest n fs vm" and "well_formed trust ch"
    and "i_op instr = OpBranch \<or> i_op instr = OpBranchTrue"
    and "bindS (get_reg a) (\<lambda>v. if c v then apply_relative_jump (i_imm instr) else returnS ()) vm = (r, vm')"
  shows "(\<forall>e. r = Inl e \<longrightarrow> \<not> structural_fault e) \<and> (r = Inr () \<longrightarrow> vm_safe ch vm')"
proof -
  obtain r1 vm1 where g: "get_reg a vm = (r1, vm1)" by fastforce
  have vm1: "vm1 = vm" using g by (auto simp: get_reg_def split: list.splits)
  note ord = ord_get_reg [OF fetched_live [OF assms(1)], of a]
  show ?thesis
  proof (cases r1)
    case (Inl e)
    then show ?thesis using assms(4) g ordinaryD(2) [OF ord refl] by (auto simp: bindS_def)
  next
    case (Inr v)
    have "\<not> is_terminator (i_op instr)" using assms(3) by (auto simp: is_terminator_def)
    note stay = fetched_continues [OF assms(1,2) this refl]
    show ?thesis
    proof (cases "c v")
      case True
      then have "apply_relative_jump (i_imm instr) vm = (r, vm')"
        using assms(4) g Inr vm1 by (simp add: bindS_def)
      with jump_ok [OF assms(1) this] assms(3) show ?thesis by auto
    next
      case False
      then have "r = Inr ()" "vm' = vm"
        using assms(4) g Inr vm1 by (simp_all add: bindS_def returnS_def)
      with stay show ?thesis by simp
    qed
  qed
qed

lemma call_ok:
  assumes "fetched ch at instr nt f dest n fs vm" and "well_formed trust ch" and "i_op instr = OpCall"
    and "exec_call instr vm = (r, vm')"
  shows "(\<forall>e. r = Inl e \<longrightarrow> \<not> structural_fault e) \<and> (r = Inr () \<longrightarrow> vm_safe ch vm')"
proof -
  from assms(1) obtain d where d: "chunk_function ch f = Some d" "n = unat (f_num_registers d)" "owner ch at d"
    and io: "instr_ok ch at instr" and rest: "natives_ok nt" "vm_shape vm = (ch, nt, (f, Suc at, dest, n) # fs)"
    by (auto simp: fetched_def)
  from io assms(3) obtain d' where d': "chunk_function ch (i_imm instr) = Some d'" "f_arity d' = i_b instr"
    and w: "frame_of ch at (Suc (unat (i_a instr)))" "frame_of ch at (window_end (i_a instr) 0 (unat (i_b instr)))"
    unfolding instr_ok_def Let_def by auto
  have a: "unat (i_a instr) < n" using frame_of_owner [OF w(1) d(3)] d(2) by simp
  have "vm_safe ch vm" by (rule fetched_continues [OF assms(1,2)]) (simp_all add: assms(3) is_terminator_def)
  then have fits: "stack_fits ch ((f, Suc at, dest, n) # fs)" using vm_safe_shape [OF rest(2)] by simp
  have "frame_fits ch (i_imm instr, unat (f_entry d'), Some (i_a instr), unat (f_num_registers d'))"
    using d'(1) entry_fits [OF assms(2) d'(1)] by (auto simp: frame_fits_def)
  note pushed = stack_fits_push [OF fits this a]
  from call_shape [OF assms(4) rest(2) _ d' frame_of_bound [OF w(2) d(3)]] pushed rest(1)
  show ?thesis by (auto simp: vm_safe_shape)
qed

lemma tail_call_ok:
  assumes "fetched ch at instr nt f dest n fs vm" and "well_formed trust ch" and "i_op instr = OpTailCall"
    and "exec_tail_call instr vm = (r, vm')"
  shows "(\<forall>e. r = Inl e \<longrightarrow> \<not> structural_fault e) \<and> (r = Inr () \<longrightarrow> vm_safe ch vm')"
proof -
  from assms(1) obtain d where d: "chunk_function ch f = Some d" "owner ch at d"
    and io: "instr_ok ch at instr" and fits: "stack_fits ch ((f, at, dest, n) # fs)"
    and rest: "natives_ok nt" "length fs < MAX_CALL_DEPTH" "vm_shape vm = (ch, nt, (f, Suc at, dest, n) # fs)"
    by (auto simp: fetched_def)
  from io assms(3) obtain d' where d': "chunk_function ch (i_imm instr) = Some d'" "f_arity d' = i_b instr"
    and w: "frame_of ch at (window_end (i_a instr) 0 (unat (i_b instr)))"
    unfolding instr_ok_def Let_def by auto
  have "frame_fits ch (i_imm instr, unat (f_entry d'), dest, unat (f_num_registers d'))"
    using d'(1) entry_fits [OF assms(2) d'(1)] by (auto simp: frame_fits_def)
  note replaced = stack_fits_replace [OF fits this]
  from tail_call_shape [OF assms(4) rest(3) d' frame_of_bound [OF w d(2)]] replaced rest(1,2)
  show ?thesis by (auto simp: vm_safe_shape)
qed

lemma return_ok:
  assumes "pop_frame v vm = (r, vm')" and "vm_shape vm = (ch, nt, (f, pc, dest, n) # fs)"
    and "stack_fits ch ((f, pc', dest, n) # fs)" and "natives_ok nt" and "length fs < MAX_CALL_DEPTH"
  shows "step_ok ch r vm'"
proof -
  have "fs = [] \<Longrightarrow> fst (snd (snd (f, pc, dest, n))) = None" using assms(3) by simp
  with pop_shape [OF assms(1,2)] stack_fits_tail [OF assms(3)] assms(4,5) show ?thesis
    by (auto simp: step_ok_def vm_safe_shape)
qed

lemma halt_ok:
  assumes "fetched ch at instr nt f dest n fs vm" and "finish (bindS (get_reg a) (\<lambda>v. returnS (RComplete v))) vm = (r, vm')"
  shows "step_ok ch r vm'"
proof -
  obtain r1 vm1 where g: "get_reg a vm = (r1, vm1)" by fastforce
  with assms(2) ordinaryD(2) [OF ord_get_reg [OF fetched_live [OF assms(1)]] refl] show ?thesis
    by (cases r1) (auto simp: finish_def bindS_def returnS_def step_ok_def)
qed

lemma plain_ok:
  assumes "fetched ch at instr nt f dest n fs vm" and "well_formed trust ch"
    and "\<not> moves_control (i_op instr)" and "\<not> is_terminator (i_op instr)"
    and "exec_instruction ct instr vm = (r, vm')"
  shows "step_ok ch r vm'"
proof -
  have S: "operands_ok (fst (vm_shape vm)) instr" "natives_ok (fst (snd (vm_shape vm)))"
    using assms(1) by (auto simp: fetched_def)
  note ord = ord_exec_instruction [OF fetched_live [OF assms(1)] S assms(3), of ct]
  have "vm_safe ch vm'"
    by (rule fetched_continues [OF assms(1,2,4) ordinaryD(1) [OF ord refl assms(5)]])
  with ordinaryD(2) [OF ord refl] assms(5) show ?thesis by (auto simp: step_ok_def)
qed

lemma exec_ok:
  assumes "fetched ch at instr nt f dest n fs vm" and "well_formed trust ch"
    and "exec_instruction ct instr vm = (r, vm')"
  shows "step_ok ch r vm'"
proof -
  consider (plain) "\<not> moves_control (i_op instr)" "\<not> is_terminator (i_op instr)"
    | (halt) "i_op instr = OpHalt" | (exit) "i_op instr = OpExit" | (trap) "i_op instr = OpTrap"
    | (jump) "i_op instr = OpJump" | (branch) "i_op instr = OpBranch" | (brt) "i_op instr = OpBranchTrue"
    | (call) "i_op instr = OpCall" | (tail) "i_op instr = OpTailCall" | (ret) "i_op instr = OpReturn"
    unfolding moves_control_def is_terminator_def by fast
  then show ?thesis
  proof cases
    case plain then show ?thesis using plain_ok [OF assms(1,2) _ _ assms(3)] by blast
  next
    case halt then show ?thesis using halt_ok [OF assms(1)] assms(3) by (simp add: exec_arms)
  next
    case exit then show ?thesis using halt_ok [OF assms(1)] assms(3) by (simp add: exec_arms)
  next
    case trap then show ?thesis using assms(3) by (auto simp: exec_arms throwS_def step_ok_def)
  next
    case jump
    then have "continue (apply_relative_jump (i_imm instr)) vm = (r, vm')" using assms(3) by (simp add: exec_arms)
    then show ?thesis by (rule continue_ok) (use jump jump_ok [OF assms(1)] in blast)
  next
    case branch
    note assms(3) [unfolded exec_arms(5) [OF branch]]
    then show ?thesis by (rule continue_ok) (rule branch_ok [OF assms(1,2) disjI1 [OF branch]])
  next
    case brt
    note assms(3) [unfolded exec_arms(6) [OF brt]]
    then show ?thesis by (rule continue_ok) (rule branch_ok [OF assms(1,2) disjI2 [OF brt]])
  next
    case call
    note assms(3) [unfolded exec_arms(7) [OF call]]
    then show ?thesis by (rule continue_ok) (rule call_ok [OF assms(1,2) call])
  next
    case tail
    note assms(3) [unfolded exec_arms(8) [OF tail]]
    then show ?thesis by (rule continue_ok) (rule tail_call_ok [OF assms(1,2) tail])
  next
    case ret
    obtain r1 vm1 where g: "get_reg (i_a instr) vm = (r1, vm1)" by fastforce
    have vm1: "vm1 = vm" using g by (auto simp: get_reg_def split: list.splits)
    from assms(1) have *: "vm_shape vm = (ch, nt, (f, Suc at, dest, n) # fs)"
      "stack_fits ch ((f, at, dest, n) # fs)" "natives_ok nt" "length fs < MAX_CALL_DEPTH"
      by (simp_all add: fetched_def)
    show ?thesis
    proof (cases r1)
      case (Inl e)
      then show ?thesis using assms(3) ret g ordinaryD(2) [OF ord_get_reg [OF fetched_live [OF assms(1)]] refl]
        by (auto simp: exec_arms bindS_def step_ok_def)
    next
      case (Inr v)
      then have "pop_frame v vm = (r, vm')" using assms(3) ret g vm1 by (simp add: exec_arms bindS_def)
      then show ?thesis by (rule return_ok [OF _ *])
    qed
  qed
qed

lemma fetch_ok:
  assumes "vm_safe ch vm" and "well_formed trust ch" and "length (ch_functions ch) \<le> 2 ^ 31"
    and "fetch vm = (m, vm1)"
  shows "(m = Inr None \<and> vm1 = vm) \<or>
    (\<exists>instr at nt f dest n fs. m = Inr (Some instr) \<and> fetched ch at instr nt f dest n fs vm1)"
proof -
  from assms(1) obtain fr rest where fr: "vm_frames vm = fr # rest"
    by (cases "vm_frames vm") (auto simp: vm_safe_def)
  then have fits: "stack_fits ch (frame_shape fr # map frame_shape rest)" and depth: "length rest < MAX_CALL_DEPTH"
    and ch: "vm_chunk vm = ch" and nat: "natives_ok (vm_natives vm)"
    using assms(1) by (simp_all add: vm_safe_def)
  show ?thesis
  proof (cases "fr_pc fr < chunk_len ch")
    case False
    with fr assms(4) ch show ?thesis by (auto simp: fetch_def chunk_len_def list_get_def)
  next
    case True
    define instr where "instr = ch_code ch ! fr_pc fr"
    have "frame_fits ch (frame_shape fr)" using fits by (cases rest) simp_all
    then obtain d where d: "chunk_function ch (fr_function fr) = Some d"
      "length (fr_registers fr) = unat (f_num_registers d)" "owner ch (fr_pc fr) d"
      using True by (auto simp: frame_fits_def frame_shape_def pc_fits_def)
    have io: "instr_ok ch (fr_pc fr) instr"
      using assms(2) True by (auto simp: well_formed_def instr_def)
    have "fetched ch (fr_pc fr) instr (vm_natives vm) (fr_function fr) (fr_dest_reg fr)
        (length (fr_registers fr)) (map frame_shape rest) (set_top (fr\<lparr>fr_pc := fr_pc fr + 1\<rparr>) vm)"
      unfolding fetched_def
      using True io instr_operands [OF io d(3) assms(3)] d fits depth ch nat fr
      by (auto simp: instr_def frame_shape_def vm_shape_def set_top_def)
    moreover have "m = Inr (Some instr)" "vm1 = set_top (fr\<lparr>fr_pc := fr_pc fr + 1\<rparr>) vm"
      using assms(4) True fr ch by (auto simp: fetch_def instr_def chunk_len_def list_get_def)
    ultimately show ?thesis by blast
  qed
qed

lemma step_safe:
  assumes "vm_safe ch vm" and "well_formed trust ch" and "length (ch_functions ch) \<le> 2 ^ 31"
    and "step ct vm = (r, vm')"
  shows "step_ok ch r vm'"
proof -
  define vm0 where "vm0 = vm\<lparr>vm_instructions := vm_instructions vm + 1\<rparr>"
  have safe: "vm_safe ch vm0" using assms(1) by (simp add: vm_safe_def vm0_def)
  obtain m vm1 where g: "fetch vm0 = (m, vm1)" by fastforce
  from fetch_ok [OF safe assms(2,3) g] show ?thesis
  proof (elim disjE exE conjE)
    assume "m = Inr None" "vm1 = vm0"
    with g assms(4) have pop: "pop_frame VUnit vm0 = (r, vm')" by (simp add: step_def bindS_def vm0_def)
    obtain fr rest where fr: "vm_frames vm0 = fr # rest"
      using safe by (cases "vm_frames vm0") (auto simp: vm_safe_def)
    with safe have "stack_fits ch (frame_shape fr # map frame_shape rest)" "natives_ok (vm_natives vm0)"
      "length (map frame_shape rest) < MAX_CALL_DEPTH"
      and "vm_shape vm0 = (ch, vm_natives vm0, frame_shape fr # map frame_shape rest)"
      by (simp_all add: vm_safe_def vm_shape_def)
    then show ?thesis unfolding frame_shape_def [of fr] by (intro return_ok [OF pop])
  next
    fix instr at nt f dest n fs
    assume m: "m = Inr (Some instr)" and f: "fetched ch at instr nt f dest n fs vm1"
    from m g assms(4) have "exec_instruction ct instr vm1 = (r, vm')" by (simp add: step_def bindS_def vm0_def)
    with exec_ok [OF f assms(2)] show ?thesis by blast
  qed
qed

section \<open>A slice\<close>

text \<open>A trap is reported only by the loop: no instruction returns one as its result.\<close>

definition yields :: "('a \<Rightarrow> bool) \<Rightarrow> 'a vmop \<Rightarrow> bool" where
  "yields P m \<longleftrightarrow> (\<forall>vm x vm'. m vm = (Inr x, vm') \<longrightarrow> P x)"

fun not_trap :: "vm_result \<Rightarrow> bool" where
  "not_trap (RTrap e) = False"
| "not_trap _ = True"

definition no_trap :: "step_outcome \<Rightarrow> bool" where
  "no_trap out \<longleftrightarrow> (case out of None \<Rightarrow> True | Some r \<Rightarrow> not_trap r)"

lemma yieldsD: "yields P m \<Longrightarrow> m vm = (Inr x, vm') \<Longrightarrow> P x"
  by (auto simp: yields_def)

lemma yields_bind: "(\<And>x. yields P (f x)) \<Longrightarrow> yields P (bindS m f)"
  by (auto simp: yields_def bindS_def split: prod.splits sum.splits)

lemma yields_return: "P x \<Longrightarrow> yields P (returnS x)"
  by (simp add: yields_def returnS_def)

lemma yields_throw: "yields P (throwS e)"
  by (simp add: yields_def throwS_def)

lemma yields_if: "yields P m \<Longrightarrow> yields P n \<Longrightarrow> yields P (if b then m else n)"
  by simp

lemma yields_continue: "yields no_trap (continue m)"
  unfolding continue_def by (intro yields_bind yields_return) (simp add: no_trap_def)

lemma yields_finish: "yields not_trap m \<Longrightarrow> yields no_trap (finish m)"
  by (auto simp: yields_def finish_def bindS_def returnS_def no_trap_def split: prod.splits sum.splits)

lemma yields_cmp: "(\<And>x. yields P (f x)) \<Longrightarrow> yields P n \<Longrightarrow> yields P (case m of None \<Rightarrow> n | Some x \<Rightarrow> f x)"
  by (cases m) simp_all

lemma yields_str:
  "(\<And>x. yields P (f x)) \<Longrightarrow> yields P n \<Longrightarrow>
     yields P (case v of VStr name \<Rightarrow> f name | _ \<Rightarrow> n)"
  by (cases v) simp_all

lemma yields_start_child: "yields not_trap (start_child instr)"
  by (auto simp: yields_def start_child_def Let_def split: if_splits)

lemma yields_pop: "yields no_trap (pop_frame v)"
  by (auto simp: yields_def pop_frame_def no_trap_def bindS_def returnS_def
      split: list.splits option.splits sum.splits prod.splits)

lemmas yields_rules = yields_bind yields_return yields_throw yields_if yields_continue yields_finish
  yields_cmp yields_str yields_start_child yields_pop

lemma yields_exec: "yields no_trap (exec_instruction ct instr)"
proof -
  have relation: "yields no_trap (exec_relation instr)"
    unfolding exec_relation_def Let_def by (intro yields_rules; simp)
  have ask: "yields no_trap (exec_ask instr m)" if "yields no_trap m" for m
    unfolding exec_ask_def Let_def by (intro yields_rules that; simp)
  have remote: "yields no_trap (exec_remote instr m)" if "yields no_trap m" for m
    unfolding exec_remote_def Let_def by (intro yields_rules that; simp)
  have signal: "yields no_trap (exec_signal instr m)" if "yields no_trap m" for m
    unfolding exec_signal_def Let_def by (intro yields_rules that; simp)
  have receive: "yields no_trap (exec_receive instr m)" if "yields no_trap m" for m
    unfolding exec_receive_def Let_def by (intro yields_rules that; simp)
  have flow: "yields no_trap (exec_flow instr m)" if "yields no_trap m" for m
    unfolding exec_flow_def Let_def by (intro yields_rules that; simp)
  have control: "yields no_trap (exec_control ct instr m)" if "yields no_trap m" for m
    unfolding exec_control_def Let_def by (intro yields_rules that; simp)
  have move: "yields no_trap (exec_move instr m)" if "yields no_trap m" for m
    unfolding exec_move_def Let_def by (intro yields_rules that; simp)
  have table: "yields no_trap (exec_table instr m)" if "yields no_trap m" for m
    unfolding exec_table_def Let_def by (intro yields_rules that; simp)
  have data: "yields no_trap (exec_data instr m)" if "yields no_trap m" for m
    unfolding exec_data_def Let_def by (intro yields_rules that; simp add: no_trap_def)
  show ?thesis unfolding exec_instruction_def by (intro relation ask remote signal receive flow control move table data)
qed

lemma step_no_trap: "step ct vm = (Inr (Some r), vm') \<Longrightarrow> not_trap r"
proof -
  have "yields no_trap (bindS fetch (\<lambda>m. case m of None \<Rightarrow> pop_frame VUnit | Some instr \<Rightarrow> exec_instruction ct instr))"
    by (intro yields_bind yields_cmp yields_exec yields_pop)
  from yieldsD [OF this] show "step ct vm = (Inr (Some r), vm') \<Longrightarrow> not_trap r"
    unfolding step_def by (fastforce simp: no_trap_def)
qed

definition slice_ok :: "chunk \<Rightarrow> vm_result \<Rightarrow> vm \<Rightarrow> bool" where
  "slice_ok ch res vm \<longleftrightarrow>
     (case res of RTrap e \<Rightarrow> \<not> structural_fault e | RComplete _ \<Rightarrow> True | _ \<Rightarrow> vm_safe ch vm)"

lemma run_loop_safe:
  assumes "well_formed trust ch" and "length (ch_functions ch) \<le> 2 ^ 31"
  shows "vm_safe ch vm \<Longrightarrow> run_loop ct n vm = (res, vm') \<Longrightarrow> slice_ok ch res vm'"
proof (induction n arbitrary: vm)
  case 0
  then show ?case by (auto simp: slice_ok_def)
next
  case (Suc n)
  obtain r vm1 where st: "step ct vm = (r, vm1)" by fastforce
  have ok: "step_ok ch r vm1" by (rule step_safe [OF Suc.prems(1) assms st])
  show ?case
  proof (cases r)
    case (Inl e)
    with Suc.prems(2) st ok show ?thesis by (auto simp: slice_ok_def step_ok_def)
  next
    case (Inr out)
    show ?thesis
    proof (cases out)
      case None
      with Inr ok st Suc.IH [of vm1] Suc.prems(2) show ?thesis by (simp add: step_ok_def)
    next
      case (Some r')
      with Inr st Suc.prems(2) have "res = r'" "vm' = vm1" by simp_all
      moreover have "not_trap r'" using step_no_trap st Some Inr by blast
      ultimately show ?thesis using ok Some Inr
        by (cases r') (auto simp: slice_ok_def step_ok_def)
    qed
  qed
qed

section \<open>The life of a machine\<close>

text \<open>
  Everything the scheduler does with a machine: build it for a function, attach the memory
  budget and the quota, run a slice, and put the answer of the scheduler into a register
  before the next one.  A machine that has completed or trapped is not run again.
\<close>

definition suspended :: "vm_result \<Rightarrow> bool" where
  "suspended res \<longleftrightarrow> (case res of RTrap _ \<Rightarrow> False | RComplete _ \<Rightarrow> False | _ \<Rightarrow> True)"

inductive session :: "chunk \<Rightarrow> native_table \<Rightarrow> vm \<Rightarrow> bool" for ch natives where
  session_start: "Vm_with_native_gate ch natives gate function args = Inr vm \<Longrightarrow> session ch natives vm"
| session_budget: "session ch natives vm \<Longrightarrow> session ch natives (set_memory_budget mb vm)"
| session_quota: "session ch natives vm \<Longrightarrow> set_quota q vm = (r, q', vm') \<Longrightarrow> session ch natives vm'"
| session_slice: "session ch natives vm \<Longrightarrow> run ct budget vm = (res, vm') \<Longrightarrow> suspended res \<Longrightarrow> session ch natives vm'"
| session_resume: "session ch natives vm \<Longrightarrow> resume_with dest v vm = (r, vm') \<Longrightarrow> session ch natives vm'"

lemma load_args_loop_shape:
  "load_frame_args_loop i args fr = Inr fr' \<Longrightarrow> frame_shape fr' = frame_shape fr"
  by (induction i args fr rule: load_frame_args_loop.induct) (auto simp: frame_shape_def split: if_splits)

lemma start_safe:
  assumes "Vm_with_native_gate ch natives gate function args = Inr vm" and "well_formed trust ch" and "natives_ok natives"
  shows "vm_safe ch vm"
proof -
  from assms(1) obtain d fr where d: "chunk_function ch function = Some d"
    and fr: "load_frame_args ((Frame_new function (f_num_registers d) None)\<lparr>fr_pc := unat (f_entry d)\<rparr>) args (f_arity d) = Inr fr"
    and vm: "vm_chunk vm = ch" "vm_natives vm = natives" "vm_frames vm = [fr]"
    by (auto simp: Vm_with_native_gate_def result_simps split: sum.splits option.splits)
  have "frame_shape fr = (function, unat (f_entry d), None, unat (f_num_registers d))"
    using load_args_loop_shape [OF fr [unfolded load_frame_args_def]] by (simp add: frame_shape_def Frame_new_def)
  with d entry_fits [OF assms(2) d] vm assms(3) show ?thesis
    by (auto simp: vm_safe_def frame_fits_def MAX_CALL_DEPTH_def)
qed

lemma set_quota_shape:
  assumes "set_quota q vm = (r, q', vm')"
  shows "vm_shape vm' = vm_shape vm"
proof -
  have length_fold: "foldE (\<lambda>fr (per_frame, acc). bindE (frame_bytes fr) (\<lambda>bytes.
        bindE (ok_or fit_fault (checked_add acc bytes)) (\<lambda>acc. Inr (per_frame @ [bytes], acc)))) frs (pf, acc)
      = Inr (pf', acc') \<Longrightarrow> length pf' = length pf + length frs" for frs pf acc pf' acc'
    by (induction frs arbitrary: pf acc) (auto simp: result_simps split: sum.splits)
  have shapes: "length pf = length frs \<Longrightarrow>
      map frame_shape (map2 (\<lambda>fr bytes. fr\<lparr>fr_heap_charge := bytes\<rparr>) frs pf) = map frame_shape frs" for frs pf
    by (induction frs pf rule: list_induct2') (auto simp: frame_shape_def)
  from assms show ?thesis
    by (auto simp: set_quota_def vm_shape_def shapes simp del: map_map dest!: length_fold
        split: sum.splits option.splits prod.splits)
qed

lemma session_safe:
  assumes "session ch natives vm" and "well_formed trust ch" and "length (ch_functions ch) \<le> 2 ^ 31"
    and "natives_ok natives"
  shows "vm_safe ch vm"
  using assms(1)
proof (induction rule: session.induct)
  case (session_start gate fn args vm)
  then show ?case by (rule start_safe [OF _ assms(2,4)])
next
  case (session_budget vm mb)
  then show ?case by (simp add: vm_safe_def set_memory_budget_def)
next
  case (session_quota vm q r q' vm')
  from set_quota_shape [OF session_quota(2)] session_quota(3) show ?case
    by (simp add: vm_safe_def vm_shape_def) (metis length_map)
next
  case (session_slice vm ct budget res vm')
  from run_loop_safe [OF assms(2,3) session_slice.IH session_slice(2) [unfolded run_def]] session_slice(3)
  show ?case by (cases res) (simp_all add: slice_ok_def suspended_def)
next
  case (session_resume vm dest v r vm')
  have "live_shape (vm_shape vm)"
    using session_resume.IH by (cases "vm_frames vm") (auto simp: vm_safe_def live_shape_def vm_shape_def)
  from ordinaryD(1) [OF ord_set_reg [OF this] refl session_resume(2) [unfolded resume_with_def]] session_resume.IH
  show ?case by (simp add: vm_safe_def vm_shape_def) (metis length_map)
qed

text \<open>A module as the loader takes it: it decodes, and the verifier accepts it.\<close>

definition admitted :: "u8 list \<Rightarrow> trust_level \<Rightarrow> chunk \<Rightarrow> bool" where
  "admitted bytes trust ch \<longleftrightarrow>
     decode_with bytes trust = Inr ch \<and> verify_with ch \<lparr>vc_trust = trust\<rparr> = Inr ()"

lemma admitted_safe:
  assumes "admitted bytes trust ch" and "natives_ok natives" and "session ch natives vm"
  shows "vm_safe ch vm" "well_formed trust ch" "length (ch_functions ch) \<le> 2 ^ 31"
proof -
  show wf: "well_formed trust ch" using assms(1) by (simp add: admitted_def verify_with_iff)
  from assms(1) obtain abi where "chunk_ok trust abi ch"
    unfolding admitted_def using decode_canonical by blast
  then show small: "length (ch_functions ch) \<le> 2 ^ 31"
    by (simp add: chunk_ok_def items_ok_def MAX_ITEMS_def)
  show "vm_safe ch vm" by (rule session_safe [OF assms(3) wf small assms(2)])
qed

text \<open>
  A module with two functions: \<^verbatim>\<open>main\<close> calls the second one, which divides its
  argument by zero.
\<close>

definition divider :: chunk where
  "divider = \<lparr>ch_name = [0x6D], ch_constants = [],
     ch_code = [instruction_a_imm OpLoadImm 0 5, instruction_new OpCall 0 1 0 1, instruction_abc OpReturn 0 0 0,
       instruction_a_imm OpLoadImm 1 0, instruction_abc OpDiv 0 0 1, instruction_abc OpReturn 0 0 0],
     ch_functions = [\<lparr>f_name = [0x66], f_entry = 0, f_arity = 0, f_num_registers = 1\<rparr>,
       \<lparr>f_name = [0x67], f_entry = 3, f_arity = 1, f_num_registers = 2\<rparr>]\<rparr>"

definition no_authority :: native_gate where
  "no_authority = \<lparr>has_native = False, gate_mask = [], authority_epoch = 0, gate_flow_cell = 0,
     native_epoch = 0, gate_native_cell = 0\<rparr>"

definition divider_vm :: vm where
  "divider_vm = \<lparr>vm_chunk = divider, vm_natives = [], vm_gate = no_authority,
     vm_frames = [\<lparr>fr_function = 0, fr_pc = 0, fr_registers = [VUnit], fr_dest_reg = None, fr_heap_charge = 0\<rparr>],
     vm_instructions = 0, vm_next_request_id = 1, vm_quota = None, vm_memory = None, vm_dict = None,
     vm_dict_bytes = 0\<rparr>"

lemmas divider_defs = divider_def instruction_a_imm_def instruction_abc_def instruction_new_def

lemma divider_verifies: "verify_with divider \<lparr>vc_trust = Untrusted\<rparr> = Inr ()"
  by (simp add: divider_defs verify_with_def register_limits_def chunk_len_def fill_span_def group_limit_def
      verify_function_def verify_instruction_def verify_call_def check_slot_def check_window_def
      chunk_function_def list_get_def reject_fallthrough_def reject_fallthrough_at_def exclusive_end_def
      is_terminator_def remdups_adj.simps Let_def insort_key.simps)

lemma divider_admitted: "admitted (encode divider) Untrusted divider"
proof -
  have "chunk_ok Untrusted ABI_VERSION_RECORDS divider"
    by (simp add: chunk_ok_def divider_defs string_ok_def items_ok_def MAX_NAME_def MAX_ITEMS_def function_ok_def)
  from decode_encode_as [OF chunk_ok_module_abi [OF this] supported_module_abi]
  have "decode_with (encode divider) Untrusted = Inr divider" unfolding encode_eq .
  with divider_verifies show ?thesis by (simp add: admitted_def)
qed

lemma divider_session: "session divider [] divider_vm"
  by (rule session_start [of _ _ no_authority 0 "[]"])
    (simp add: Vm_with_native_gate_def divider_defs divider_vm_def chunk_function_def list_get_def ok_or_def
      load_frame_args_def Frame_new_def)

lemma run_loop_numeral:
  "run_loop ct (numeral k) vm =
     (case step ct vm of
        (Inl fault, vm1) \<Rightarrow> (RTrap fault, vm1)
      | (Inr (Some r), vm1) \<Rightarrow> (r, vm1)
      | (Inr None, vm1) \<Rightarrow> run_loop ct (pred_numeral k) vm1)"
  by (simp add: numeral_eq_Suc)

lemma two_registers: "replicate 2 x = [x, x]"
  by (simp add: numeral_eq_Suc)

lemma divider_run: "fst (run CapTable_new 10 divider_vm) = RTrap FDivideByZero"
  by (simp add: run_def divider_vm_def divider_defs run_loop_numeral step_def bindS_def fetch_def list_get_def
      set_top_def exec_instruction_def exec_data_def exec_table_def exec_move_def exec_control_def continue_def
      set_reg_def returnS_def exec_call_def MAX_CALL_DEPTH_def callee_def ok_or_def chunk_function_def
      check_arity_def liftS_def guardE_def gather_regs_def get_reg_def load_frame_args_charged_def
      Frame_new_def charge_arg_def gather_offsets_def reg_at_def heap_charge_of_def
      numeric_result_def div_result_def both_ints_def two_registers
      push_frame_def numeric_binop_def Let_def)

text \<open>
  C18: code that passed the verifier never traps for a structural reason.  Whatever the
  scheduler does with the machine of an admitted module -- the function it starts, the
  arguments, the slices, the values it resumes with, the budgets it attaches -- a slice that
  traps does so for a reason the program is answerable for (a division by zero, a type
  mismatch, a quota, an explicit trap), never because of a jump, a function index, an
  argument count, a constant index, a register window, or an internal invariant.  The host's
  native functions are assumed not to report such a fault on their own.
\<close>

theorem verified_code_never_traps_structurally:
  assumes "admitted bytes trust ch" and "natives_ok natives" and "session ch natives vm"
    and "fst (run ct budget vm) = RTrap e"
  shows "\<not> structural_fault e"
proof -
  obtain vm' where "run_loop ct (unat budget) vm = (RTrap e, vm')"
    using assms(4) by (metis run_def prod.collapse)
  from run_loop_safe [OF admitted_safe(2,3,1) [OF assms(1-3)] this] show ?thesis by (simp add: slice_ok_def)
qed

theorem verified_code_never_traps_structurally_witness:
  "fst (run CapTable_new 10 divider_vm) = RTrap FDivideByZero \<and> \<not> structural_fault FDivideByZero"
  using divider_run
    verified_code_never_traps_structurally [OF divider_admitted _ divider_session divider_run]
  by (simp add: natives_ok_def)

text \<open>
  C19: the call stack of a machine that runs an admitted module is always in order.  There is
  at least one frame and at most the configured depth; every frame belongs to a function of
  the module, has exactly the registers that function declares, and its program counter is
  at an instruction the function owns or at the end of the code; and every frame but the
  outermost one returns into a register its caller has.
\<close>

theorem verified_stack_invariant:
  assumes "admitted bytes trust ch" and "natives_ok natives" and "session ch natives vm"
  shows "vm_frames vm \<noteq> [] \<and> length (vm_frames vm) \<le> MAX_CALL_DEPTH \<and>
    stack_fits ch (map frame_shape (vm_frames vm))"
  using admitted_safe(1) [OF assms] by (cases "vm_frames vm") (auto simp: vm_safe_def)

theorem verified_stack_invariant_witness: "vm_frames divider_vm \<noteq> []"
  using verified_stack_invariant [OF divider_admitted _ divider_session] by (simp add: natives_ok_def)

end
