(* ===== verification/Bf_Queue.thy ===== *)
theory Bf_Queue
  imports Bf_Value Bf_Isa
begin

text \<open>
  The bounded hop queue of a mailbox (\<^verbatim>\<open>scheduler/mailbox/queue.rs\<close>,
  \<^verbatim>\<open>capacity.rs\<close>, \<^verbatim>\<open>policy.rs\<close>) and the wait filters of
  \<^verbatim>\<open>scheduler/mailbox/mod.rs\<close>.  The queue is a growable ring of optional slots with
  a head and a length, a bound on the number of hops and a byte budget.  An index outside
  the ring is a panic of the source and an error value here; the refinement lemmas show
  that it never happens and that every operation acts on the list of queued hops as its
  specification says, with the byte counter equal to the sum of the hops' sizes.
\<close>

section \<open>Wait filters\<close>

datatype wait_filter =
    FAny
  | FTag u16
  | FPayloadKind u8
  | FTagPayload u16 i64
  | FTagValue u16 "value"
  | FTagCmp u16 int_cmp i64
  | FCorrelation u64 "u64 option"
  | FTaggedCorrelation u16 u64

definition matches :: "wait_filter \<Rightarrow> value \<Rightarrow> bool" where
  "matches f v =
     (case f of
        FAny \<Rightarrow> True
      | FTag expected_tag \<Rightarrow>
          (case as_message v of Some m \<Rightarrow> msg_tag m = expected_tag | None \<Rightarrow> False)
      | FPayloadKind kind \<Rightarrow>
          (case as_message v of Some m \<Rightarrow> wire_tag (msg_payload m) = kind | None \<Rightarrow> False)
      | FTagPayload tag payload \<Rightarrow>
          (case as_message v of
             Some m \<Rightarrow> msg_tag m = tag \<and> (case msg_payload m of VInt n \<Rightarrow> n = payload | _ \<Rightarrow> False)
           | None \<Rightarrow> False)
      | FTagValue tag payload \<Rightarrow> payload_matches tag payload v
      | FTagCmp tag cmp bound \<Rightarrow>
          (case as_message v of
             Some m \<Rightarrow> msg_tag m = tag \<and> (case msg_payload m of VInt n \<Rightarrow> int_cmp_holds cmp n bound | _ \<Rightarrow> False)
           | None \<Rightarrow> False)
      | FCorrelation expect_request_id expect_sender \<Rightarrow>
          (case as_message v of
             Some m \<Rightarrow> msg_request_id m = expect_request_id \<and>
               (case expect_sender of Some s \<Rightarrow> msg_sender m = s | None \<Rightarrow> True)
           | None \<Rightarrow> False)
      | FTaggedCorrelation tag expect_request_id \<Rightarrow>
          (case as_message v of
             Some m \<Rightarrow> msg_tag m = tag \<and> msg_request_id m = expect_request_id
           | None \<Rightarrow> False))"

section \<open>Configuration\<close>

definition CAPACITY_MIN :: u32 where "CAPACITY_MIN = 1"
definition CAPACITY_MAX :: u32 where "CAPACITY_MAX = 1048576"
definition CAPACITY_DEFAULT :: u32 where "CAPACITY_DEFAULT = 256"

definition MailboxCapacity_new :: "u32 \<Rightarrow> u32 option" where
  "MailboxCapacity_new v = (if v < CAPACITY_MIN \<or> CAPACITY_MAX < v then None else Some v)"

definition BYTES_MIN :: nat where "BYTES_MIN = 2 ^ 10"
definition BYTES_MAX :: nat where "BYTES_MAX = 2 ^ 30"
definition BYTES_DEFAULT :: nat where "BYTES_DEFAULT = 2 ^ 22"

definition MailboxBytes_new :: "nat \<Rightarrow> nat option" where
  "MailboxBytes_new v = (if v < BYTES_MIN \<or> BYTES_MAX < v then None else Some v)"

datatype overflow_policy = Reject | DropNewest | DropOldest

record mailbox_config =
  mc_capacity :: u32
  mc_bytes :: nat
  mc_overflow :: overflow_policy

definition MailboxConfig_DEFAULT :: mailbox_config where
  "MailboxConfig_DEFAULT = \<lparr>mc_capacity = CAPACITY_DEFAULT, mc_bytes = BYTES_DEFAULT, mc_overflow = Reject\<rparr>"

definition MailboxConfig_new :: "u32 \<Rightarrow> overflow_policy \<Rightarrow> mailbox_config" where
  "MailboxConfig_new capacity overflow =
     \<lparr>mc_capacity = capacity, mc_bytes = BYTES_DEFAULT, mc_overflow = overflow\<rparr>"

definition with_bytes :: "nat \<Rightarrow> mailbox_config \<Rightarrow> mailbox_config" where
  "with_bytes bytes c = c\<lparr>mc_bytes := bytes\<rparr>"

datatype mailbox_full_reason = MessageLimit | ByteLimit | Closed

datatype enqueue_effect = Enqueued | DroppedNewest | DroppedOldest

section \<open>The ring\<close>

record mqueue =
  mq_buf :: "value option list"
  mq_head :: nat
  mq_len :: nat
  mq_limit :: nat
  mq_bytes :: nat
  mq_byte_limit :: nat

text \<open>A slot outside the ring; a remainder by an empty ring's size ends here as well.\<close>

datatype ring_panic = IndexPanic nat nat

type_synonym 'a mqop = "(mqueue, ring_panic, 'a) fallible"

definition MailboxQueue_new :: "nat \<Rightarrow> nat \<Rightarrow> mqueue" where
  "MailboxQueue_new limit byte_limit =
     \<lparr>mq_buf = [], mq_head = 0, mq_len = 0, mq_limit = limit, mq_bytes = 0, mq_byte_limit = byte_limit\<rparr>"

definition can_ever_fit :: "nat \<Rightarrow> mqueue \<Rightarrow> bool" where
  "can_ever_fit cost q \<longleftrightarrow> cost \<le> mq_byte_limit q \<and> 1 \<le> mq_limit q"

definition is_full :: "mqueue \<Rightarrow> bool" where
  "is_full q \<longleftrightarrow> mq_limit q \<le> mq_len q"

definition would_exceed_bytes :: "nat \<Rightarrow> mqueue \<Rightarrow> bool" where
  "would_exceed_bytes cost q =
     (case checked_add (mq_bytes q) cost of Some next \<Rightarrow> mq_byte_limit q < next | None \<Rightarrow> True)"

definition charge_bytes :: "nat \<Rightarrow> bool mqop" where
  "charge_bytes cost q =
     (case checked_add (mq_bytes q) cost of
        Some next \<Rightarrow> (Inr True, q\<lparr>mq_bytes := next\<rparr>)
      | None \<Rightarrow> (Inr False, q))"

definition mq_capacity :: "mqueue \<Rightarrow> nat" where
  "mq_capacity q = length (mq_buf q)"

definition mq_is_empty :: "mqueue \<Rightarrow> bool" where
  "mq_is_empty q \<longleftrightarrow> mq_len q = 0"

definition slot_ref :: "nat \<Rightarrow> (value option) mqop" where
  "slot_ref i q =
     (if i < length (mq_buf q) then (Inr (mq_buf q ! i), q) else (Inl (IndexPanic i (length (mq_buf q))), q))"

definition slot_take :: "nat \<Rightarrow> (value option) mqop" where
  "slot_take i = bindS (slot_ref i) (\<lambda>v q. (Inr v, q\<lparr>mq_buf := (mq_buf q)[i := None]\<rparr>))"

definition slot_put :: "nat \<Rightarrow> value option \<Rightarrow> unit mqop" where
  "slot_put i v = bindS (slot_ref i) (\<lambda>_ q. (Inr (), q\<lparr>mq_buf := (mq_buf q)[i := v]\<rparr>))"

definition pop_front :: "(value option) mqop" where
  "pop_front q =
     (if mq_len q = 0 then (Inr None, q)
      else bindS (slot_take (mq_head q)) (\<lambda>v q.
        let cap = mq_capacity q;
            head = (if cap = 0 then 0 else (mq_head q + 1) mod cap);
            len = mq_len q - 1
        in (Inr v, q\<lparr>mq_head := (if len = 0 then 0 else head), mq_len := len\<rparr>)) q)"

definition push_back :: "value \<Rightarrow> unit mqop" where
  "push_back v q =
     bindS (slot_put ((mq_head q + mq_len q) mod mq_capacity q) (Some v))
       (\<lambda>_ q. (Inr (), q\<lparr>mq_len := mq_len q + 1\<rparr>)) q"

text \<open>The loop of \<^verbatim>\<open>remove_at\<close> that moves the later hops towards the hole.\<close>

function shift_loop :: "nat \<Rightarrow> nat \<Rightarrow> nat \<Rightarrow> nat \<Rightarrow> unit mqop" where
  "shift_loop head cap len i =
     (if i + 1 < len
      then bindS (slot_take ((head + i + 1) mod cap)) (\<lambda>v.
           bindS (slot_put ((head + i) mod cap) v) (\<lambda>_. shift_loop head cap len (i + 1)))
      else returnS ())"
  by pat_completeness auto
termination
  by (relation "measure (\<lambda>(head, cap, len, i). len - i)") auto

declare shift_loop.simps [simp del]

definition remove_at :: "nat \<Rightarrow> (value option) mqop" where
  "remove_at logical q =
     (if mq_len q \<le> logical then (Inr None, q)
      else
        bindS (slot_take ((mq_head q + logical) mod mq_capacity q)) (\<lambda>v.
        bindS (shift_loop (mq_head q) (mq_capacity q) (mq_len q) logical) (\<lambda>_ q.
          let len = mq_len q - 1 in
          (Inr v, q\<lparr>mq_len := len, mq_head := (if len = 0 then 0 else mq_head q)\<rparr>))) q)"

primrec scan_hops :: "wait_filter \<Rightarrow> nat list \<Rightarrow> (nat option) mqop" where
  "scan_hops f [] q = (Inr None, q)"
| "scan_hops f (i # is) q =
     bindS (slot_ref ((mq_head q + i) mod mq_capacity q)) (\<lambda>slot q.
       case slot of
         Some v \<Rightarrow> if matches f v then (Inr (Some i), q) else scan_hops f is q
       | None \<Rightarrow> scan_hops f is q) q"

definition take_matching :: "wait_filter \<Rightarrow> (value option) mqop" where
  "take_matching f q =
     (if f = FAny then pop_front q
      else if mq_capacity q = 0 then (Inr None, q)
      else bindS (scan_hops f [0..<mq_len q]) (\<lambda>found.
        case found of Some i \<Rightarrow> remove_at i | None \<Rightarrow> returnS None) q)"

definition refund :: "value option \<Rightarrow> mqueue \<Rightarrow> mqueue" where
  "refund m q = (case m of Some v \<Rightarrow> q\<lparr>mq_bytes := mq_bytes q - memory_size v\<rparr> | None \<Rightarrow> q)"

definition mq_take :: "wait_filter \<Rightarrow> (value option) mqop" where
  "mq_take f = bindS (take_matching f) (\<lambda>m q. (Inr m, refund m q))"

text \<open>Physical growth: double the ring, never past the given bound.\<close>

definition reserve_for_push :: "nat \<Rightarrow> bool mqop" where
  "reserve_for_push capacity q =
     (if mq_len q < mq_capacity q then (Inr True, q)
      else
        let current = mq_capacity q; next = min (min usize_max (max current 1 * 2)) capacity in
        if next \<le> current then (Inr (mq_len q < capacity), q)
        else
          let new_buf = map (\<lambda>i. if 0 < current \<and> i < mq_len q
                then mq_buf q ! ((mq_head q + i) mod current) else None) [0..<next]
          in (Inr True, q\<lparr>mq_buf := new_buf, mq_head := 0\<rparr>))"

text \<open>The eviction loop that \<^verbatim>\<open>enqueue\<close> and \<^verbatim>\<open>force_push\<close> share.\<close>

lemma pop_front_len: "pop_front q = (Inr v, q') \<Longrightarrow> mq_len q' = mq_len q - 1"
  by (auto simp: pop_front_def slot_take_def slot_ref_def result_simps Let_def split: if_splits)

function evict :: "nat \<Rightarrow> bool \<Rightarrow> bool mqop" where
  "evict cost dropped q =
     (if (is_full q \<or> would_exceed_bytes cost q) \<and> \<not> mq_is_empty q
      then (case pop_front q of
              (Inl e, q') \<Rightarrow> (Inl e, q')
            | (Inr None, q') \<Rightarrow> evict cost dropped q'
            | (Inr (Some old), q') \<Rightarrow> evict cost True (refund (Some old) q'))
      else (Inr dropped, q))"
  by pat_completeness auto
termination
  by (relation "measure (\<lambda>(cost, dropped, q). mq_len q)")
    (auto simp: mq_is_empty_def refund_def dest!: sym [where t = "pop_front _"] pop_front_len)

declare evict.simps [simp del]

definition try_enqueue_reject :: "value \<Rightarrow> (value + unit) mqop" where
  "try_enqueue_reject v q =
     (if \<not> within_nesting_limit v then (Inr (Inl v), q)
      else let cost = memory_size v in
        if is_full q \<or> would_exceed_bytes cost q then (Inr (Inl v), q)
        else bindS (reserve_for_push (mq_limit q)) (\<lambda>reserved.
          if \<not> reserved then returnS (Inl v)
          else bindS (charge_bytes cost) (\<lambda>charged.
            if \<not> charged then returnS (Inl v)
            else bindS (push_back v) (\<lambda>_. returnS (Inr ())))) q)"

text \<open>Reserve a slot, charge the bytes and append; the common tail of the accepting paths.\<close>

definition accept_hop :: "value \<Rightarrow> nat \<Rightarrow> enqueue_effect \<Rightarrow> (mailbox_full_reason + enqueue_effect) mqop" where
  "accept_hop v cost effect q =
     bindS (reserve_for_push (mq_limit q)) (\<lambda>reserved.
       if \<not> reserved then returnS (Inl MessageLimit)
       else bindS (charge_bytes cost) (\<lambda>charged.
         if \<not> charged then returnS (Inl ByteLimit)
         else bindS (push_back v) (\<lambda>_. returnS (Inr effect)))) q"

definition mq_enqueue :: "value \<Rightarrow> overflow_policy \<Rightarrow> (mailbox_full_reason + enqueue_effect) mqop" where
  "mq_enqueue v policy q =
     (if \<not> within_nesting_limit v then (Inr (Inl ByteLimit), q)
      else let cost = memory_size v in
        if \<not> is_full q \<and> \<not> would_exceed_bytes cost q then accept_hop v cost Enqueued q
        else let reason = (if is_full q then MessageLimit else ByteLimit) in
          (case policy of
             Reject \<Rightarrow> (Inr (Inl reason), q)
           | DropNewest \<Rightarrow> (Inr (Inr DroppedNewest), q)
           | DropOldest \<Rightarrow>
               bindS (evict cost False) (\<lambda>dropped q.
                 if would_exceed_bytes cost q then (Inr (Inl ByteLimit), q)
                 else accept_hop v cost (if dropped then DroppedOldest else Enqueued) q) q))"

definition force_push :: "value \<Rightarrow> unit mqop" where
  "force_push v q =
     (if \<not> within_nesting_limit v then (Inr (), q)
      else let cost = memory_size v in
        bindS (evict cost False) (\<lambda>_ q.
        bindS (reserve_for_push (max (mq_limit q) (min usize_max (mq_len q + 1)))) (\<lambda>_.
        bindS (charge_bytes cost) (\<lambda>charged.
          if \<not> charged then returnS () else push_back v)) q) q)"

section \<open>The list of queued hops\<close>

definition slot_of :: "mqueue \<Rightarrow> nat \<Rightarrow> value option" where
  "slot_of q i = mq_buf q ! ((mq_head q + i) mod length (mq_buf q))"

definition contents :: "mqueue \<Rightarrow> value list" where
  "contents q = map (\<lambda>i. the (slot_of q i)) [0..<mq_len q]"

definition total_bytes :: "value list \<Rightarrow> nat" where
  "total_bytes xs = sum_list (map memory_size xs)"

definition ring_ok :: "mqueue \<Rightarrow> bool" where
  "ring_ok q \<longleftrightarrow> mq_len q \<le> length (mq_buf q) \<and> length (mq_buf q) \<le> mq_limit q \<and> 0 < mq_limit q \<and>
     mq_limit q \<le> usize_max \<and> (mq_head q = 0 \<or> mq_head q < length (mq_buf q)) \<and> (\<forall>i < mq_len q. slot_of q i \<noteq> None)"

definition queue_ok :: "mqueue \<Rightarrow> bool" where
  "queue_ok q \<longleftrightarrow> ring_ok q \<and> mq_bytes q = total_bytes (contents q) \<and> mq_bytes q \<le> usize_max \<and>
     mq_byte_limit q \<le> usize_max"

lemma length_contents [simp]: "length (contents q) = mq_len q"
  by (simp add: contents_def)

lemma nth_contents: "i < mq_len q \<Longrightarrow> contents q ! i = the (slot_of q i)"
  by (simp add: contents_def)

lemma contents_ext:
  assumes "mq_len q = length xs" and "\<And>i. i < length xs \<Longrightarrow> slot_of q i = Some (xs ! i)"
  shows "contents q = xs"
  using assms by (intro nth_equalityI) (simp_all add: nth_contents)

lemma ring_ok_slot: "ring_ok q \<Longrightarrow> i < mq_len q \<Longrightarrow> slot_of q i = Some (contents q ! i)"
  by (auto simp: ring_ok_def nth_contents)

lemma total_bytes_simps [simp]:
  "total_bytes [] = 0"
  "total_bytes (x # xs) = memory_size x + total_bytes xs"
  "total_bytes (xs @ ys) = total_bytes xs + total_bytes ys"
  by (simp_all add: total_bytes_def)

text \<open>Different logical positions of a ring are different slots.\<close>

lemma ring_index_less:
  assumes "i \<le> j" and "j < cap" and "(head + i) mod cap = (head + j) mod (cap :: nat)"
  shows "i = j"
proof -
  have "cap dvd head + j - (head + i)"
    using assms by (subst mod_eq_dvd_iff_nat [symmetric]) simp_all
  then show ?thesis using assms(1,2) by (auto dest: dvd_imp_le)
qed

lemma ring_index_inj:
  "i < cap \<Longrightarrow> j < cap \<Longrightarrow> (head + i) mod cap = (head + j) mod (cap :: nat) \<longleftrightarrow> i = j"
  by (metis nat_le_linear ring_index_less)

text \<open>Slots of an updated ring, read by logical position.\<close>

lemma slot_of_update:
  assumes "i < length (mq_buf q)" and "j < length (mq_buf q)"
  shows "slot_of (q\<lparr>mq_buf := (mq_buf q)[(mq_head q + j) mod length (mq_buf q) := v]\<rparr>) i =
    (if i = j then v else slot_of q i)"
proof -
  have "0 < length (mq_buf q)" using assms by linarith
  then have "(mq_head q + j) mod length (mq_buf q) < length (mq_buf q)" by simp
  with assms show ?thesis by (auto simp: slot_of_def nth_list_update ring_index_inj)
qed

section \<open>Every operation on the ring is the operation on the list\<close>

lemma pop_front_contents:
  assumes "ring_ok q" and "contents q = x # xs"
  shows "\<exists>q'. pop_front q = (Inr (Some x), q') \<and> ring_ok q' \<and> contents q' = xs \<and>
    q' = q\<lparr>mq_buf := mq_buf q', mq_head := mq_head q', mq_len := mq_len q'\<rparr> \<and>
    length (mq_buf q') = length (mq_buf q)"
proof -
  let ?n = "length (mq_buf q)"
  define q' where "q' = q\<lparr>mq_buf := (mq_buf q)[mq_head q := None],
    mq_head := (if length xs = 0 then 0 else (mq_head q + 1) mod ?n), mq_len := length xs\<rparr>"
  have len: "mq_len q = Suc (length xs)" using assms(2) by (metis length_contents length_Cons)
  have head: "mq_head q < ?n" "mq_len q \<le> ?n" using assms(1) len by (auto simp: ring_ok_def)
  have x: "mq_buf q ! mq_head q = Some x"
    using ring_ok_slot [OF assms(1), of 0] len assms(2) head(1) by (simp add: slot_of_def)
  have pop: "pop_front q = (Inr (Some x), q')"
    using head(1) x len
    by (auto simp: pop_front_def slot_take_def slot_ref_def bindS_def q'_def mq_capacity_def Let_def)
  have slot: "slot_of q' i = Some (xs ! i)" if "i < length xs" for i
  proof -
    have "xs \<noteq> []" "0 < ?n" "Suc i < ?n" using that head(1,2) len by auto
    then have "slot_of q' i = (mq_buf q)[mq_head q := None] ! ((mq_head q + Suc i) mod ?n)"
      by (simp add: slot_of_def q'_def mod_add_left_eq)
    also have "\<dots> = mq_buf q ! ((mq_head q + Suc i) mod ?n)"
      using ring_index_inj [of "Suc i" ?n 0 "mq_head q"] \<open>Suc i < ?n\<close> \<open>0 < ?n\<close> head(1)
      by (subst nth_list_update_neq) auto
    also have "\<dots> = Some (xs ! i)"
      using ring_ok_slot [OF assms(1), of "Suc i"] that len assms(2) by (simp add: slot_of_def)
    finally show ?thesis .
  qed
  have "mq_len q' = length xs" by (simp add: q'_def)
  then have "contents q' = xs" by (rule contents_ext) (rule slot)
  moreover have "mq_head q' < ?n" using head(1) by (cases "mq_buf q") (auto simp: q'_def)
  then have "ring_ok q'" using assms(1) slot len head by (simp add: ring_ok_def) (simp add: q'_def)
  ultimately show ?thesis using pop by (auto simp: q'_def)
qed

lemma pop_front_empty: "mq_len q = 0 \<Longrightarrow> pop_front q = (Inr None, q)"
  by (simp add: pop_front_def)

lemma push_back_contents:
  assumes "ring_ok q" and "mq_len q < length (mq_buf q)"
  shows "\<exists>q'. push_back v q = (Inr (), q') \<and> ring_ok q' \<and> contents q' = contents q @ [v] \<and>
    q' = q\<lparr>mq_buf := mq_buf q', mq_len := mq_len q'\<rparr>"
proof -
  let ?n = "length (mq_buf q)" and ?i = "(mq_head q + mq_len q) mod length (mq_buf q)"
  define q1 where "q1 = q\<lparr>mq_buf := (mq_buf q)[?i := Some v]\<rparr>"
  define q' where "q' = q1\<lparr>mq_len := mq_len q + 1\<rparr>"
  have "?i < ?n" using assms(2) by (intro mod_less_divisor) linarith
  then have push: "push_back v q = (Inr (), q')"
    by (simp add: push_back_def slot_put_def slot_ref_def bindS_def q1_def q'_def mq_capacity_def)
  have slot: "slot_of q' i = Some ((contents q @ [v]) ! i)" if "i \<le> mq_len q" for i
  proof -
    have "slot_of q' i = slot_of q1 i" by (simp add: slot_of_def q'_def)
    also have "\<dots> = (if i = mq_len q then Some v else slot_of q i)"
      unfolding q1_def using that assms(2) by (intro slot_of_update) simp_all
    also have "\<dots> = Some ((contents q @ [v]) ! i)"
      using that ring_ok_slot [OF assms(1), of i] by (simp add: nth_append)
    finally show ?thesis .
  qed
  have "contents q' = contents q @ [v]"
    by (rule contents_ext) (simp_all add: slot less_Suc_eq_le q'_def [THEN arg_cong [where f = mq_len]])
  moreover have "ring_ok q'"
    using assms slot by (auto simp: ring_ok_def q'_def q1_def less_Suc_eq_le)
  ultimately show ?thesis using push by (auto simp: q'_def q1_def)
qed

text \<open>The shifting loop closes the hole at the position it starts from.\<close>

lemma shift_loop_slots:
  assumes "head = mq_head q" and "cap = length (mq_buf q)" and "len = mq_len q" and "mq_len q \<le> length (mq_buf q)"
    and "i < mq_len q"
  shows "\<exists>buf. shift_loop head cap len i q = (Inr (), q\<lparr>mq_buf := buf\<rparr>) \<and> length buf = length (mq_buf q) \<and>
    (\<forall>j. j + 1 < mq_len q \<longrightarrow> slot_of (q\<lparr>mq_buf := buf\<rparr>) j = slot_of q (if j < i then j else j + 1))"
  using assms
proof (induction head cap len i arbitrary: q rule: shift_loop.induct)
  case (1 head cap len i)
  show ?case
  proof (cases "i + 1 < len")
    case False
    then have "shift_loop head cap len i q = (Inr (), q)"
      by (simp add: shift_loop.simps [of head cap len i] returnS_def)
    with False "1.prems" show ?thesis by (intro exI [of _ "mq_buf q"]) auto
  next
    case True
    let ?from = "(mq_head q + (i + 1)) mod length (mq_buf q)" and ?to = "(mq_head q + i) mod length (mq_buf q)"
    define q1 where "q1 = q\<lparr>mq_buf := (mq_buf q)[?from := None]\<rparr>"
    define q2 where "q2 = q1\<lparr>mq_buf := (mq_buf q1)[?to := slot_of q (i + 1)]\<rparr>"
    have n: "0 < length (mq_buf q)" "i + 1 < length (mq_buf q)" using True "1.prems" by auto
    have bounds: "?from < length (mq_buf q)" "?to < length (mq_buf q)" using n(1) by simp_all
    have step: "shift_loop head cap len i q = shift_loop head cap len (i + 1) q2"
      using True bounds unfolding "1.prems"(1-3)
      by (simp add: shift_loop.simps [of _ _ _ i] slot_take_def slot_put_def slot_ref_def bindS_def
          q1_def q2_def slot_of_def)
    have slots: "slot_of q2 j = (if j = i then slot_of q (i + 1) else if j = i + 1 then None else slot_of q j)"
      if "j < length (mq_buf q)" for j
    proof -
      have "slot_of q2 j = (if j = i then slot_of q (i + 1) else slot_of q1 j)"
        unfolding q2_def using that n by (subst slot_of_update [of j q1 i, symmetric]) (simp_all add: q1_def)
      moreover have "slot_of q1 j = (if j = i + 1 then None else slot_of q j)"
        unfolding q1_def using that n by (intro slot_of_update) simp_all
      ultimately show ?thesis by simp
    qed
    have eqs: "mq_head q2 = mq_head q" "mq_len q2 = mq_len q" "length (mq_buf q2) = length (mq_buf q)"
      "q2\<lparr>mq_buf := buf\<rparr> = q\<lparr>mq_buf := buf\<rparr>" for buf
      by (simp_all add: q2_def q1_def)
    from "1.IH" [OF True, of q2] True "1.prems" obtain buf where
      buf: "shift_loop head cap len (i + 1) q2 = (Inr (), q2\<lparr>mq_buf := buf\<rparr>)" "length buf = length (mq_buf q)"
      "\<And>j. j + 1 < mq_len q \<Longrightarrow> slot_of (q2\<lparr>mq_buf := buf\<rparr>) j = slot_of q2 (if j < i + 1 then j else j + 1)"
      unfolding eqs by auto
    have "slot_of (q\<lparr>mq_buf := buf\<rparr>) j = slot_of q (if j < i then j else j + 1)" if "j + 1 < mq_len q" for j
      using buf(3) [OF that] that "1.prems"(4) by (auto simp: eqs slots)
    with step buf(1,2) show ?thesis by (intro exI [of _ buf]) (simp add: eqs)
  qed
qed

lemma remove_at_contents:
  assumes "ring_ok q" and "i < mq_len q"
  shows "\<exists>q'. remove_at i q = (Inr (Some (contents q ! i)), q') \<and> ring_ok q' \<and>
    contents q' = take i (contents q) @ drop (Suc i) (contents q) \<and>
    q' = q\<lparr>mq_buf := mq_buf q', mq_head := mq_head q', mq_len := mq_len q'\<rparr>"
proof -
  let ?n = "length (mq_buf q)" and ?i = "(mq_head q + i) mod length (mq_buf q)"
  define q1 where "q1 = q\<lparr>mq_buf := (mq_buf q)[?i := None]\<rparr>"
  have n: "0 < ?n" "i < ?n" "mq_len q \<le> ?n" using assms by (auto simp: ring_ok_def)
  have same: "mq_head q1 = mq_head q" "length (mq_buf q1) = ?n" "mq_len q1 = mq_len q"
    by (simp_all add: q1_def)
  have slot1: "slot_of q1 j = (if j = i then None else slot_of q j)" if "j < ?n" for j
    unfolding q1_def using that n by (intro slot_of_update) simp_all
  obtain buf where shift: "shift_loop (mq_head q) ?n (mq_len q) i q1 = (Inr (), q1\<lparr>mq_buf := buf\<rparr>)"
    "length buf = ?n" "\<And>j. j + 1 < mq_len q \<Longrightarrow> slot_of (q1\<lparr>mq_buf := buf\<rparr>) j = slot_of q1 (if j < i then j else j + 1)"
    using shift_loop_slots [of "mq_head q" q1 ?n "mq_len q" i] assms(2) n(3) unfolding same by auto
  define q' where "q' = q\<lparr>mq_buf := buf, mq_head := (if mq_len q - 1 = 0 then 0 else mq_head q), mq_len := mq_len q - 1\<rparr>"
  have "?i < ?n" using n by simp
  moreover have "mq_buf q ! ?i = Some (contents q ! i)"
    using ring_ok_slot [OF assms] by (simp add: slot_of_def)
  ultimately have run: "remove_at i q = (Inr (Some (contents q ! i)), q')"
    using shift(1) assms(2)
    by (simp add: remove_at_def slot_take_def slot_ref_def bindS_def mq_capacity_def Let_def q1_def q'_def)
  have slot: "slot_of q' j = Some ((take i (contents q) @ drop (Suc i) (contents q)) ! j)" if "j < mq_len q - 1" for j
  proof -
    have j: "j + 1 < mq_len q" using that by simp
    have "slot_of q' j = slot_of (q1\<lparr>mq_buf := buf\<rparr>) j" using that by (simp add: slot_of_def q'_def q1_def)
    also have "\<dots> = slot_of q (if j < i then j else j + 1)"
      using shift(3) [OF j] slot1 [of "if j < i then j else j + 1"] j n by auto
    also have "\<dots> = Some (contents q ! (if j < i then j else j + 1))"
      using j by (intro ring_ok_slot [OF assms(1)]) simp
    also have "contents q ! (if j < i then j else j + 1) = (take i (contents q) @ drop (Suc i) (contents q)) ! j"
      using j assms(2) by (auto simp: nth_append min_def)
    finally show ?thesis .
  qed
  have len: "mq_len q' = mq_len q - 1" by (simp add: q'_def)
  have "contents q' = take i (contents q) @ drop (Suc i) (contents q)"
    using assms(2) by (intro contents_ext) (auto simp: len slot)
  moreover have "ring_ok q'"
    using assms(1) slot shift(2) n by (auto simp: ring_ok_def q'_def)
  ultimately show ?thesis using run by (auto simp: q'_def)
qed

text \<open>Growing the ring moves the hops to its start and leaves a free slot.\<close>

lemma reserve_contents:
  assumes "ring_ok q" and "mq_len q < mq_limit q"
  shows "\<exists>q'. reserve_for_push (mq_limit q) q = (Inr True, q') \<and> ring_ok q' \<and> contents q' = contents q \<and>
    mq_len q' < length (mq_buf q') \<and> q' = q\<lparr>mq_buf := mq_buf q', mq_head := mq_head q'\<rparr>"
proof (cases "mq_len q < length (mq_buf q)")
  case True
  with assms show ?thesis by (auto simp: reserve_for_push_def mq_capacity_def)
next
  case False
  let ?cur = "length (mq_buf q)"
  define grown where "grown = min (min usize_max (max ?cur 1 * 2)) (mq_limit q)"
  define q' where "q' = q\<lparr>mq_buf := map (\<lambda>i. if 0 < ?cur \<and> i < mq_len q
      then mq_buf q ! ((mq_head q + i) mod ?cur) else None) [0..<grown], mq_head := 0\<rparr>"
  have full: "mq_len q = ?cur" using False assms(1) by (simp add: ring_ok_def)
  have grows: "?cur < grown" using assms full by (auto simp: grown_def ring_ok_def)
  have "reserve_for_push (mq_limit q) q = (Inr True, q')"
    using False grows
    unfolding reserve_for_push_def mq_capacity_def Let_def grown_def [symmetric] by (simp add: q'_def)
  moreover have slot: "slot_of q' i = Some (contents q ! i)" if "i < mq_len q" for i
    using that grows full ring_ok_slot [OF assms(1) that] by (auto simp: slot_of_def q'_def)
  moreover have "contents q' = contents q"
    by (rule contents_ext) (simp_all add: slot, simp add: q'_def)
  moreover have "ring_ok q'"
    using assms slot grows full by (auto simp: ring_ok_def q'_def grown_def)
  ultimately show ?thesis using grows full by (intro exI [of _ q']) (simp add: q'_def)
qed

lemma scan_hops_contents:
  assumes "ring_ok q" and "set is \<subseteq> {..<mq_len q}"
  shows "scan_hops f is q = (Inr (find (\<lambda>i. matches f (contents q ! i)) is), q)"
  using assms(2)
proof (induction "is")
  case (Cons i "is")
  then have i: "i < mq_len q" by simp
  then have "(mq_head q + i) mod length (mq_buf q) < length (mq_buf q)"
    using assms(1) by (intro mod_less_divisor) (auto simp: ring_ok_def)
  with Cons ring_ok_slot [OF assms(1) i] show ?case
    by (simp add: bindS_def slot_ref_def mq_capacity_def slot_of_def)
qed simp

section \<open>The specification\<close>

text \<open>What the queue does to the list of hops under a hop bound and a byte bound.\<close>

definition room :: "nat \<Rightarrow> nat \<Rightarrow> nat \<Rightarrow> value list \<Rightarrow> bool" where
  "room limit byte_limit cost xs \<longleftrightarrow> length xs < limit \<and> total_bytes xs + cost \<le> byte_limit"

primrec make_room :: "nat \<Rightarrow> nat \<Rightarrow> nat \<Rightarrow> value list \<Rightarrow> value list" where
  "make_room limit byte_limit cost [] = []"
| "make_room limit byte_limit cost (x # xs) =
     (if room limit byte_limit cost (x # xs) then x # xs else make_room limit byte_limit cost xs)"

definition take_first :: "wait_filter \<Rightarrow> value list \<Rightarrow> value option \<times> value list" where
  "take_first f xs =
     (case find (\<lambda>i. matches f (xs ! i)) [0..<length xs] of
        None \<Rightarrow> (None, xs)
      | Some i \<Rightarrow> (Some (xs ! i), take i xs @ drop (Suc i) xs))"

definition spec_enqueue ::
  "value \<Rightarrow> overflow_policy \<Rightarrow> nat \<Rightarrow> nat \<Rightarrow> value list \<Rightarrow> (mailbox_full_reason + enqueue_effect) \<times> value list" where
  "spec_enqueue v policy limit byte_limit xs =
     (if \<not> within_nesting_limit v then (Inl ByteLimit, xs)
      else if room limit byte_limit (memory_size v) xs then (Inr Enqueued, xs @ [v])
      else (case policy of
          Reject \<Rightarrow> (Inl (if limit \<le> length xs then MessageLimit else ByteLimit), xs)
        | DropNewest \<Rightarrow> (Inr DroppedNewest, xs)
        | DropOldest \<Rightarrow>
            if byte_limit < memory_size v then (Inl ByteLimit, [])
            else (Inr DroppedOldest, make_room limit byte_limit (memory_size v) xs @ [v])))"

definition spec_force_push :: "value \<Rightarrow> nat \<Rightarrow> nat \<Rightarrow> value list \<Rightarrow> unit \<times> value list" where
  "spec_force_push v limit byte_limit xs =
     ((), if within_nesting_limit v then make_room limit byte_limit (memory_size v) xs @ [v] else xs)"

definition spec_try_enqueue :: "value \<Rightarrow> nat \<Rightarrow> nat \<Rightarrow> value list \<Rightarrow> (value + unit) \<times> value list" where
  "spec_try_enqueue v limit byte_limit xs =
     (if within_nesting_limit v \<and> room limit byte_limit (memory_size v) xs then (Inr (), xs @ [v]) else (Inl v, xs))"

text \<open>
  An operation refines a specification: on a queue in order it does not panic, leaves the
  queue in order with the same bounds, and acts on the hops as specified.
\<close>

definition refines :: "'a mqop \<Rightarrow> (nat \<Rightarrow> nat \<Rightarrow> value list \<Rightarrow> 'a \<times> value list) \<Rightarrow> bool" where
  "refines m spec \<longleftrightarrow> (\<forall>q. queue_ok q \<longrightarrow> (\<exists>r q'. m q = (Inr r, q') \<and> queue_ok q' \<and>
     mq_limit q' = mq_limit q \<and> mq_byte_limit q' = mq_byte_limit q \<and>
     (r, contents q') = spec (mq_limit q) (mq_byte_limit q) (contents q)))"

lemma refinesI:
  assumes "\<And>q. queue_ok q \<Longrightarrow> \<exists>r q'. m q = (Inr r, q') \<and> queue_ok q' \<and>
     mq_limit q' = mq_limit q \<and> mq_byte_limit q' = mq_byte_limit q \<and>
     (r, contents q') = spec (mq_limit q) (mq_byte_limit q) (contents q)"
  shows "refines m spec"
  using assms by (simp add: refines_def)

lemma find_first_index: "find P [0..<n] = Some i \<Longrightarrow> i < n \<and> P i"
  by (auto simp: find_Some_iff)

lemma total_bytes_split:
  "i < length xs \<Longrightarrow> total_bytes xs = memory_size (xs ! i) + total_bytes (take i xs @ drop (Suc i) xs)"
  by (metis (no_types, lifting) add.left_commute id_take_nth_drop total_bytes_simps(2,3))

lemma take_refines: "refines (mq_take f) (\<lambda>limit byte_limit. take_first f)"
proof (rule refinesI)
  fix q assume ok: "queue_ok q"
  then have ring: "ring_ok q" by (simp add: queue_ok_def)
  consider (empty) "mq_len q = 0" | (any) x xs where "f = FAny" "contents q = x # xs" "mq_len q \<noteq> 0"
    | (scan) "f \<noteq> FAny" "mq_len q \<noteq> 0"
    by (metis length_contents length_0_conv neq_Nil_conv)
  then show "\<exists>r q'. mq_take f q = (Inr r, q') \<and> queue_ok q' \<and> mq_limit q' = mq_limit q \<and>
      mq_byte_limit q' = mq_byte_limit q \<and> (r, contents q') = take_first f (contents q)"
  proof cases
    case empty
    then have "take_matching f q = (Inr None, q)"
      by (simp add: take_matching_def pop_front_empty bindS_def returnS_def)
    with ok empty show ?thesis by (simp add: mq_take_def bindS_def refund_def take_first_def)
  next
    case any
    from pop_front_contents [OF ring any(2)] obtain q' where
      q': "pop_front q = (Inr (Some x), q')" "ring_ok q'" "contents q' = xs"
      "q' = q\<lparr>mq_buf := mq_buf q', mq_head := mq_head q', mq_len := mq_len q'\<rparr>" by blast
    have b: "mq_bytes q' = mq_bytes q" "mq_limit q' = mq_limit q" "mq_byte_limit q' = mq_byte_limit q"
      by (subst q'(4), simp)+
    have eq: "contents (q'\<lparr>mq_bytes := n\<rparr>) = contents q'" "ring_ok (q'\<lparr>mq_bytes := n\<rparr>) = ring_ok q'" for n
      by (simp_all add: contents_def slot_of_def ring_ok_def)
    have "take_first f (contents q) = (Some x, xs)"
      using any by (simp add: take_first_def matches_def upt_rec)
    with q' b ok any show ?thesis
      by (simp add: mq_take_def take_matching_def bindS_def refund_def queue_ok_def eq)
  next
    case scan
    have cap: "mq_capacity q \<noteq> 0" using scan(2) ring by (auto simp: ring_ok_def mq_capacity_def)
    have sc: "scan_hops f [0..<mq_len q] q = (Inr (find (\<lambda>i. matches f (contents q ! i)) [0..<mq_len q]), q)"
      by (rule scan_hops_contents [OF ring]) auto
    show ?thesis
    proof (cases "find (\<lambda>i. matches f (contents q ! i)) [0..<mq_len q]")
      case None
      with scan cap sc ok show ?thesis
        by (auto simp: mq_take_def take_matching_def bindS_def refund_def take_first_def returnS_def)
    next
      case (Some i)
      then have i: "i < mq_len q" using find_first_index by blast
      from remove_at_contents [OF ring i] obtain q' where
        q': "remove_at i q = (Inr (Some (contents q ! i)), q')" "ring_ok q'"
        "contents q' = take i (contents q) @ drop (Suc i) (contents q)"
        "q' = q\<lparr>mq_buf := mq_buf q', mq_head := mq_head q', mq_len := mq_len q'\<rparr>" by blast
      have b: "mq_bytes q' = mq_bytes q" "mq_limit q' = mq_limit q" "mq_byte_limit q' = mq_byte_limit q"
        by (subst q'(4), simp)+
      have eq: "contents (q'\<lparr>mq_bytes := n\<rparr>) = contents q'" "ring_ok (q'\<lparr>mq_bytes := n\<rparr>) = ring_ok q'" for n
        by (simp_all add: contents_def slot_of_def ring_ok_def)
      have "mq_take f q = (Inr (Some (contents q ! i)), q'\<lparr>mq_bytes := mq_bytes q - memory_size (contents q ! i)\<rparr>)"
        using scan cap sc Some q'(1) b by (simp add: mq_take_def take_matching_def bindS_def refund_def)
      with Some q' b ok i total_bytes_split [of i "contents q"] show ?thesis
        by (simp add: take_first_def queue_ok_def eq)
    qed
  qed
qed

section \<open>Accepting a hop\<close>

lemma would_exceed_iff:
  "queue_ok q \<Longrightarrow> would_exceed_bytes cost q \<longleftrightarrow> mq_byte_limit q < total_bytes (contents q) + cost"
  by (auto simp: would_exceed_bytes_def queue_ok_def checked_add_def)

lemma no_room_iff:
  "queue_ok q \<Longrightarrow>
     is_full q \<or> would_exceed_bytes cost q \<longleftrightarrow> \<not> room (mq_limit q) (mq_byte_limit q) cost (contents q)"
  by (auto simp: would_exceed_iff is_full_def room_def)

lemma memory_size_max: "memory_size v \<le> usize_max"
  by (simp add: memory_size_eq)

text \<open>Reserving, charging and appending, for a hop the ring has a slot for.\<close>

lemma append_hop:
  assumes "queue_ok q" and "mq_len q < mq_limit q" and "total_bytes (contents q) + memory_size v \<le> usize_max"
  shows "\<exists>q1 q2 q'. reserve_for_push (mq_limit q) q = (Inr True, q1) \<and>
    charge_bytes (memory_size v) q1 = (Inr True, q2) \<and> push_back v q2 = (Inr (), q') \<and>
    queue_ok q' \<and> mq_limit q' = mq_limit q \<and> mq_byte_limit q' = mq_byte_limit q \<and>
    contents q' = contents q @ [v]"
proof -
  have ring: "ring_ok q" using assms(1) by (simp add: queue_ok_def)
  from reserve_contents [OF ring assms(2)] obtain q1 where
    q1: "reserve_for_push (mq_limit q) q = (Inr True, q1)" "ring_ok q1" "contents q1 = contents q"
    "mq_len q1 < length (mq_buf q1)" "q1 = q\<lparr>mq_buf := mq_buf q1, mq_head := mq_head q1\<rparr>" by blast
  have b1: "mq_bytes q1 = mq_bytes q" "mq_limit q1 = mq_limit q" "mq_byte_limit q1 = mq_byte_limit q"
    by (subst q1(5), simp)+
  define q2 where "q2 = q1\<lparr>mq_bytes := mq_bytes q + memory_size v\<rparr>"
  have q2: "charge_bytes (memory_size v) q1 = (Inr True, q2)"
    using assms(1,3) b1 by (simp add: charge_bytes_def checked_add_def queue_ok_def q2_def)
  have ok2: "ring_ok q2" "mq_len q2 < length (mq_buf q2)" "contents q2 = contents q"
    using q1 by (simp_all add: q2_def ring_ok_def slot_of_def contents_def)
  from push_back_contents [OF ok2(1,2), of v] obtain q' where
    q': "push_back v q2 = (Inr (), q')" "ring_ok q'" "contents q' = contents q2 @ [v]"
    "q' = q2\<lparr>mq_buf := mq_buf q', mq_len := mq_len q'\<rparr>" by blast
  have b': "mq_bytes q' = mq_bytes q + memory_size v" "mq_limit q' = mq_limit q"
    "mq_byte_limit q' = mq_byte_limit q"
    by (subst q'(4), simp add: q2_def b1)+
  have "queue_ok q'" using q'(2,3) b' assms(1,3) ok2(3) by (simp add: queue_ok_def)
  with q1(1) q2 q' b' ok2(3) show ?thesis by auto
qed

lemma accept_hop_spec:
  assumes "queue_ok q" and "room (mq_limit q) (mq_byte_limit q) (memory_size v) (contents q)"
  shows "\<exists>q'. accept_hop v (memory_size v) effect q = (Inr (Inr effect), q') \<and> queue_ok q' \<and>
    mq_limit q' = mq_limit q \<and> mq_byte_limit q' = mq_byte_limit q \<and> contents q' = contents q @ [v]"
proof -
  have "mq_len q < mq_limit q" "total_bytes (contents q) + memory_size v \<le> usize_max"
    using assms by (auto simp: room_def queue_ok_def)
  from append_hop [OF assms(1) this] show ?thesis
    by (auto simp: accept_hop_def bindS_def returnS_def)
qed

lemma try_enqueue_refines: "refines (try_enqueue_reject v) (spec_try_enqueue v)"
proof (rule refinesI)
  fix q assume ok: "queue_ok q"
  show "\<exists>r q'. try_enqueue_reject v q = (Inr r, q') \<and> queue_ok q' \<and> mq_limit q' = mq_limit q \<and>
      mq_byte_limit q' = mq_byte_limit q \<and> (r, contents q') = spec_try_enqueue v (mq_limit q) (mq_byte_limit q) (contents q)"
  proof (cases "within_nesting_limit v \<and> room (mq_limit q) (mq_byte_limit q) (memory_size v) (contents q)")
    case True
    then have "mq_len q < mq_limit q" "total_bytes (contents q) + memory_size v \<le> usize_max"
      using ok by (auto simp: room_def queue_ok_def)
    from append_hop [OF ok this] True no_room_iff [OF ok, of "memory_size v"] show ?thesis
      by (auto simp: try_enqueue_reject_def spec_try_enqueue_def bindS_def returnS_def Let_def)
  next
    case False
    with ok no_room_iff [OF ok, of "memory_size v"] show ?thesis
      by (auto simp: try_enqueue_reject_def spec_try_enqueue_def Let_def)
  qed
qed

text \<open>Eviction drops the oldest hops until there is room or nothing is left.\<close>

lemma make_room_shorter: "length (make_room limit byte_limit cost xs) \<le> length xs"
  by (induction xs) auto

lemma evict_stops:
  "\<not> (is_full q \<or> would_exceed_bytes cost q) \<or> mq_is_empty q \<Longrightarrow> evict cost dropped q = (Inr dropped, q)"
  by (subst evict.simps) auto

lemma evict_list:
  assumes "queue_ok q" and "contents q = xs"
  shows "\<exists>q'. evict cost dropped q =
      (Inr (dropped \<or> make_room (mq_limit q) (mq_byte_limit q) cost xs \<noteq> xs), q') \<and>
    queue_ok q' \<and> mq_limit q' = mq_limit q \<and> mq_byte_limit q' = mq_byte_limit q \<and>
    contents q' = make_room (mq_limit q) (mq_byte_limit q) cost xs"
  using assms
proof (induction xs arbitrary: q dropped)
  case Nil
  then have "mq_is_empty q" by (metis length_contents list.size(3) mq_is_empty_def)
  with Nil show ?case by (simp add: evict_stops)
next
  case (Cons x xs)
  have ne: "\<not> mq_is_empty q" using Cons.prems(2) by (metis length_contents length_Cons mq_is_empty_def nat.simps(3))
  show ?case
  proof (cases "room (mq_limit q) (mq_byte_limit q) cost (x # xs)")
    case True
    with no_room_iff [OF Cons.prems(1), of cost] Cons.prems show ?thesis by (simp add: evict_stops)
  next
    case False
    have ring: "ring_ok q" using Cons.prems by (simp add: queue_ok_def)
    from pop_front_contents [OF ring Cons.prems(2)] obtain q1 where
      q1: "pop_front q = (Inr (Some x), q1)" "ring_ok q1" "contents q1 = xs"
      "q1 = q\<lparr>mq_buf := mq_buf q1, mq_head := mq_head q1, mq_len := mq_len q1\<rparr>" by blast
    define q2 where "q2 = refund (Some x) q1"
    have b: "mq_bytes q1 = mq_bytes q" "mq_limit q1 = mq_limit q" "mq_byte_limit q1 = mq_byte_limit q"
      by (subst q1(4), simp)+
    have c2: "contents q2 = xs" "ring_ok q2"
      using q1(2,3) by (simp_all add: q2_def refund_def contents_def ring_ok_def slot_of_def)
    have l2: "mq_limit q2 = mq_limit q" "mq_byte_limit q2 = mq_byte_limit q"
      "mq_bytes q2 = mq_bytes q - memory_size x"
      using b by (simp_all add: q2_def refund_def)
    have ok2: "queue_ok q2" using c2 l2 Cons.prems by (simp add: queue_ok_def)
    have step: "evict cost dropped q = evict cost True q2"
      using no_room_iff [OF Cons.prems(1), of cost] False Cons.prems(2) ne q1(1)
      by (subst evict.simps) (simp add: q2_def)
    have "make_room l b cost xs \<noteq> x # xs" for l b
      using make_room_shorter [of l b cost xs] by auto
    with Cons.IH [OF ok2 c2(1), of True] step False show ?thesis unfolding l2 by simp
  qed
qed

lemmas evict_spec = evict_list [OF _ refl]

lemma make_room_fits:
  "make_room limit byte_limit cost xs = [] \<or> room limit byte_limit cost (make_room limit byte_limit cost xs)"
  by (induction xs) auto

lemma make_room_unchanged: "make_room limit byte_limit cost xs = xs \<Longrightarrow> xs = [] \<or> room limit byte_limit cost xs"
  using make_room_fits [of limit byte_limit cost xs] by auto

lemma make_room_hopeless: "byte_limit < cost \<Longrightarrow> make_room limit byte_limit cost xs = []"
  using make_room_fits [of limit byte_limit cost xs] by (auto simp: room_def)

lemma enqueue_refines: "refines (mq_enqueue v policy) (spec_enqueue v policy)"
proof (rule refinesI)
  fix q assume ok: "queue_ok q"
  let ?lim = "mq_limit q" and ?bl = "mq_byte_limit q" and ?c = "memory_size v" and ?xs = "contents q"
  note nr = no_room_iff [OF ok, of ?c]
  consider (deep) "\<not> within_nesting_limit v" | (fits) "within_nesting_limit v" "room ?lim ?bl ?c ?xs"
    | (keep) "within_nesting_limit v" "\<not> room ?lim ?bl ?c ?xs" "policy \<noteq> DropOldest"
    | (evict) "within_nesting_limit v" "\<not> room ?lim ?bl ?c ?xs" "policy = DropOldest" by blast
  then show "\<exists>r q'. mq_enqueue v policy q = (Inr r, q') \<and> queue_ok q' \<and> mq_limit q' = ?lim \<and>
      mq_byte_limit q' = ?bl \<and> (r, contents q') = spec_enqueue v policy ?lim ?bl ?xs"
  proof cases
    case deep with ok show ?thesis by (simp add: mq_enqueue_def spec_enqueue_def)
  next
    case fits
    with accept_hop_spec [OF ok, of v Enqueued] nr show ?thesis
      by (auto simp: mq_enqueue_def spec_enqueue_def Let_def)
  next
    case keep
    with ok nr show ?thesis
      by (cases policy) (auto simp: mq_enqueue_def spec_enqueue_def Let_def is_full_def)
  next
    case evict
    let ?ys = "make_room ?lim ?bl ?c ?xs"
    from evict_spec [OF ok, of ?c False] obtain q1 where
      q1: "evict ?c False q = (Inr (?ys \<noteq> ?xs), q1)" "queue_ok q1" "mq_limit q1 = ?lim"
      "mq_byte_limit q1 = ?bl" "contents q1 = ?ys" by auto
    have run: "mq_enqueue v policy q = (if would_exceed_bytes ?c q1 then (Inr (Inl ByteLimit), q1)
        else accept_hop v ?c (if ?ys \<noteq> ?xs then DroppedOldest else Enqueued) q1)"
      using evict nr q1(1) by (auto simp: mq_enqueue_def Let_def bindS_def)
    show ?thesis
    proof (cases "?bl < ?c")
      case True
      with run q1 evict would_exceed_iff [OF q1(2), of ?c] make_room_hopeless [OF True] show ?thesis
        by (auto simp: spec_enqueue_def)
    next
      case False
      have "0 < ?lim" using ok by (simp add: queue_ok_def ring_ok_def)
      with False make_room_fits [of ?lim ?bl ?c ?xs] have r: "room ?lim ?bl ?c ?ys"
        by (auto simp: room_def)
      have "?ys \<noteq> ?xs" using r evict(2) by auto
      with accept_hop_spec [OF q1(2), of v DroppedOldest] r q1 run no_room_iff [OF q1(2), of ?c] False evict
      show ?thesis by (auto simp: spec_enqueue_def)
    qed
  qed
qed

lemma force_push_refines: "refines (force_push v) (spec_force_push v)"
proof (rule refinesI)
  fix q assume ok: "queue_ok q"
  let ?lim = "mq_limit q" and ?bl = "mq_byte_limit q" and ?c = "memory_size v" and ?xs = "contents q"
  let ?ys = "make_room ?lim ?bl ?c ?xs"
  from evict_spec [OF ok, of ?c False] obtain q1 d where
    q1: "evict ?c False q = (Inr d, q1)" "queue_ok q1" "mq_limit q1 = ?lim"
    "mq_byte_limit q1 = ?bl" "contents q1 = ?ys" by auto
  have lim: "0 < ?lim" "?bl \<le> usize_max" "?lim \<le> usize_max" using ok by (simp_all add: queue_ok_def ring_ok_def)
  have len: "mq_len q1 < mq_limit q1" "total_bytes (contents q1) + ?c \<le> usize_max"
    using make_room_fits [of ?lim ?bl ?c ?xs] lim memory_size_max [of v] q1(3,5) length_contents [of q1]
    by (auto simp: room_def simp del: usize_max_eq length_contents)
  have cap: "max ?lim (min usize_max (Suc (mq_len q1))) = ?lim"
    using len(1) q1(3) by (intro max_absorb1) (simp add: min_le_iff_disj del: usize_max_eq)
  show "\<exists>r q'. force_push v q = (Inr r, q') \<and> queue_ok q' \<and> mq_limit q' = ?lim \<and>
      mq_byte_limit q' = ?bl \<and> (r, contents q') = spec_force_push v ?lim ?bl ?xs"
  proof (cases "within_nesting_limit v")
    case False
    with ok show ?thesis by (simp add: force_push_def spec_force_push_def)
  next
    case True
    from append_hop [OF q1(2) len] True q1 show ?thesis
      by (auto simp: force_push_def spec_force_push_def bindS_def Let_def cap simp del: usize_max_eq)
  qed
qed

section \<open>The interface the mailbox relies on\<close>

datatype hop_op =
    TakeHop wait_filter
  | EnqueueHop "value" overflow_policy
  | OfferHop "value"
  | ForceHop "value"

datatype hop_result =
    Took "value option"
  | EnqueueResult "mailbox_full_reason + enqueue_effect"
  | OfferResult "value + unit"
  | Forced

text \<open>One operation on the list of hops, and a sequence of them.\<close>

primrec spec_op :: "hop_op \<Rightarrow> nat \<Rightarrow> nat \<Rightarrow> value list \<Rightarrow> hop_result \<times> value list" where
  "spec_op (TakeHop f) limit byte_limit xs = (let (m, ys) = take_first f xs in (Took m, ys))"
| "spec_op (EnqueueHop v policy) limit byte_limit xs =
     (let (r, ys) = spec_enqueue v policy limit byte_limit xs in (EnqueueResult r, ys))"
| "spec_op (OfferHop v) limit byte_limit xs =
     (let (r, ys) = spec_try_enqueue v limit byte_limit xs in (OfferResult r, ys))"
| "spec_op (ForceHop v) limit byte_limit xs = (Forced, snd (spec_force_push v limit byte_limit xs))"

primrec spec_run :: "nat \<Rightarrow> nat \<Rightarrow> hop_op list \<Rightarrow> value list \<Rightarrow> hop_result list \<times> value list" where
  "spec_run limit byte_limit [] xs = ([], xs)"
| "spec_run limit byte_limit (op # ops) xs =
     (let (r, ys) = spec_op op limit byte_limit xs; (rs, zs) = spec_run limit byte_limit ops ys in (r # rs, zs))"

text \<open>The same on an implementation given by its four operations.\<close>

primrec impl_op ::
  "(wait_filter \<Rightarrow> ('q, 'p, value option) fallible) \<Rightarrow>
   (value \<Rightarrow> overflow_policy \<Rightarrow> ('q, 'p, mailbox_full_reason + enqueue_effect) fallible) \<Rightarrow>
   (value \<Rightarrow> ('q, 'p, value + unit) fallible) \<Rightarrow> (value \<Rightarrow> ('q, 'p, unit) fallible) \<Rightarrow>
   hop_op \<Rightarrow> ('q, 'p, hop_result) fallible" where
  "impl_op tk enq offer force (TakeHop f) = bindS (tk f) (\<lambda>m. returnS (Took m))"
| "impl_op tk enq offer force (EnqueueHop v policy) = bindS (enq v policy) (\<lambda>r. returnS (EnqueueResult r))"
| "impl_op tk enq offer force (OfferHop v) = bindS (offer v) (\<lambda>r. returnS (OfferResult r))"
| "impl_op tk enq offer force (ForceHop v) = bindS (force v) (\<lambda>r. returnS Forced)"

locale hop_store =
  fixes ok :: "'q \<Rightarrow> bool" and hops :: "'q \<Rightarrow> value list" and bounds :: "'q \<Rightarrow> nat \<times> nat"
    and tk :: "wait_filter \<Rightarrow> ('q, 'p, value option) fallible"
    and enq :: "value \<Rightarrow> overflow_policy \<Rightarrow> ('q, 'p, mailbox_full_reason + enqueue_effect) fallible"
    and offer :: "value \<Rightarrow> ('q, 'p, value + unit) fallible"
    and force :: "value \<Rightarrow> ('q, 'p, unit) fallible"
  assumes tk_law: "ok q \<Longrightarrow> \<exists>r q'. tk f q = (Inr r, q') \<and> ok q' \<and> bounds q' = bounds q \<and>
      (r, hops q') = take_first f (hops q)"
    and enq_law: "ok q \<Longrightarrow> \<exists>r q'. enq v policy q = (Inr r, q') \<and> ok q' \<and> bounds q' = bounds q \<and>
      (r, hops q') = spec_enqueue v policy (fst (bounds q)) (snd (bounds q)) (hops q)"
    and offer_law: "ok q \<Longrightarrow> \<exists>r q'. offer v q = (Inr r, q') \<and> ok q' \<and> bounds q' = bounds q \<and>
      (r, hops q') = spec_try_enqueue v (fst (bounds q)) (snd (bounds q)) (hops q)"
    and force_law: "ok q \<Longrightarrow> \<exists>r q'. force v q = (Inr r, q') \<and> ok q' \<and> bounds q' = bounds q \<and>
      (r, hops q') = spec_force_push v (fst (bounds q)) (snd (bounds q)) (hops q)"
begin

lemma step_simulates:
  assumes "ok q"
  shows "\<exists>r q'. impl_op tk enq offer force op q = (Inr r, q') \<and> ok q' \<and> bounds q' = bounds q \<and>
    (r, hops q') = spec_op op (fst (bounds q)) (snd (bounds q)) (hops q)"
proof (cases op)
  case (TakeHop f)
  with tk_law [OF assms, of f] show ?thesis by (auto simp: bindS_def returnS_def split: prod.splits)
next
  case (EnqueueHop v policy)
  with enq_law [OF assms, of v policy] show ?thesis by (auto simp: bindS_def returnS_def split: prod.splits)
next
  case (OfferHop v)
  with offer_law [OF assms, of v] show ?thesis by (auto simp: bindS_def returnS_def split: prod.splits)
next
  case (ForceHop v)
  with force_law [OF assms, of v] show ?thesis
    by (auto simp: bindS_def returnS_def spec_force_push_def split: prod.splits)
qed

lemma run_simulates:
  assumes "ok q"
  shows "\<exists>rs q'. mapS (impl_op tk enq offer force) ops q = (Inr rs, q') \<and> ok q' \<and> bounds q' = bounds q \<and>
    (rs, hops q') = spec_run (fst (bounds q)) (snd (bounds q)) ops (hops q)"
  using assms
proof (induction ops arbitrary: q)
  case Nil
  then show ?case by (simp add: returnS_def)
next
  case (Cons op ops)
  from step_simulates [OF Cons.prems, of op] obtain r q1 where
    q1: "impl_op tk enq offer force op q = (Inr r, q1)" "ok q1" "bounds q1 = bounds q"
    "(r, hops q1) = spec_op op (fst (bounds q)) (snd (bounds q)) (hops q)" by blast
  from Cons.IH [OF q1(2)] obtain rs q2 where
    "mapS (impl_op tk enq offer force) ops q1 = (Inr rs, q2)" "ok q2" "bounds q2 = bounds q"
    "(rs, hops q2) = spec_run (fst (bounds q)) (snd (bounds q)) ops (hops q1)"
    unfolding q1(3) by blast
  with q1 show ?case by (auto simp: bindS_def returnS_def Let_def split: prod.splits)
qed

end

definition queue_bounds :: "mqueue \<Rightarrow> nat \<times> nat" where
  "queue_bounds q = (mq_limit q, mq_byte_limit q)"

interpretation mq: hop_store queue_ok contents queue_bounds mq_take mq_enqueue try_enqueue_reject force_push
  using take_refines enqueue_refines try_enqueue_refines force_push_refines
  by unfold_locales (simp_all add: refines_def queue_bounds_def)

section \<open>Facts about the specification\<close>

lemma new_queue_ok:
  assumes "0 < limit" and "limit \<le> usize_max" and "byte_limit \<le> usize_max"
  shows "queue_ok (MailboxQueue_new limit byte_limit)" "contents (MailboxQueue_new limit byte_limit) = []"
    "queue_bounds (MailboxQueue_new limit byte_limit) = (limit, byte_limit)"
  using assms by (simp_all add: MailboxQueue_new_def queue_ok_def ring_ok_def contents_def queue_bounds_def)

lemma run_new_queue:
  assumes "0 < limit" and "limit \<le> usize_max" and "byte_limit \<le> usize_max"
  obtains q where
    "mapS (impl_op mq_take mq_enqueue try_enqueue_reject force_push) ops (MailboxQueue_new limit byte_limit) =
       (Inr (fst (spec_run limit byte_limit ops [])), q)"
    "queue_ok q" "contents q = snd (spec_run limit byte_limit ops [])"
proof -
  note new = new_queue_ok [OF assms]
  from mq.run_simulates [OF new(1), of ops] obtain rs q where
    q: "mapS (impl_op mq_take mq_enqueue try_enqueue_reject force_push) ops (MailboxQueue_new limit byte_limit) = (Inr rs, q)"
    "queue_ok q" "(rs, contents q) = spec_run limit byte_limit ops []"
    unfolding new(2,3) fst_conv snd_conv by blast
  from q(3) have "rs = fst (spec_run limit byte_limit ops [])" "contents q = snd (spec_run limit byte_limit ops [])"
    by (metis fst_conv, metis snd_conv)
  with q(1,2) that show thesis by blast
qed

lemma take_first_cases:
  "take_first f xs = (None, xs) \<and> (\<forall>v \<in> set xs. \<not> matches f v) \<or>
   (\<exists>ys v zs. xs = ys @ v # zs \<and> matches f v \<and> (\<forall>w \<in> set ys. \<not> matches f w) \<and> take_first f xs = (Some v, ys @ zs))"
proof (cases "find (\<lambda>i. matches f (xs ! i)) [0..<length xs]")
  case None
  then have "\<forall>v \<in> set xs. \<not> matches f v" by (auto simp: find_None_iff in_set_conv_nth)
  with None show ?thesis by (simp add: take_first_def)
next
  case (Some i)
  then have i: "i < length xs" "matches f (xs ! i)" "\<And>j. j < i \<Longrightarrow> \<not> matches f (xs ! j)"
    by (auto simp: find_Some_iff)
  have "xs = take i xs @ xs ! i # drop (Suc i) xs" using i(1) by (rule id_take_nth_drop)
  moreover have "\<forall>w \<in> set (take i xs). \<not> matches f w" using i by (auto simp: in_set_conv_nth)
  ultimately show ?thesis using Some i(2) by (auto simp: take_first_def)
qed

text \<open>Within the bounds, or a single forced hop that alone is over the byte budget.\<close>

definition within_bounds :: "nat \<Rightarrow> nat \<Rightarrow> value list \<Rightarrow> bool" where
  "within_bounds limit byte_limit xs \<longleftrightarrow> length xs \<le> limit \<and> (total_bytes xs \<le> byte_limit \<or> (\<exists>v. xs = [v]))"

lemma make_room_suffix: "\<exists>ys. xs = ys @ make_room limit byte_limit cost xs"
proof (induction xs)
  case (Cons x xs)
  then obtain ys where "xs = ys @ make_room limit byte_limit cost xs" by blast
  then show ?case
    by (cases "room limit byte_limit cost (x # xs)") (auto intro: exI [of _ "x # ys"])
qed simp

lemma within_bounds_append:
  "0 < limit \<Longrightarrow> within_bounds limit byte_limit (make_room limit byte_limit (memory_size v) xs @ [v])"
  using make_room_fits [of limit byte_limit "memory_size v" xs] by (auto simp: within_bounds_def room_def)

lemma spec_op_bounds:
  assumes "within_bounds limit byte_limit xs" and "0 < limit"
  shows "within_bounds limit byte_limit (snd (spec_op op limit byte_limit xs))"
proof (cases op)
  case (TakeHop f)
  have "within_bounds limit byte_limit (ys @ zs)" if "xs = ys @ v # zs" for ys v zs
    using assms that by (auto simp: within_bounds_def append_eq_Cons_conv)
  with take_first_cases [of f xs] TakeHop assms show ?thesis by auto
next
  case (EnqueueHop v policy)
  with assms within_bounds_append [OF assms(2), of byte_limit v xs] show ?thesis
    by (auto simp: spec_enqueue_def split: overflow_policy.splits)
      (auto simp: within_bounds_def room_def)
next
  case (OfferHop v)
  with assms show ?thesis by (auto simp: spec_try_enqueue_def) (auto simp: within_bounds_def room_def)
next
  case (ForceHop v)
  with assms within_bounds_append [OF assms(2), of byte_limit v xs] show ?thesis
    by (auto simp: spec_force_push_def)
qed

lemma spec_run_bounds:
  assumes "within_bounds limit byte_limit xs" and "0 < limit"
  shows "within_bounds limit byte_limit (snd (spec_run limit byte_limit ops xs))"
  using assms
proof (induction ops arbitrary: xs)
  case (Cons op ops)
  from spec_op_bounds [OF Cons.prems, of op] Cons.IH Cons.prems(2) show ?case
    by (auto simp: Let_def split: prod.splits) (metis snd_conv)
qed simp

section \<open>Properties\<close>

text \<open>
  C22: the hop queue is a bounded list.  Whatever sequence of receives, sends, retried sends
  and system sends is run on a fresh queue, with any configured bounds, no index ever leaves
  the ring (so no panic), every operation returns what the list specification returns, the
  ring holds exactly the specified hops in their order, and the byte counter is exactly the
  sum of the sizes of the hops that are queued.
\<close>

theorem queue_refines_list:
  assumes "0 < limit" and "limit \<le> usize_max" and "byte_limit \<le> usize_max"
  shows "\<exists>q. mapS (impl_op mq_take mq_enqueue try_enqueue_reject force_push) ops (MailboxQueue_new limit byte_limit) =
      (Inr (fst (spec_run limit byte_limit ops [])), q) \<and>
    contents q = snd (spec_run limit byte_limit ops []) \<and> mq_bytes q = total_bytes (contents q)"
  by (rule run_new_queue [OF assms, of ops]) (auto simp: queue_ok_def)

theorem queue_refines_list_witness:
  "\<exists>q. mapS (impl_op mq_take mq_enqueue try_enqueue_reject force_push)
      [EnqueueHop (VInt 1) Reject, EnqueueHop (VInt 2) DropOldest, TakeHop FAny] (MailboxQueue_new 1 1024) =
      (Inr [EnqueueResult (Inr Enqueued), EnqueueResult (Inr DroppedOldest), Took (Some (VInt 2))], q) \<and>
    contents q = []"
proof -
  have size: "memory_size (VInt n) = 64" "within_nesting_limit (VInt n)" for n
    by (simp_all add: memory_size_def heap_size_limited_def within_nesting_limit_def saturating_add_def
        size_of_value_def MAX_VALUE_DEPTH_def)
  have run: "spec_run 1 1024 [EnqueueHop (VInt 1) Reject, EnqueueHop (VInt 2) DropOldest, TakeHop FAny] [] =
      ([EnqueueResult (Inr Enqueued), EnqueueResult (Inr DroppedOldest), Took (Some (VInt 2))], [])"
    by (simp add: spec_enqueue_def room_def size take_first_def matches_def)
  have "0 < (1 :: nat)" "(1 :: nat) \<le> usize_max" "1024 \<le> usize_max" by simp_all
  from queue_refines_list [OF this, of "[EnqueueHop (VInt 1) Reject, EnqueueHop (VInt 2) DropOldest, TakeHop FAny]"]
  show ?thesis unfolding run fst_conv snd_conv by blast
qed



text \<open>
  C26: a selective receive takes the oldest hop that matches and nothing else.  It returns
  nothing only if no queued hop matches, and then the queue is untouched; otherwise every
  hop in front of the returned one fails the filter, and all other hops stay, in their order.
\<close>

theorem selective_receive_takes_oldest_match:
  assumes "queue_ok q"
  shows "\<exists>m q'. mq_take f q = (Inr m, q') \<and> queue_ok q' \<and>
    (case m of
       None \<Rightarrow> contents q' = contents q \<and> filter (matches f) (contents q) = []
     | Some v \<Rightarrow> \<exists>ys zs. contents q = ys @ v # zs \<and> matches f v \<and> filter (matches f) ys = [] \<and>
         contents q' = ys @ zs)"
proof -
  from mq.tk_law [OF assms, of f] obtain m q' where
    q': "mq_take f q = (Inr m, q')" "queue_ok q'" "(m, contents q') = take_first f (contents q)" by blast
  from take_first_cases [of f "contents q"] show ?thesis
  proof (elim disjE conjE exE)
    assume "take_first f (contents q) = (None, contents q)" "\<forall>v \<in> set (contents q). \<not> matches f v"
    with q' show ?thesis by (simp add: filter_empty_conv)
  next
    fix ys v zs
    assume xs: "contents q = ys @ v # zs" "matches f v" "\<forall>w \<in> set ys. \<not> matches f w"
      and tf: "take_first f (contents q) = (Some v, ys @ zs)"
    from q'(3) tf have m: "m = Some v" "contents q' = ys @ zs" by simp_all
    have "filter (matches f) ys = []" using xs(3) by (simp add: filter_empty_conv)
    with xs(1,2) m(2) have "\<exists>ys zs. contents q = ys @ v # zs \<and> matches f v \<and> filter (matches f) ys = [] \<and>
        contents q' = ys @ zs" by blast
    with q'(1,2) m(1) show ?thesis by auto
  qed
qed

theorem selective_receive_takes_oldest_match_witness:
  "\<exists>m q'. mq_take (FTag 7) (MailboxQueue_new 4 1024) = (Inr m, q') \<and> queue_ok q'"
  using selective_receive_takes_oldest_match [of "MailboxQueue_new 4 1024" "FTag 7"] new_queue_ok [of 4 1024] by auto

text \<open>
  C27: the eviction loop ends, and it ends well: it stops with room for the incoming hop or
  with an empty queue, it removed hops from the front only, and it reports that it dropped
  something exactly when it did.
\<close>

theorem eviction_terminates_with_room:
  assumes "queue_ok q"
  shows "\<exists>b q' ys. evict cost False q = (Inr b, q') \<and> queue_ok q' \<and> contents q = ys @ contents q' \<and>
    (contents q' = [] \<or> room (mq_limit q) (mq_byte_limit q) cost (contents q')) \<and> (b \<longleftrightarrow> ys \<noteq> [])"
proof -
  let ?zs = "make_room (mq_limit q) (mq_byte_limit q) cost (contents q)"
  from evict_spec [OF assms, of cost False] obtain q' where
    q': "evict cost False q = (Inr (?zs \<noteq> contents q), q')" "queue_ok q'" "contents q' = ?zs" by auto
  obtain ys where ys: "contents q = ys @ ?zs" using make_room_suffix by blast
  then have "?zs \<noteq> contents q \<longleftrightarrow> ys \<noteq> []" by (metis append_self_conv2 self_append_conv2)
  with q' ys make_room_fits [of "mq_limit q" "mq_byte_limit q" cost "contents q"] show ?thesis by auto
qed

theorem eviction_terminates_with_room_witness:
  "\<exists>b q'. evict 10 False (MailboxQueue_new 4 1024) = (Inr b, q') \<and> queue_ok q'"
  using eviction_terminates_with_room [of "MailboxQueue_new 4 1024" 10] new_queue_ok [of 4 1024] by auto

text \<open>
  C30: under \<^verbatim>\<open>DropOldest\<close> a hop that is larger than the whole byte budget is refused,
  but only after every hop that was already queued has been thrown away.
\<close>

theorem oversized_hop_wipes_inbox:
  assumes "queue_ok q" and "within_nesting_limit v" and "mq_byte_limit q < memory_size v"
  shows "\<exists>q'. mq_enqueue v DropOldest q = (Inr (Inl ByteLimit), q') \<and> contents q' = []"
  using mq.enq_law [OF assms(1), of v DropOldest] assms(2,3)
  by (auto simp: spec_enqueue_def queue_bounds_def room_def)

theorem oversized_hop_wipes_inbox_witness:
  "\<exists>q'. mq_enqueue (VBytes (replicate 32 0)) DropOldest (MailboxQueue_new 4 16) = (Inr (Inl ByteLimit), q') \<and>
    contents q' = []"
proof (rule oversized_hop_wipes_inbox)
  show "queue_ok (MailboxQueue_new 4 16)" by (rule new_queue_ok) simp_all
  show "within_nesting_limit (VBytes (replicate 32 0))"
    by (simp add: within_nesting_limit_def MAX_VALUE_DEPTH_def)
  show "mq_byte_limit (MailboxQueue_new 4 16) < memory_size (VBytes (replicate 32 0))"
    by (simp add: checked_add_def MailboxQueue_new_def memory_size_def heap_size_limited_def saturating_add_def
        size_of_value_def MAX_VALUE_DEPTH_def)
qed

end
