(* ===== verification/Bf_Process.thy ===== *)
theory Bf_Process
  imports Bf_Vm
begin

text \<open>
  Flows as the scheduler moves them around (\<^verbatim>\<open>scheduler/process.rs\<close>), their
  identifiers, and the restart policy (\<^verbatim>\<open>bytecode/restart.rs\<close>).  A flow owns its
  machine; its quota is the one attached to the machine, because the source shares a single
  \<^verbatim>\<open>Arc\<close> between the two.  Its mailbox is found through the directory by the flow's
  identifier.  The completion channel, the counters and the supervisor handles are used by
  parts of the runtime that are not modelled and are left out.
\<close>

definition HOST :: flow_id where "HOST = 0"

text \<open>The allocator: a wrapping counter and a flag that stays set once it has wrapped.\<close>

record flow_ids =
  next_flow_id :: u64
  ids_exhausted :: bool

definition try_next_flow_id :: "flow_ids \<Rightarrow> flow_id option \<times> flow_ids" where
  "try_next_flow_id s =
     (if ids_exhausted s then (None, s)
      else let id = next_flow_id s; s' = s\<lparr>next_flow_id := id + 1\<rparr> in
        if id = 0 then (None, s'\<lparr>ids_exhausted := True\<rparr>) else (Some id, s'))"

datatype restart_policy = Always | OnFailure | Never

fun policy_as_u8 :: "restart_policy \<Rightarrow> u8" where
  "policy_as_u8 Always = 0"
| "policy_as_u8 OnFailure = 1"
| "policy_as_u8 Never = 2"

definition policy_from_u8 :: "u8 \<Rightarrow> restart_policy option" where
  "policy_from_u8 byte =
     (if byte = 0 then Some Always else if byte = 1 then Some OnFailure
      else if byte = 2 then Some Never else None)"

text \<open>What a parked sender does once its hop is admitted; durations are milliseconds.\<close>

datatype pending_send =
    FireAndForget
  | PendingAsk (ps_dest_reg: u8) (ps_request_id: u64) (ps_sender: u64) (ps_timeout: "nat option")

datatype flow_outcome = Completed "value" | Failed "string"

record flow =
  fl_id :: flow_id
  fl_vm :: vm
  fl_restart_policy :: restart_policy
  fl_pending_message :: "value option"
  fl_last_receive_dest :: "u8 option"
  fl_pending_send :: "pending_send option"
  fl_hop_charge :: nat
  fl_authority :: cap

definition Flow_new :: "flow_id \<Rightarrow> vm \<Rightarrow> restart_policy \<Rightarrow> flow" where
  "Flow_new fid m policy =
     \<lparr>fl_id = fid, fl_vm = m, fl_restart_policy = policy, fl_pending_message = None,
      fl_last_receive_dest = None, fl_pending_send = None, fl_hop_charge = 0,
      fl_authority = cap_root (TFlow fid) 0 None 0\<rparr>"

definition take_hop_charge :: "flow \<Rightarrow> nat \<times> flow" where
  "take_hop_charge fl = (fl_hop_charge fl, fl\<lparr>fl_hop_charge := 0\<rparr>)"

section \<open>Identifiers\<close>

primrec draw_ids :: "nat \<Rightarrow> flow_ids \<Rightarrow> flow_id option list \<times> flow_ids" where
  "draw_ids 0 s = ([], s)"
| "draw_ids (Suc n) s = (let (m, s1) = try_next_flow_id s; (ms, s2) = draw_ids n s1 in (m # ms, s2))"

lemma draw_ids_exhausted: "ids_exhausted s \<Longrightarrow> fst (draw_ids n s) = replicate n None"
  by (induction n) (simp_all add: try_next_flow_id_def split_beta)

lemma draw_ids_wrapped: "next_flow_id s = 0 \<Longrightarrow> fst (draw_ids n s) = replicate n None"
  by (cases n) (simp_all add: try_next_flow_id_def split_beta draw_ids_exhausted Let_def)

text \<open>Identifiers are never the host's, never repeat, and grow.\<close>

lemma draw_ids_fresh:
  "distinct (filter (\<lambda>m. m \<noteq> None) (fst (draw_ids n s))) \<and>
   (\<forall>id. Some id \<in> set (fst (draw_ids n s)) \<longrightarrow> next_flow_id s \<le> id \<and> id \<noteq> HOST)"
proof (induction n arbitrary: s)
  case (Suc n)
  define s1 where "s1 = s\<lparr>next_flow_id := next_flow_id s + 1\<rparr>"
  consider (none) "fst (draw_ids (Suc n) s) = replicate (Suc n) None"
    | (last) "next_flow_id s1 = 0" "try_next_flow_id s = (Some (next_flow_id s), s1)" "next_flow_id s \<noteq> 0"
    | (more) "next_flow_id s < next_flow_id s1" "try_next_flow_id s = (Some (next_flow_id s), s1)" "next_flow_id s \<noteq> 0"
  proof (cases "ids_exhausted s \<or> next_flow_id s = 0")
    case True
    then show thesis using that(1) draw_ids_exhausted draw_ids_wrapped by blast
  next
    case False
    then have "try_next_flow_id s = (Some (next_flow_id s), s1)" by (auto simp: try_next_flow_id_def s1_def Let_def)
    moreover have "next_flow_id s1 = 0 \<or> next_flow_id s < next_flow_id s1"
      unfolding s1_def by simp (metis unatSuc add.commute lessI word_less_nat_alt)
    ultimately show thesis using that(2,3) False by blast
  qed
  then show ?case
  proof cases
    case last
    with draw_ids_wrapped [OF last(1), of n] show ?thesis by (auto simp: split_beta HOST_def)
  next
    case more
    with Suc.IH [of s1] show ?thesis by (auto simp: split_beta HOST_def)
  qed simp
qed simp

end
