(* ===== verification/Bf_Mailbox.thy ===== *)
theory Bf_Mailbox
  imports Bf_Process Bf_Queue
begin

text \<open>
  The mailbox of a flow (\<^verbatim>\<open>scheduler/mailbox/mod.rs\<close>, \<^verbatim>\<open>metrics.rs\<close>): the hop
  queue, the receiver parked inside it with its filter and epoch, the senders waiting for a
  slot, and the closed flag, all behind one mutex.  Every method is one critical section and
  therefore one atomic step; a poisoned mutex makes it fail, and a panic of the queue inside
  the critical section would poison it.
\<close>

section \<open>State\<close>

record mailbox_stats =
  ms_enqueued :: nat
  ms_dequeued :: nat
  ms_rejected :: nat
  ms_rejected_byte_limit :: nat
  ms_dropped_newest :: nat
  ms_dropped_oldest :: nat
  ms_queued_messages :: nat
  ms_queued_bytes :: nat

definition MailboxStats_default :: mailbox_stats where
  "MailboxStats_default =
     \<lparr>ms_enqueued = 0, ms_dequeued = 0, ms_rejected = 0, ms_rejected_byte_limit = 0, ms_dropped_newest = 0,
      ms_dropped_oldest = 0, ms_queued_messages = 0, ms_queued_bytes = 0\<rparr>"

text \<open>A 64-bit counter that stops at its maximum.\<close>

definition sat_inc :: "nat \<Rightarrow> nat" where
  "sat_inc n = saturating_add n 1"

record waiting_sender =
  ws_flow :: flow
  ws_message :: "value"

record mailbox =
  bx_poisoned :: bool
  bx_queue :: mqueue
  bx_parked :: "flow option"
  bx_parked_filter :: wait_filter
  bx_wait_epoch :: u64
  bx_stats :: mailbox_stats
  bx_waiting_senders :: "waiting_sender list"
  bx_closed :: bool
  bx_config :: mailbox_config

datatype delivery = Queued | QueuedDropOldest | DeliveryDroppedNewest | Handoff flow

datatype park_sender_result =
    SenderParked
  | SenderDelivered flow
  | SenderClosed flow
  | SenderWaitersFull flow
  | SenderUndeliverable flow

datatype admit_result = AdmitWoken flow | AdmitIdle | AdmitUndeliverable flow

datatype mailbox_error = BoxPoisoned string | BoxPanic ring_panic

type_synonym 'a boxop = "(mailbox, mailbox_error, 'a) fallible"

definition Mailbox_with_config :: "mailbox_config \<Rightarrow> mailbox" where
  "Mailbox_with_config config =
     \<lparr>bx_poisoned = False, bx_queue = MailboxQueue_new (unat (mc_capacity config)) (mc_bytes config),
      bx_parked = None, bx_parked_filter = FAny, bx_wait_epoch = 0, bx_stats = MailboxStats_default,
      bx_waiting_senders = [], bx_closed = False, bx_config = config\<rparr>"

section \<open>Steps inside the critical section\<close>

definition box_lock :: "string \<Rightarrow> unit boxop" where
  "box_lock site b = (if bx_poisoned b then (Inl (BoxPoisoned site), b) else (Inr (), b))"

definition on_queue :: "'a mqop \<Rightarrow> 'a boxop" where
  "on_queue m b =
     (case m (bx_queue b) of
        (Inl p, q) \<Rightarrow> (Inl (BoxPanic p), b\<lparr>bx_queue := q, bx_poisoned := True\<rparr>)
      | (Inr x, q) \<Rightarrow> (Inr x, b\<lparr>bx_queue := q\<rparr>))"

definition note_stats :: "(mailbox_stats \<Rightarrow> mailbox_stats) \<Rightarrow> unit boxop" where
  "note_stats f b = (Inr (), b\<lparr>bx_stats := f (bx_stats b)\<rparr>)"

definition inc_enqueued :: "mailbox_stats \<Rightarrow> mailbox_stats" where
  "inc_enqueued s = s\<lparr>ms_enqueued := sat_inc (ms_enqueued s)\<rparr>"

definition inc_dequeued :: "mailbox_stats \<Rightarrow> mailbox_stats" where
  "inc_dequeued s = s\<lparr>ms_dequeued := sat_inc (ms_dequeued s)\<rparr>"

definition inc_dropped_oldest :: "mailbox_stats \<Rightarrow> mailbox_stats" where
  "inc_dropped_oldest s = s\<lparr>ms_dropped_oldest := sat_inc (ms_dropped_oldest s)\<rparr>"

definition inc_dropped_newest :: "mailbox_stats \<Rightarrow> mailbox_stats" where
  "inc_dropped_newest s = s\<lparr>ms_dropped_newest := sat_inc (ms_dropped_newest s)\<rparr>"

definition inc_rejected :: "mailbox_full_reason \<Rightarrow> mailbox_stats \<Rightarrow> mailbox_stats" where
  "inc_rejected reason s =
     (let s1 = s\<lparr>ms_rejected := sat_inc (ms_rejected s)\<rparr> in
      if reason = ByteLimit then s1\<lparr>ms_rejected_byte_limit := sat_inc (ms_rejected_byte_limit s1)\<rparr> else s1)"

definition enqueue_locked :: "value \<Rightarrow> overflow_policy \<Rightarrow> (mailbox_full_reason + delivery) boxop" where
  "enqueue_locked v policy =
     bindS (on_queue (mq_enqueue v policy)) (\<lambda>r. case r of
         Inr Enqueued \<Rightarrow> bindS (note_stats inc_enqueued) (\<lambda>_. returnS (Inr Queued))
       | Inr DroppedOldest \<Rightarrow>
           bindS (note_stats (inc_enqueued \<circ> inc_dropped_oldest)) (\<lambda>_. returnS (Inr QueuedDropOldest))
       | Inr DroppedNewest \<Rightarrow>
           bindS (note_stats inc_dropped_newest) (\<lambda>_. returnS (Inr DeliveryDroppedNewest))
       | Inl reason \<Rightarrow> bindS (note_stats (inc_rejected reason)) (\<lambda>_. returnS (Inl reason)))"

text \<open>The parked receiver, if it waits for this hop: it leaves the mailbox with it.\<close>

definition handoff_to :: "value \<Rightarrow> mailbox \<Rightarrow> (flow \<times> mailbox) option" where
  "handoff_to v b =
     (case bx_parked b of
        None \<Rightarrow> None
      | Some fl \<Rightarrow>
          if matches (bx_parked_filter b) v
          then Some (fl, b\<lparr>bx_parked := None, bx_parked_filter := FAny,
                 bx_stats := inc_enqueued (inc_dequeued (bx_stats b))\<rparr>)
          else None)"

section \<open>The methods\<close>

definition box_stats :: "mailbox_stats boxop" where
  "box_stats = bindS (box_lock ''Mailbox::stats'') (\<lambda>_ b.
     (Inr ((bx_stats b)\<lparr>ms_queued_messages := mq_len (bx_queue b), ms_queued_bytes := mq_bytes (bx_queue b)\<rparr>), b))"

definition push :: "value \<Rightarrow> (mailbox_full_reason + delivery) boxop" where
  "push v b =
     (if \<not> within_nesting_limit v then (Inr (Inl ByteLimit), b)
      else bindS (box_lock ''Mailbox::push'') (\<lambda>_ b.
        if bx_closed b then (Inr (Inl Closed), b)
        else case handoff_to v b of
          Some (fl, b') \<Rightarrow> (Inr (Inr (Handoff fl)), b')
        | None \<Rightarrow> enqueue_locked v (mc_overflow (bx_config b)) b) b)"

definition try_pop_filter :: "wait_filter \<Rightarrow> (value option) boxop" where
  "try_pop_filter f =
     bindS (box_lock ''Mailbox::try_pop_filter'') (\<lambda>_.
     bindS (on_queue (mq_take f)) (\<lambda>got.
       if got \<noteq> None then bindS (note_stats inc_dequeued) (\<lambda>_. returnS got) else returnS got))"

definition try_pop :: "(value option) boxop" where
  "try_pop = try_pop_filter FAny"

definition try_pop_match :: "u16 \<Rightarrow> (value option) boxop" where
  "try_pop_match tag = try_pop_filter (FTag tag)"

text \<open>
  The inner result is the flow with the hop that won the race, or the epoch of the park.
  The error of the outer result carries the flow in the source; here the caller keeps it.
\<close>

definition park_filter :: "flow \<Rightarrow> wait_filter \<Rightarrow> (flow + u64) boxop" where
  "park_filter fl f =
     bindS (box_lock ''Mailbox::park_filter'') (\<lambda>_.
     bindS (on_queue (mq_take f)) (\<lambda>got.
       case got of
         Some v \<Rightarrow> bindS (note_stats inc_dequeued) (\<lambda>_. returnS (Inl (fl\<lparr>fl_pending_message := Some v\<rparr>)))
       | None \<Rightarrow> (\<lambda>b. let epoch = bx_wait_epoch b + 1 in
           (Inr (Inr epoch), b\<lparr>bx_wait_epoch := epoch, bx_parked_filter := f, bx_parked := Some fl\<rparr>))))"

definition park :: "flow \<Rightarrow> (flow + u64) boxop" where
  "park fl = park_filter fl FAny"

definition park_match :: "flow \<Rightarrow> u16 \<Rightarrow> (flow + u64) boxop" where
  "park_match fl tag = park_filter fl (FTag tag)"

definition hop_can_ever_fit :: "value \<Rightarrow> mailbox \<Rightarrow> bool" where
  "hop_can_ever_fit v b \<longleftrightarrow> memory_size v \<le> mc_bytes (bx_config b)"

definition take_parked_at :: "u64 \<Rightarrow> (flow option) boxop" where
  "take_parked_at epoch =
     bindS (box_lock ''Mailbox::take_parked_at'') (\<lambda>_ b.
       if bx_wait_epoch b \<noteq> epoch then (Inr None, b)
       else case bx_parked b of
         Some fl \<Rightarrow> (Inr (Some fl), b\<lparr>bx_parked := None, bx_parked_filter := FAny\<rparr>)
       | None \<Rightarrow> (Inr None, b))"

definition take_parked :: "(flow option) boxop" where
  "take_parked =
     bindS (box_lock ''Mailbox::take_parked'') (\<lambda>_ b.
       (Inr (bx_parked b), b\<lparr>bx_parked := None, bx_parked_filter := FAny\<rparr>))"

definition push_system :: "value \<Rightarrow> delivery boxop" where
  "push_system v =
     bindS (box_lock ''Mailbox::push_system'') (\<lambda>_ b.
       if bx_closed b then (Inr Queued, b)
       else case handoff_to v b of
         Some (fl, b') \<Rightarrow> (Inr (Handoff fl), b')
       | None \<Rightarrow>
           bindS (on_queue (force_push v)) (\<lambda>_.
           bindS (note_stats inc_enqueued) (\<lambda>_. returnS Queued)) b)"

definition box_close :: "(flow list) boxop" where
  "box_close =
     bindS (box_lock ''Mailbox::close'') (\<lambda>_ b.
       (Inr (map ws_flow (bx_waiting_senders b)), b\<lparr>bx_closed := True, bx_waiting_senders := []\<rparr>))"

text \<open>A poisoned lock is reported and answered like a closed mailbox.\<close>

definition park_sender :: "flow \<Rightarrow> value \<Rightarrow> park_sender_result boxop" where
  "park_sender fl message b =
     (if \<not> hop_can_ever_fit message b then (Inr (SenderUndeliverable fl), b)
      else if bx_poisoned b then (Inr (SenderClosed fl), b)
      else if bx_closed b then (Inr (SenderClosed fl), b)
      else bindS (on_queue (try_enqueue_reject message)) (\<lambda>r.
        case r of
          Inr _ \<Rightarrow> bindS (note_stats inc_enqueued) (\<lambda>_. returnS (SenderDelivered fl))
        | Inl message \<Rightarrow> (\<lambda>b.
            if unat (mc_capacity (bx_config b)) \<le> length (bx_waiting_senders b)
            then (Inr (SenderWaitersFull fl), b)
            else (Inr SenderParked, b\<lparr>bx_waiting_senders :=
                    bx_waiting_senders b @ [\<lparr>ws_flow = fl, ws_message = message\<rparr>]\<rparr>))) b)"

definition admit_waiting_sender :: "admit_result boxop" where
  "admit_waiting_sender =
     bindS (box_lock ''Mailbox::admit_waiting_sender'') (\<lambda>_ b.
       if bx_closed b then (Inr AdmitIdle, b)
       else case bx_waiting_senders b of
         [] \<Rightarrow> (Inr AdmitIdle, b)
       | waiter # rest \<Rightarrow>
           let b1 = b\<lparr>bx_waiting_senders := rest\<rparr> in
           if \<not> can_ever_fit (memory_size (ws_message waiter)) (bx_queue b1)
           then (Inr (AdmitUndeliverable (ws_flow waiter)), b1)
           else bindS (enqueue_locked (ws_message waiter) Reject) (\<lambda>r.
             case r of
               Inr _ \<Rightarrow> returnS (AdmitWoken (ws_flow waiter))
             | Inl _ \<Rightarrow> (\<lambda>b. (Inr AdmitIdle, b\<lparr>bx_waiting_senders := waiter # bx_waiting_senders b\<rparr>))) b1)"

definition take_waiting_sender :: "flow_id \<Rightarrow> (flow option) boxop" where
  "take_waiting_sender sender =
     bindS (box_lock ''Mailbox::take_waiting_sender'') (\<lambda>_ b.
       case find (\<lambda>i. fl_id (ws_flow (bx_waiting_senders b ! i)) = sender) [0..<length (bx_waiting_senders b)] of
         Some pos \<Rightarrow>
           (Inr (Some (ws_flow (bx_waiting_senders b ! pos))),
            b\<lparr>bx_waiting_senders := take pos (bx_waiting_senders b) @ drop (Suc pos) (bx_waiting_senders b)\<rparr>)
       | None \<Rightarrow> (Inr None, b))"

section \<open>Well-formed mailboxes\<close>

definition config_ok :: "mailbox_config \<Rightarrow> bool" where
  "config_ok c \<longleftrightarrow> MailboxCapacity_new (mc_capacity c) = Some (mc_capacity c) \<and> MailboxBytes_new (mc_bytes c) = Some (mc_bytes c)"

definition inbox_ok :: "mailbox_config \<Rightarrow> mqueue \<Rightarrow> bool" where
  "inbox_ok c q \<longleftrightarrow> queue_ok q \<and> queue_bounds q = (unat (mc_capacity c), mc_bytes c) \<and>
     within_bounds (unat (mc_capacity c)) (mc_bytes c) (contents q)"

definition box_ok :: "mailbox \<Rightarrow> bool" where
  "box_ok b \<longleftrightarrow> config_ok (bx_config b) \<and> \<not> bx_poisoned b \<and> inbox_ok (bx_config b) (bx_queue b) \<and>
     length (bx_waiting_senders b) \<le> unat (mc_capacity (bx_config b))"

text \<open>A parked receiver has nothing to receive.\<close>

definition wake_ok :: "mailbox \<Rightarrow> bool" where
  "wake_ok b \<longleftrightarrow> (bx_parked b \<noteq> None \<longrightarrow> (\<forall>v \<in> set (contents (bx_queue b)). \<not> matches (bx_parked_filter b) v))"

lemma config_positive:
  assumes "config_ok c"
  shows "0 < unat (mc_capacity c)" "unat (mc_capacity c) \<le> usize_max" "mc_bytes c \<le> usize_max"
proof -
  have "mc_capacity c \<noteq> 0" "mc_capacity c \<le> 1048576"
    using assms by (auto simp: config_ok_def MailboxCapacity_new_def CAPACITY_MIN_def CAPACITY_MAX_def split: if_splits)
  then have "0 < unat (mc_capacity c)" "unat (mc_capacity c) \<le> 1048576"
    by (simp_all add: word_le_nat_alt unat_gt_0)
  then show "0 < unat (mc_capacity c)" "unat (mc_capacity c) \<le> usize_max" by simp_all
  show "mc_bytes c \<le> usize_max"
    using assms by (simp add: config_ok_def MailboxBytes_new_def BYTES_MAX_def split: if_splits)
qed

lemma inbox_step:
  assumes "inbox_ok c q" and "config_ok c"
  shows "\<exists>r q'. impl_op mq_take mq_enqueue try_enqueue_reject force_push op q = (Inr r, q') \<and> inbox_ok c q' \<and>
    (r, contents q') = spec_op op (unat (mc_capacity c)) (mc_bytes c) (contents q)"
proof -
  have ok: "queue_ok q" using assms(1) by (simp add: inbox_ok_def)
  from mq.step_simulates [OF ok, of op] obtain r q' where
    q': "impl_op mq_take mq_enqueue try_enqueue_reject force_push op q = (Inr r, q')" "queue_ok q'"
    "queue_bounds q' = queue_bounds q"
    "(r, contents q') = spec_op op (fst (queue_bounds q)) (snd (queue_bounds q)) (contents q)" by blast
  moreover have "within_bounds (unat (mc_capacity c)) (mc_bytes c) (contents q')"
    using spec_op_bounds [of "unat (mc_capacity c)" "mc_bytes c" "contents q" op] q'(4) assms config_positive(1) [OF assms(2)]
    by (simp add: inbox_ok_def) (metis snd_conv)
  ultimately show ?thesis using assms(1) by (auto simp: inbox_ok_def)
qed

text \<open>The four queue operations, one by one.\<close>

lemma inbox_take:
  assumes "inbox_ok c q" and "config_ok c"
  obtains m q' where "mq_take f q = (Inr m, q')" "inbox_ok c q'" "(m, contents q') = take_first f (contents q)"
  using inbox_step [OF assms, of "TakeHop f"] by (auto simp: result_simps split: prod.splits)

lemma inbox_enqueue:
  assumes "inbox_ok c q" and "config_ok c"
  obtains r q' where "mq_enqueue v policy q = (Inr r, q')" "inbox_ok c q'"
    "(r, contents q') = spec_enqueue v policy (unat (mc_capacity c)) (mc_bytes c) (contents q)"
  using inbox_step [OF assms, of "EnqueueHop v policy"] by (auto simp: result_simps split: prod.splits)

lemma inbox_offer:
  assumes "inbox_ok c q" and "config_ok c"
  obtains r q' where "try_enqueue_reject v q = (Inr r, q')" "inbox_ok c q'"
    "(r, contents q') = spec_try_enqueue v (unat (mc_capacity c)) (mc_bytes c) (contents q)"
  using inbox_step [OF assms, of "OfferHop v"] by (auto simp: result_simps split: prod.splits)

lemma inbox_force:
  assumes "inbox_ok c q" and "config_ok c"
  obtains q' where "force_push v q = (Inr (), q')" "inbox_ok c q'"
    "contents q' = snd (spec_force_push v (unat (mc_capacity c)) (mc_bytes c) (contents q))"
  using inbox_step [OF assms, of "ForceHop v"] by (auto simp: result_simps split: prod.splits)

lemma make_room_subset: "set (make_room limit byte_limit cost xs) \<subseteq> set xs"
  by (induction xs) auto

lemma spec_enqueue_subset: "set (snd (spec_enqueue v policy limit byte_limit xs)) \<subseteq> insert v (set xs)"
  using make_room_subset [of limit byte_limit "memory_size v" xs]
  by (auto simp: spec_enqueue_def split: overflow_policy.splits)

lemma spec_force_subset: "set (snd (spec_force_push v limit byte_limit xs)) \<subseteq> insert v (set xs)"
  using make_room_subset [of limit byte_limit "memory_size v" xs] by (auto simp: spec_force_push_def)

lemma take_first_subset: "set (snd (take_first f xs)) \<subseteq> set xs"
  using take_first_cases [of f xs] by auto

section \<open>What every method keeps\<close>

definition box_inv :: "mailbox \<Rightarrow> bool" where
  "box_inv b \<longleftrightarrow> box_ok b \<and> wake_ok b"

text \<open>A method is sound for the mailboxes with a property: it succeeds and keeps the invariant.\<close>

definition sound :: "(mailbox \<Rightarrow> bool) \<Rightarrow> 'a boxop \<Rightarrow> bool" where
  "sound P m \<longleftrightarrow> (\<forall>b. box_inv b \<longrightarrow> P b \<longrightarrow> (\<exists>x b'. m b = (Inr x, b') \<and> box_inv b' \<and> bx_config b' = bx_config b))"

lemma soundI:
  "(\<And>b. box_inv b \<Longrightarrow> P b \<Longrightarrow> \<exists>x b'. m b = (Inr x, b') \<and> box_inv b' \<and> bx_config b' = bx_config b) \<Longrightarrow> sound P m"
  by (simp add: sound_def)

lemma lock_open: "box_inv b \<Longrightarrow> box_lock site b = (Inr (), b)"
  by (simp add: box_inv_def box_ok_def box_lock_def)

lemma inv_parts:
  assumes "box_inv b"
  shows "inbox_ok (bx_config b) (bx_queue b)" "config_ok (bx_config b)" "\<not> bx_poisoned b"
    "length (bx_waiting_senders b) \<le> unat (mc_capacity (bx_config b))"
    "bx_parked b = Some fl \<Longrightarrow> v \<in> set (contents (bx_queue b)) \<Longrightarrow> \<not> matches (bx_parked_filter b) v"
  using assms by (auto simp: box_inv_def box_ok_def wake_ok_def)

lemma box_invI:
  assumes "inbox_ok (bx_config b) (bx_queue b)" and "config_ok (bx_config b)" and "\<not> bx_poisoned b"
    and "length (bx_waiting_senders b) \<le> unat (mc_capacity (bx_config b))"
    and "\<And>fl v. bx_parked b = Some fl \<Longrightarrow> v \<in> set (contents (bx_queue b)) \<Longrightarrow> \<not> matches (bx_parked_filter b) v"
  shows "box_inv b"
  using assms by (auto simp: box_inv_def box_ok_def wake_ok_def)

lemmas box_run_simps = bindS_def returnS_def on_queue_def note_stats_def lock_open

lemma sound_stats: "sound P box_stats"
  by (rule soundI) (simp add: box_stats_def box_run_simps)

lemma sound_take_parked: "sound P take_parked"
  by (rule soundI) (auto simp: take_parked_def box_run_simps box_inv_def box_ok_def wake_ok_def)

lemma sound_take_parked_at: "sound P (take_parked_at epoch)"
  by (rule soundI)
    (auto simp: take_parked_at_def box_run_simps box_inv_def box_ok_def wake_ok_def split: option.splits)

lemma sound_close: "sound P box_close"
  by (rule soundI) (auto simp: box_close_def box_run_simps box_inv_def box_ok_def wake_ok_def)

lemma sound_take_waiting: "sound P (take_waiting_sender sender)"
  by (rule soundI)
    (auto simp: take_waiting_sender_def box_run_simps box_inv_def box_ok_def wake_ok_def split: option.splits)

lemma sound_try_pop: "sound P (try_pop_filter f)"
proof (rule soundI)
  fix b assume inv: "box_inv b"
  obtain m q' where q': "mq_take f (bx_queue b) = (Inr m, q')" "inbox_ok (bx_config b) q'"
    "(m, contents q') = take_first f (contents (bx_queue b))"
    using inbox_take [OF inv_parts(1,2) [OF inv]] by blast
  have sub: "set (contents q') \<subseteq> set (contents (bx_queue b))"
    using take_first_subset [of f "contents (bx_queue b)"] q'(3) by (metis snd_conv)
  have "box_inv (b\<lparr>bx_queue := q', bx_stats := s\<rparr>)" for s
    using inv_parts [OF inv] q'(2) sub by (intro box_invI) auto
  from this [of "bx_stats b"] this [of "inc_dequeued (bx_stats b)"] q'(1) inv show "\<exists>x b'. try_pop_filter f b = (Inr x, b') \<and> box_inv b' \<and> bx_config b' = bx_config b"
    by (simp add: try_pop_filter_def box_run_simps)
qed

lemma sound_park: "sound P (park_filter fl f)"
proof (rule soundI)
  fix b assume inv: "box_inv b"
  obtain m q' where q': "mq_take f (bx_queue b) = (Inr m, q')" "inbox_ok (bx_config b) q'"
    "(m, contents q') = take_first f (contents (bx_queue b))"
    using inbox_take [OF inv_parts(1,2) [OF inv]] by blast
  have sub: "set (contents q') \<subseteq> set (contents (bx_queue b))"
    using take_first_subset [of f "contents (bx_queue b)"] q'(3) by (metis snd_conv)
  show "\<exists>x b'. park_filter fl f b = (Inr x, b') \<and> box_inv b' \<and> bx_config b' = bx_config b"
  proof (cases m)
    case (Some v)
    have "box_inv (b\<lparr>bx_queue := q', bx_stats := s\<rparr>)" for s
      using inv_parts [OF inv] q'(2) sub by (intro box_invI) auto
    with Some q'(1) inv show ?thesis by (simp add: park_filter_def box_run_simps)
  next
    case None
    have "\<forall>v \<in> set (contents q'). \<not> matches f v"
      using take_first_cases [of f "contents (bx_queue b)"] q'(3) None by auto
    then have "box_inv (b\<lparr>bx_queue := q', bx_wait_epoch := e, bx_parked_filter := f, bx_parked := Some fl\<rparr>)" for e
      using inv_parts [OF inv] q'(2) by (intro box_invI) auto
    with None q'(1) inv show ?thesis by (simp add: park_filter_def box_run_simps Let_def)
  qed
qed

lemma handoff_cases:
  assumes "box_inv b"
  shows "(\<exists>fl b'. handoff_to v b = Some (fl, b') \<and> box_inv b' \<and> bx_config b' = bx_config b) \<or>
    handoff_to v b = None \<and> (\<forall>fl. bx_parked b = Some fl \<longrightarrow> \<not> matches (bx_parked_filter b) v)"
  using inv_parts [OF assms] by (auto simp: handoff_to_def intro!: box_invI split: option.splits if_splits)

text \<open>Queueing a hop is sound where no parked receiver waits for it.\<close>

lemma sound_enqueue_locked:
  "sound (\<lambda>b. \<forall>fl. bx_parked b = Some fl \<longrightarrow> \<not> matches (bx_parked_filter b) v) (enqueue_locked v policy)"
proof (rule soundI)
  fix b assume inv: "box_inv b" and nm: "\<forall>fl. bx_parked b = Some fl \<longrightarrow> \<not> matches (bx_parked_filter b) v"
  obtain r q' where q': "mq_enqueue v policy (bx_queue b) = (Inr r, q')" "inbox_ok (bx_config b) q'"
    "(r, contents q') = spec_enqueue v policy (unat (mc_capacity (bx_config b))) (mc_bytes (bx_config b)) (contents (bx_queue b))"
    using inbox_enqueue [OF inv_parts(1,2) [OF inv]] by blast
  have sub: "set (contents q') \<subseteq> insert v (set (contents (bx_queue b)))"
    using spec_enqueue_subset q'(3) by (metis snd_conv)
  have inv': "box_inv (b\<lparr>bx_queue := q', bx_stats := s\<rparr>)" for s
    using inv_parts [OF inv] q'(2) sub nm by (intro box_invI) auto
  show "\<exists>x b'. enqueue_locked v policy b = (Inr x, b') \<and> box_inv b' \<and> bx_config b' = bx_config b"
    using q'(1) inv'
    by (cases r) (auto simp: enqueue_locked_def box_run_simps split: enqueue_effect.splits)
qed

lemma sound_push: "sound P (push v)"
proof (rule soundI)
  fix b assume inv: "box_inv b"
  from handoff_cases [OF inv, of v] inv
    sound_enqueue_locked [of v "mc_overflow (bx_config b)", unfolded sound_def, rule_format, OF inv]
  show "\<exists>x b'. push v b = (Inr x, b') \<and> box_inv b' \<and> bx_config b' = bx_config b"
    by (auto simp: push_def box_run_simps)
qed

lemma sound_push_system: "sound P (push_system v)"
proof (rule soundI)
  fix b assume inv: "box_inv b"
  obtain q' where q': "force_push v (bx_queue b) = (Inr (), q')" "inbox_ok (bx_config b) q'"
    "contents q' = snd (spec_force_push v (unat (mc_capacity (bx_config b))) (mc_bytes (bx_config b)) (contents (bx_queue b)))"
    using inbox_force [OF inv_parts(1,2) [OF inv]] by blast
  have sub: "set (contents q') \<subseteq> insert v (set (contents (bx_queue b)))"
    using spec_force_subset q'(3) by metis
  have "box_inv (b\<lparr>bx_queue := q', bx_stats := s\<rparr>)"
    if "\<forall>fl. bx_parked b = Some fl \<longrightarrow> \<not> matches (bx_parked_filter b) v" for s
    using inv_parts [OF inv] q'(2) sub that by (intro box_invI) auto
  with handoff_cases [OF inv, of v] inv q'(1)
  show "\<exists>x b'. push_system v b = (Inr x, b') \<and> box_inv b' \<and> bx_config b' = bx_config b"
    by (auto simp: push_system_def box_run_simps)
qed

lemma sound_park_sender: "sound (\<lambda>b. bx_parked b = None) (park_sender fl v)"
proof (rule soundI)
  fix b assume inv: "box_inv b" and np: "bx_parked b = None"
  obtain r q' where q': "try_enqueue_reject v (bx_queue b) = (Inr r, q')" "inbox_ok (bx_config b) q'"
    using inbox_offer [OF inv_parts(1,2) [OF inv]] by blast
  have "box_inv (b\<lparr>bx_queue := q', bx_stats := s\<rparr>)" for s
    using inv_parts [OF inv] q'(2) np by (intro box_invI) auto
  moreover have "box_inv (b\<lparr>bx_queue := q', bx_waiting_senders := ws\<rparr>)"
    if "length ws \<le> unat (mc_capacity (bx_config b))" for ws
    using inv_parts [OF inv] q'(2) np that by (intro box_invI) auto
  moreover have "box_inv (b\<lparr>bx_queue := q'\<rparr>)"
    using inv_parts [OF inv] q'(2) np by (intro box_invI) auto
  ultimately show "\<exists>x b'. park_sender fl v b = (Inr x, b') \<and> box_inv b' \<and> bx_config b' = bx_config b"
    using q'(1) inv by (cases r) (auto simp: park_sender_def box_run_simps)
qed

lemma sound_admit: "sound (\<lambda>b. bx_parked b = None) admit_waiting_sender"
proof (rule soundI)
  fix b assume inv: "box_inv b" and np: "bx_parked b = None"
  show "\<exists>x b'. admit_waiting_sender b = (Inr x, b') \<and> box_inv b' \<and> bx_config b' = bx_config b"
  proof (cases "bx_waiting_senders b")
    case Nil
    with inv show ?thesis by (simp add: admit_waiting_sender_def box_run_simps)
  next
    case (Cons w rest)
    define b1 where "b1 = b\<lparr>bx_waiting_senders := rest\<rparr>"
    have inv1: "box_inv b1" using inv_parts [OF inv] Cons by (intro box_invI) (auto simp: b1_def)
    obtain r q' where q': "mq_enqueue (ws_message w) Reject (bx_queue b1) = (Inr r, q')" "inbox_ok (bx_config b1) q'"
      using inbox_enqueue [OF inv_parts(1,2) [OF inv1]] by blast
    have "box_inv (b1\<lparr>bx_queue := q', bx_stats := s\<rparr>)" "box_inv (b1\<lparr>bx_queue := q', bx_stats := s, bx_waiting_senders := w # rest\<rparr>)" for s
      using inv_parts [OF inv] q'(2) np Cons by (intro box_invI; simp add: b1_def)+
    with Cons inv inv1 q'(1) show ?thesis
      by (cases r) (auto simp: admit_waiting_sender_def enqueue_locked_def box_run_simps b1_def Let_def
          split: enqueue_effect.splits)
  qed
qed

section \<open>Runs of a mailbox\<close>

datatype box_op =
    DoPush "value"
  | DoPushSystem "value"
  | DoTryPop wait_filter
  | DoPark flow wait_filter
  | DoTakeParkedAt u64
  | DoTakeParked
  | DoClose
  | DoParkSender flow "value"
  | DoAdmit
  | DoTakeWaiting flow_id

definition box_do :: "'a boxop \<Rightarrow> mailbox \<Rightarrow> (mailbox_error + unit) \<times> mailbox" where
  "box_do m = bindS m (\<lambda>_. returnS ())"

primrec box_apply :: "box_op \<Rightarrow> mailbox \<Rightarrow> (mailbox_error + unit) \<times> mailbox" where
  "box_apply (DoPush v) = box_do (push v)"
| "box_apply (DoPushSystem v) = box_do (push_system v)"
| "box_apply (DoTryPop f) = box_do (try_pop_filter f)"
| "box_apply (DoPark fl f) = box_do (park_filter fl f)"
| "box_apply (DoTakeParkedAt e) = box_do (take_parked_at e)"
| "box_apply DoTakeParked = box_do take_parked"
| "box_apply DoClose = box_do box_close"
| "box_apply (DoParkSender fl v) = box_do (park_sender fl v)"
| "box_apply DoAdmit = box_do admit_waiting_sender"
| "box_apply (DoTakeWaiting sender) = box_do (take_waiting_sender sender)"

text \<open>The retried sends of waiting senders, which do not look at the parked receiver.\<close>

definition retries_send :: "box_op \<Rightarrow> bool" where
  "retries_send op = (case op of DoParkSender _ _ \<Rightarrow> True | DoAdmit \<Rightarrow> True | _ \<Rightarrow> False)"

inductive box_reach :: "mailbox_config \<Rightarrow> mailbox \<Rightarrow> bool" for c where
  reach_new: "box_reach c (Mailbox_with_config c)"
| reach_step: "box_reach c b \<Longrightarrow> (retries_send op \<Longrightarrow> bx_parked b = None) \<Longrightarrow> box_apply op b = (r, b') \<Longrightarrow> box_reach c b'"

lemma sound_do: "sound P m \<Longrightarrow> sound P (box_do m)"
  by (fastforce simp: sound_def box_do_def bindS_def returnS_def)

lemma sound_apply: "sound (\<lambda>b. retries_send op \<longrightarrow> bx_parked b = None) (box_apply op)"
  using sound_park_sender sound_admit
  by (cases op)
    (auto simp: retries_send_def intro!: sound_do sound_push sound_push_system sound_try_pop sound_park
      sound_take_parked_at sound_take_parked sound_close sound_take_waiting)

lemma new_box_inv: "config_ok c \<Longrightarrow> box_inv (Mailbox_with_config c)"
  using config_positive [of c] new_queue_ok [of "unat (mc_capacity c)" "mc_bytes c"]
  by (intro box_invI) (simp_all add: Mailbox_with_config_def inbox_ok_def within_bounds_def)

lemma box_reach_inv: "box_reach c b \<Longrightarrow> config_ok c \<Longrightarrow> box_inv b"
proof (induction rule: box_reach.induct)
  case reach_new
  then show ?case by (rule new_box_inv)
next
  case (reach_step b op r b')
  then show ?case using sound_apply [of op] unfolding sound_def by fastforce
qed

section \<open>Epochs\<close>

primrec box_run :: "box_op list \<Rightarrow> mailbox \<Rightarrow> (mailbox_error + unit) \<times> mailbox" where
  "box_run [] = returnS ()"
| "box_run (op # ops) = bindS (box_apply op) (\<lambda>_. box_run ops)"

text \<open>An operation that is not a park leaves the epoch, and the parked flow stays or leaves.\<close>

definition same_wait :: "mailbox \<Rightarrow> mailbox \<Rightarrow> bool" where
  "same_wait b b' \<longleftrightarrow> bx_wait_epoch b' = bx_wait_epoch b \<and>
     (bx_parked b' = None \<or> bx_parked b' = bx_parked b \<and> bx_parked_filter b' = bx_parked_filter b)"

lemma same_wait_refl [simp]: "same_wait b b"
  by (simp add: same_wait_def)

lemma same_wait_trans: "same_wait b b1 \<Longrightarrow> same_wait b1 b2 \<Longrightarrow> same_wait b b2"
  by (auto simp: same_wait_def)

text \<open>A step keeps the wait whatever its result.\<close>

definition keeps_wait :: "'a boxop \<Rightarrow> bool" where
  "keeps_wait m \<longleftrightarrow> (\<forall>b r b'. m b = (r, b') \<longrightarrow> same_wait b b')"

lemma keeps_waitD: "keeps_wait m \<Longrightarrow> m b = (r, b') \<Longrightarrow> same_wait b b'"
  by (simp add: keeps_wait_def)

lemma keeps_bind: "keeps_wait m \<Longrightarrow> (\<And>x. keeps_wait (f x)) \<Longrightarrow> keeps_wait (bindS m f)"
  unfolding keeps_wait_def bindS_def by (fastforce split: prod.splits sum.splits intro: same_wait_trans)

lemma keeps_steps:
  "keeps_wait (returnS x)" "keeps_wait (box_lock site)" "keeps_wait (on_queue qm)" "keeps_wait (note_stats g)"
  by (auto simp: keeps_wait_def same_wait_def returnS_def box_lock_def on_queue_def note_stats_def
      split: prod.splits sum.splits if_splits)

lemma keeps_enqueue: "keeps_wait (enqueue_locked v policy)"
  unfolding enqueue_locked_def
  by (intro keeps_bind keeps_steps) (auto intro!: keeps_bind keeps_steps split: sum.split enqueue_effect.split)

lemma handoff_wait: "handoff_to v b = Some (fl, b') \<Longrightarrow> same_wait b b'"
  by (auto simp: handoff_to_def same_wait_def split: option.splits if_splits)

lemma keeps_push: "keeps_wait (push v)"
proof -
  have "keeps_wait (\<lambda>b. if bx_closed b then (Inr (Inl Closed), b)
      else case handoff_to v b of Some (fl, b') \<Rightarrow> (Inr (Inr (Handoff fl)), b')
        | None \<Rightarrow> enqueue_locked v (mc_overflow (bx_config b)) b)"
    using keeps_enqueue [of v] handoff_wait [of v]
    by (auto simp: keeps_wait_def split: option.splits if_splits)
  from keeps_bind [OF keeps_steps(2) this] show ?thesis
    by (auto simp: keeps_wait_def push_def split: if_splits)
qed

lemma keeps_push_system: "keeps_wait (push_system v)"
proof -
  have "keeps_wait (bindS (on_queue (force_push v)) (\<lambda>_. bindS (note_stats inc_enqueued) (\<lambda>_. returnS Queued)))"
    by (intro keeps_bind keeps_steps)
  then show ?thesis
    unfolding push_system_def using handoff_wait [of v]
    by (intro keeps_bind keeps_steps) (auto simp: keeps_wait_def split: option.splits if_splits)
qed

lemma keeps_try_pop: "keeps_wait (try_pop_filter f)"
  unfolding try_pop_filter_def by (auto intro!: keeps_bind keeps_steps)

lemma keeps_simple:
  "keeps_wait (take_parked_at e)" "keeps_wait take_parked" "keeps_wait box_close" "keeps_wait (take_waiting_sender s)"
  unfolding take_parked_at_def take_parked_def box_close_def take_waiting_sender_def
  by (intro keeps_bind keeps_steps; auto simp: keeps_wait_def same_wait_def split: option.splits if_splits)+

lemma keeps_park_sender: "keeps_wait (park_sender fl v)"
proof -
  have "keeps_wait (bindS (on_queue (try_enqueue_reject v)) (\<lambda>r.
        case r of
          Inr _ \<Rightarrow> bindS (note_stats inc_enqueued) (\<lambda>_. returnS (SenderDelivered fl))
        | Inl message \<Rightarrow> (\<lambda>b.
            if unat (mc_capacity (bx_config b)) \<le> length (bx_waiting_senders b)
            then (Inr (SenderWaitersFull fl), b)
            else (Inr SenderParked, b\<lparr>bx_waiting_senders :=
                    bx_waiting_senders b @ [\<lparr>ws_flow = fl, ws_message = message\<rparr>]\<rparr>))))"
    by (intro keeps_bind keeps_steps)
      (auto simp: keeps_wait_def same_wait_def note_stats_def bindS_def returnS_def split: sum.splits)
  then show ?thesis by (auto simp: keeps_wait_def park_sender_def split: if_splits)
qed

lemma keeps_admit: "keeps_wait admit_waiting_sender"
proof -
  have "keeps_wait (bindS (enqueue_locked (ws_message w) Reject) (\<lambda>r.
      case r of Inr _ \<Rightarrow> returnS (AdmitWoken (ws_flow w))
      | Inl _ \<Rightarrow> (\<lambda>b. (Inr AdmitIdle, b\<lparr>bx_waiting_senders := w # bx_waiting_senders b\<rparr>))))" for w
    by (intro keeps_bind keeps_enqueue)
      (auto simp: keeps_wait_def same_wait_def returnS_def split: sum.splits)
  then have "same_wait b b'" if "bindS (enqueue_locked (ws_message w) Reject) (\<lambda>r.
      case r of Inr _ \<Rightarrow> returnS (AdmitWoken (ws_flow w))
      | Inl _ \<Rightarrow> (\<lambda>b. (Inr AdmitIdle, b\<lparr>bx_waiting_senders := w # bx_waiting_senders b\<rparr>)))
      (b\<lparr>bx_waiting_senders := rest\<rparr>) = (r, b')" for w rest b r b'
    using that keeps_waitD by (fastforce simp: same_wait_def)
  then show ?thesis
    unfolding admit_waiting_sender_def
    by (intro keeps_bind keeps_steps)
      (auto simp: keeps_wait_def Let_def same_wait_def split: list.splits if_splits)
qed

lemma keeps_do: "keeps_wait m \<Longrightarrow> keeps_wait (box_do m)"
  unfolding box_do_def by (intro keeps_bind keeps_steps)

lemma park_epoch:
  "park_filter fl f b = (Inr r, b') \<Longrightarrow>
     (case r of Inl _ \<Rightarrow> same_wait b b'
      | Inr e \<Rightarrow> e = bx_wait_epoch b + 1 \<and> bx_wait_epoch b' = e \<and> bx_parked b' = Some fl \<and> bx_parked_filter b' = f)"
  by (auto simp: park_filter_def result_simps box_lock_def on_queue_def note_stats_def same_wait_def Let_def
      split: option.splits sum.splits prod.splits if_splits)

lemma apply_epoch:
  assumes "box_apply op b = (Inr u, b')"
  shows "same_wait b b' \<or> bx_wait_epoch b' = bx_wait_epoch b + 1"
proof (cases "\<exists>fl f. op = DoPark fl f")
  case True
  with assms show ?thesis
    by (auto simp: box_do_def result_simps dest!: park_epoch split: sum.splits)
next
  case False
  then have "keeps_wait (box_apply op)"
    by (cases op) (auto intro!: keeps_do keeps_push keeps_push_system keeps_try_pop keeps_simple
        keeps_park_sender keeps_admit)
  with assms keeps_waitD show ?thesis by blast
qed

text \<open>How many parks a run installed, and whether the first wait is still the current one.\<close>

lemma run_epoch:
  assumes "box_run ops b = (Inr u, b')"
  shows "\<exists>k \<le> length ops. bx_wait_epoch b' = bx_wait_epoch b + of_nat k \<and> (k = 0 \<longrightarrow> same_wait b b')"
  using assms
proof (induction ops arbitrary: b)
  case (Cons op ops)
  then obtain b1 where b1: "box_apply op b = (Inr (), b1)" "box_run ops b1 = (Inr u, b')"
    by (auto simp: result_simps)
  from Cons.IH [OF b1(2)] obtain k where k: "k \<le> length ops" "bx_wait_epoch b' = bx_wait_epoch b1 + of_nat k"
    "k = 0 \<Longrightarrow> same_wait b1 b'" by blast
  from apply_epoch [OF b1(1)] show ?case
  proof
    assume "same_wait b b1"
    with k show ?thesis by (intro exI [of _ k]) (auto simp: same_wait_def intro: same_wait_trans)
  next
    assume "bx_wait_epoch b1 = bx_wait_epoch b + 1"
    with k show ?thesis by (intro exI [of _ "Suc k"]) (auto simp: ac_simps)
  qed
qed (auto simp: returnS_def)

section \<open>A mailbox of one slot\<close>

text \<open>A mailbox of one message, and a run of it evaluated method by method.\<close>

definition one_slot :: mailbox_config where
  "one_slot = \<lparr>mc_capacity = 1, mc_bytes = 4096, mc_overflow = Reject\<rparr>"

definition reply_hop :: "value" where
  "reply_hop = VMessage (Message_new 9 5 1 (VInt 0))"

lemma one_slot_ok [simp]: "config_ok one_slot"
  by (simp add: one_slot_def config_ok_def MailboxCapacity_new_def CAPACITY_MIN_def CAPACITY_MAX_def
      MailboxBytes_new_def BYTES_MIN_def BYTES_MAX_def)

text \<open>Its queue, with the ring not yet allocated, empty, and with its one hop.\<close>

definition slot_queue :: "value option list \<Rightarrow> nat \<Rightarrow> nat \<Rightarrow> mqueue" where
  "slot_queue buf n bytes =
     \<lparr>mq_buf = buf, mq_head = 0, mq_len = n, mq_limit = 1, mq_bytes = bytes, mq_byte_limit = 4096\<rparr>"

lemmas slot_queue_simps = slot_queue_def bindS_def returnS_def Let_def checked_add_def is_full_def would_exceed_bytes_def
  reserve_for_push_def charge_bytes_def push_back_def slot_put_def slot_ref_def slot_take_def mq_capacity_def
  pop_front_def take_matching_def refund_def accept_hop_def mq_take_def mq_enqueue_def try_enqueue_reject_def

definition small_hop :: "value \<Rightarrow> bool" where
  "small_hop v \<longleftrightarrow> within_nesting_limit v \<and> memory_size v \<le> 4096"

lemma small_hops [simp]: "small_hop (VInt n)" "small_hop reply_hop"
  by (simp_all add: small_hop_def reply_hop_def Message_new_def within_nesting_limit_def MAX_VALUE_DEPTH_def
      memory_size_def heap_size_limited_def saturating_add_def size_of_value_def checked_add_def)

lemma slot_enqueue:
  assumes "small_hop v"
  shows "mq_enqueue v Reject (slot_queue [] 0 0) = (Inr (Inr Enqueued), slot_queue [Some v] 1 (memory_size v))"
    and "try_enqueue_reject v (slot_queue [None] 0 0) = (Inr (Inr ()), slot_queue [Some v] 1 (memory_size v))"
    and "mq_enqueue v Reject (slot_queue [Some w] 1 m) = (Inr (Inl MessageLimit), slot_queue [Some w] 1 m)"
    and "try_enqueue_reject v (slot_queue [Some w] 1 m) = (Inr (Inl v), slot_queue [Some w] 1 m)"
  using assms by (simp_all add: slot_queue_simps small_hop_def)

lemma slot_dequeue:
  "mq_take FAny (slot_queue [Some v] 1 (memory_size v)) = (Inr (Some v), slot_queue [None] 0 0)"
  "mq_take FAny (slot_queue [None] 0 0) = (Inr None, slot_queue [None] 0 0)"
  "mq_take f (slot_queue [] 0 0) = (Inr None, slot_queue [] 0 0)"
  "mq_take (FCorrelation 5 None) (slot_queue [Some reply_hop] 1 (memory_size reply_hop)) =
     (Inr (Some reply_hop), slot_queue [None] 0 0)"
  by (simp_all add: slot_queue_simps remove_at_def shift_loop.simps matches_def reply_hop_def Message_new_def)

lemma slot_contents: "contents (slot_queue [Some v] 1 m) = [v]" "contents (slot_queue [None] 0 0) = []"
  by (simp_all add: contents_def slot_of_def slot_queue_def)

definition slot_box :: "mqueue \<Rightarrow> flow option \<Rightarrow> wait_filter \<Rightarrow> u64 \<Rightarrow> mailbox_stats \<Rightarrow> waiting_sender list \<Rightarrow> mailbox" where
  "slot_box q p f e s ws =
     \<lparr>bx_poisoned = False, bx_queue = q, bx_parked = p, bx_parked_filter = f, bx_wait_epoch = e, bx_stats = s,
      bx_waiting_senders = ws, bx_closed = False, bx_config = one_slot\<rparr>"

lemma slot_new: "Mailbox_with_config one_slot = slot_box (slot_queue [] 0 0) None FAny 0 MailboxStats_default []"
  by (simp add: Mailbox_with_config_def one_slot_def slot_queue_def MailboxQueue_new_def slot_box_def)

lemma slot_fields [simp]:
  "bx_queue (slot_box q p f e s ws) = q" "bx_parked (slot_box q p f e s ws) = p"
  "bx_parked_filter (slot_box q p f e s ws) = f" "bx_waiting_senders (slot_box q p f e s ws) = ws"
  "bx_wait_epoch (slot_box q p f e s ws) = e" "\<not> bx_poisoned (slot_box q p f e s ws)"
  by (simp_all add: slot_box_def)

lemmas slot_method_defs = slot_box_def box_lock_def on_queue_def note_stats_def bindS_def returnS_def

lemma slot_push:
  assumes "small_hop v"
  shows "p = None \<or> \<not> matches f v \<Longrightarrow> push v (slot_box (slot_queue [] 0 0) p f e s ws) =
      (Inr (Inr Queued), slot_box (slot_queue [Some v] 1 (memory_size v)) p f e (inc_enqueued s) ws)"
    and "push v (slot_box (slot_queue [Some w] 1 m) None f e s ws) =
      (Inr (Inl MessageLimit), slot_box (slot_queue [Some w] 1 m) None f e (inc_rejected MessageLimit s) ws)"
  using assms slot_enqueue [OF assms]
  by (auto simp: slot_method_defs push_def handoff_to_def enqueue_locked_def one_slot_def small_hop_def
      split: option.splits)

lemma slot_park_sender:
  assumes "small_hop v"
  shows "park_sender fl v (slot_box (slot_queue [None] 0 0) p f e s ws) =
      (Inr (SenderDelivered fl), slot_box (slot_queue [Some v] 1 (memory_size v)) p f e (inc_enqueued s) ws)"
    and "park_sender fl v (slot_box (slot_queue [Some w] 1 m) p f e s []) =
      (Inr SenderParked, slot_box (slot_queue [Some w] 1 m) p f e s [\<lparr>ws_flow = fl, ws_message = v\<rparr>])"
  using assms slot_enqueue [OF assms]
  by (auto simp: slot_method_defs park_sender_def hop_can_ever_fit_def one_slot_def small_hop_def)

lemma slot_try_pop:
  assumes "mq_take f q = (Inr got, q')"
  shows "try_pop_filter f (slot_box q p g e s ws) =
      (Inr got, slot_box q' p g e (if got = None then s else inc_dequeued s) ws)"
  using assms by (simp add: slot_method_defs try_pop_filter_def)

lemma slot_park:
  "mq_take f q = (Inr None, q') \<Longrightarrow> e' = e + 1 \<Longrightarrow>
     park_filter fl f (slot_box q p g e s ws) = (Inr (Inr e'), slot_box q' (Some fl) f e' s ws)"
  "mq_take f q = (Inr (Some v), q') \<Longrightarrow>
     park_filter fl f (slot_box q p g e s ws) =
       (Inr (Inl (fl\<lparr>fl_pending_message := Some v\<rparr>)), slot_box q' p g e (inc_dequeued s) ws)"
  by (simp_all add: slot_method_defs park_filter_def Let_def)

section \<open>Properties\<close>

text \<open>C24: no wakeup is lost between the mailbox methods. After any sequence of them on a
  mailbox built with an in-range configuration, in which the retried sends of waiting senders
  happen only while no receiver is parked, the lock is not poisoned (no method panicked
  under it), and a parked receiver has no queued hop its filter accepts: a flow never sleeps
  on a message that is already there.\<close>

theorem no_lost_wakeup:
  assumes "config_ok c" and "box_reach c b"
  shows "\<not> bx_poisoned b \<and>
    (bx_parked b = None \<or> filter (matches (bx_parked_filter b)) (contents (bx_queue b)) = [])"
  using inv_parts(3,5) [OF box_reach_inv [OF assms(2,1)]]
  by (auto simp: filter_empty_conv)

theorem no_lost_wakeup_witness:
  "\<forall>fl. let b = snd (box_apply (DoPush (VInt 5)) (snd (box_apply (DoPark fl (FTag 7)) (Mailbox_with_config one_slot))))
    in bx_parked b = Some fl \<and> contents (bx_queue b) = [VInt 5] \<and>
       \<not> bx_poisoned b \<and> filter (matches (bx_parked_filter b)) (contents (bx_queue b)) = []"
proof
  fix fl
  define b1 where "b1 = snd (box_apply (DoPark fl (FTag 7)) (Mailbox_with_config one_slot))"
  define b where "b = snd (box_apply (DoPush (VInt 5)) b1)"
  have "box_reach one_slot b1"
    unfolding b1_def by (rule reach_step [OF reach_new, of "DoPark fl (FTag 7)", OF _ prod.collapse [symmetric]]) (simp add: retries_send_def)
  then have "box_reach one_slot b"
    unfolding b_def by (rule reach_step [of _ _ "DoPush (VInt 5)", OF _ _ prod.collapse [symmetric]]) (simp add: retries_send_def)
  from no_lost_wakeup [OF one_slot_ok this] have "\<not> bx_poisoned b"
    "bx_parked b = None \<or> filter (matches (bx_parked_filter b)) (contents (bx_queue b)) = []" by blast+
  moreover have "bx_parked b = Some fl" "contents (bx_queue b) = [VInt 5]"
    by (simp_all add: b_def b1_def box_do_def bindS_def returnS_def slot_new slot_park(1) [OF slot_dequeue(3) refl] slot_push
        matches_def slot_contents del: One_nat_def)
  ultimately show "let b = snd (box_apply (DoPush (VInt 5)) (snd (box_apply (DoPark fl (FTag 7)) (Mailbox_with_config one_slot))))
    in bx_parked b = Some fl \<and> contents (bx_queue b) = [VInt 5] \<and>
       \<not> bx_poisoned b \<and> filter (matches (bx_parked_filter b)) (contents (bx_queue b)) = []"
    by (simp add: b_def b1_def Let_def)
qed



text \<open>C25: a receive timeout wakes only the wait it was armed for. If a park returned an epoch,
  and then any fewer than \<open>2^64\<close> mailbox operations run, a timer that fires with that epoch
  finds either nothing to wake, or the same flow, parked by that same call with the same
  filter: a timer of an earlier wait never interrupts a later one.\<close>

theorem timeout_wakes_only_its_own_wait:
  assumes "park_filter fl f b = (Inr (Inr epoch), b1)"
    and "box_run ops b1 = (Inr (), b2)" and "length ops < 2 ^ 64"
    and "take_parked_at epoch b2 = (Inr woken, b3)"
  shows "woken = None \<or> woken = Some fl \<and> bx_parked_filter b2 = f"
proof -
  from park_epoch [OF assms(1)] have b1: "bx_wait_epoch b1 = epoch" "bx_parked b1 = Some fl" "bx_parked_filter b1 = f"
    by auto
  from run_epoch [OF assms(2)] obtain k where k: "k \<le> length ops" "bx_wait_epoch b2 = epoch + of_nat k"
    "k = 0 \<Longrightarrow> same_wait b1 b2" using b1(1) by blast
  show ?thesis
  proof (cases "bx_wait_epoch b2 = epoch")
    case True
    with k(2) have "(of_nat k :: u64) = 0" by simp
    then have "2 ^ 64 dvd k" by (simp add: word_of_nat_eq_0_iff)
    then have "k = 0" using k(1) assms(3) by (metis dvd_imp_le le_less_trans not_gr_zero not_less)
    from k(3) [OF this] b1 assms(4) show ?thesis
      by (auto simp: take_parked_at_def same_wait_def box_lock_def bindS_def split: option.splits if_splits)
  next
    case False
    with assms(4) show ?thesis by (auto simp: take_parked_at_def box_lock_def bindS_def split: if_splits)
  qed
qed

theorem timeout_wakes_only_its_own_wait_witness:
  "\<forall>fl. \<exists>b1 b3. park fl (Mailbox_with_config one_slot) = (Inr (Inr 1), b1) \<and>
     take_parked_at 1 b1 = (Inr (Some fl), b3) \<and> (Some fl = None \<or> Some fl = Some fl \<and> bx_parked_filter b1 = FAny)"
proof
  fix fl
  obtain b1 where b1: "park_filter fl FAny (Mailbox_with_config one_slot) = (Inr (Inr 1), b1)" "bx_parked b1 = Some fl"
    "bx_wait_epoch b1 = 1" "\<not> bx_poisoned b1"
    using slot_park(1) [OF slot_dequeue(3) refl, of fl] by (simp add: slot_new)
  moreover obtain b3 where b3: "take_parked_at 1 b1 = (Inr (Some fl), b3)"
    using b1 by (simp add: take_parked_at_def box_lock_def bindS_def)
  moreover note timeout_wakes_only_its_own_wait [OF b1(1), of "[]", OF _ _ b3]
  ultimately show "\<exists>b1 b3. park fl (Mailbox_with_config one_slot) = (Inr (Inr 1), b1) \<and>
     take_parked_at 1 b1 = (Inr (Some fl), b3) \<and> (Some fl = None \<or> Some fl = Some fl \<and> bx_parked_filter b1 = FAny)"
    by (auto simp: park_def returnS_def)
qed

end
