(* ===== verification/Bf_Index.thy ===== *)
theory Bf_Index
  imports Bf_HashMap Bf_CapTable
begin

text \<open>
  What the relation tables of the scheduler share: the lock every table is behind, the
  counters that mint relation identifiers, and the adjacency indexes (a map from a flow to the
  list of the rows that mention it) that links, monitors, names and pending asks keep in step
  with their rows.
\<close>

section \<open>Locks and identifier counters\<close>

definition store_lock :: "('s \<Rightarrow> bool) \<Rightarrow> string \<Rightarrow> ('s, 'x runtime_error, unit) fallible" where
  "store_lock poisoned site st = (if poisoned st then (Inl (PoisonedLock site), st) else (Inr (), st))"

lemma store_lock_iff:
  "store_lock p site st = (Inr u, st') \<longleftrightarrow> \<not> p st \<and> st' = st"
  "store_lock p site st = (Inl e, st') \<longleftrightarrow> p st \<and> e = PoisonedLock site \<and> st' = st"
  by (auto simp: store_lock_def)

text \<open>The errors the relation tables report to their callers.\<close>

datatype lifecycle_error =
    NoSuchFlow flow_id
  | InvalidCapability
  | InvalidMonitor
  | InvalidLink
  | NotOwner
  | AlreadyRegistered
  | AlreadyLinked
  | EmptyName
  | SelfRelation
  | Unavailable
  | LinkLimitReached u32
  | MonitorLimitReached u32
  | RegistryLimitReached u32

record id_source =
  is_next :: u64
  is_exhausted :: bool

definition MAX_RELATION_ID :: u64 where "MAX_RELATION_ID = 0x7FFFFFFFFFFFFFFF"

definition try_next_id :: "id_source \<Rightarrow> u64 option \<times> id_source" where
  "try_next_id ids =
     (if is_exhausted ids then (None, ids)
      else let fid = is_next ids; ids' = ids\<lparr>is_next := fid + 1\<rparr> in
        if fid = 0 \<or> MAX_RELATION_ID < fid then (None, ids'\<lparr>is_exhausted := True\<rparr>) else (Some fid, ids'))"

definition fresh_ids :: id_source where
  "fresh_ids = \<lparr>is_next = 1, is_exhausted = False\<rparr>"

text \<open>The identifiers a counter has handed out.\<close>

definition issued :: "id_source \<Rightarrow> u64 \<Rightarrow> bool" where
  "issued ids i \<longleftrightarrow> 0 < i \<and> i \<le> MAX_RELATION_ID \<and> (is_exhausted ids \<or> i < is_next ids)"

definition ids_ok :: "id_source \<Rightarrow> bool" where
  "ids_ok ids \<longleftrightarrow> is_exhausted ids \<or> 0 < is_next ids \<and> is_next ids \<le> MAX_RELATION_ID + 1"

lemma fresh_ids_ok [simp]: "ids_ok fresh_ids" "\<not> issued fresh_ids i"
  by (auto simp: ids_ok_def fresh_ids_def MAX_RELATION_ID_def issued_def word_less_nat_alt)

lemma try_next_fresh:
  assumes "try_next_id ids = (Some i, ids')" and "ids_ok ids"
  shows "\<not> issued ids i" "issued ids' i" "ids_ok ids'" "issued ids j \<Longrightarrow> issued ids' j"
proof -
  from assms have i: "\<not> is_exhausted ids" "i = is_next ids" "ids' = ids\<lparr>is_next := i + 1\<rparr>" "0 < i" "i \<le> MAX_RELATION_ID"
    by (auto simp: try_next_id_def Let_def word_gt_0 not_less split: if_splits)
  then have bump: "i < i + 1" "i + 1 \<le> MAX_RELATION_ID + 1"
    by (auto simp: MAX_RELATION_ID_def word_less_nat_alt word_le_nat_alt unat_word_ariths)
  show "\<not> issued ids i" "issued ids' i" using i bump(1) by (auto simp: issued_def)
  show "ids_ok ids'" using i bump by (auto simp: ids_ok_def)
  show "issued ids' j" if "issued ids j" using that i bump(1) by (auto simp: issued_def)
qed

lemma try_next_none:
  assumes "try_next_id ids = (None, ids')" and "ids_ok ids"
  shows "ids_ok ids'" "issued ids j \<Longrightarrow> issued ids' j"
  using assms by (auto simp: try_next_id_def Let_def ids_ok_def issued_def split: if_splits)

section \<open>Adjacency indexes\<close>

type_synonym ('k, 'i) adjacency = "('k, 'i list) hash_map"

definition ids_of :: "('k, 'i) adjacency \<Rightarrow> 'k \<Rightarrow> 'i list" where
  "ids_of idx k = (case hm_get idx k of Some is \<Rightarrow> is | None \<Rightarrow> [])"

definition index_add :: "'k \<Rightarrow> 'i \<Rightarrow> ('k, 'i) adjacency \<Rightarrow> ('k, 'i) adjacency" where
  "index_add k i idx = hm_insert k (ids_of idx k @ [i]) idx"

definition index_remove :: "'k \<Rightarrow> 'i \<Rightarrow> ('k, 'i) adjacency \<Rightarrow> ('k, 'i) adjacency" where
  "index_remove k i idx =
     (case hm_get idx k of
        Some is \<Rightarrow> (let is' = filter (\<lambda>j. j \<noteq> i) is in if is' = [] then hm_remove k idx else hm_insert k is' idx)
      | None \<Rightarrow> idx)"

text \<open>No row of an index is empty: the row goes with its last entry.\<close>

definition tight :: "('k, 'i) adjacency \<Rightarrow> bool" where
  "tight idx \<longleftrightarrow> hm_wf idx \<and> (\<forall>k. hm_get idx k \<noteq> Some [])"

lemma ids_of_add [simp]: "ids_of (index_add k i idx) k' = ids_of idx k' @ (if k' = k then [i] else [])"
  by (simp add: ids_of_def index_add_def)

lemma ids_of_remove [simp]: "ids_of (index_remove k i idx) k' = (if k' = k then filter (\<lambda>j. j \<noteq> i) (ids_of idx k') else ids_of idx k')"
  by (auto simp: ids_of_def index_remove_def Let_def split: option.splits)

lemma ids_of_drop [simp]: "ids_of (hm_remove k idx) k' = (if k' = k then [] else ids_of idx k')"
  by (simp add: ids_of_def)

lemma ids_of_Nil [simp]: "ids_of [] k = []"
  by (simp add: ids_of_def)

lemma tight_ops [simp, wf_intros]:
  "tight []"
  "tight idx \<Longrightarrow> tight (index_add k i idx)"
  "tight idx \<Longrightarrow> tight (index_remove k i idx)"
  "tight idx \<Longrightarrow> tight (hm_remove k idx)"
  by (auto simp: tight_def index_add_def index_remove_def Let_def split: option.splits)

lemma tight_row: "tight idx \<Longrightarrow> ids_of idx k = [] \<longleftrightarrow> hm_get idx k = None"
  by (auto simp: tight_def ids_of_def split: option.splits)

text \<open>An index lists, for every key, the rows that mention it, each once.\<close>

definition indexes :: "('e \<Rightarrow> 'k set) \<Rightarrow> ('i \<Rightarrow> 'e option) \<Rightarrow> ('k, 'i) adjacency \<Rightarrow> bool" where
  "indexes keys rows idx \<longleftrightarrow> tight idx \<and> (\<forall>k. distinct (ids_of idx k)) \<and>
     (\<forall>k i. i \<in> set (ids_of idx k) \<longleftrightarrow> (\<exists>e. rows i = Some e \<and> k \<in> keys e))"

lemma indexesD:
  assumes "indexes keys rows idx"
  shows "tight idx" "distinct (ids_of idx k)" "i \<in> set (ids_of idx k) \<longleftrightarrow> (\<exists>e. rows i = Some e \<and> k \<in> keys e)"
  using assms by (auto simp: indexes_def)

lemma indexes_empty [simp]: "indexes keys (\<lambda>_. None) []"
  by (simp add: indexes_def)

text \<open>The rows change together with the index when a row comes or goes.\<close>

lemma indexes_insert:
  assumes "indexes keys rows idx" and "rows i = None" and "tight idx'"
    and "\<And>k. ids_of idx' k = ids_of idx k @ (if k \<in> keys e then [i] else [])"
  shows "indexes keys (rows(i \<mapsto> e)) idx'"
  unfolding indexes_def
proof (intro conjI allI)
  fix k
  have "i \<notin> set (ids_of idx k)" using indexesD(3) [OF assms(1)] assms(2) by auto
  then show "distinct (ids_of idx' k)" using indexesD(2) [OF assms(1)] assms(4) by auto
  show "j \<in> set (ids_of idx' k) \<longleftrightarrow> (\<exists>e'. (rows(i \<mapsto> e)) j = Some e' \<and> k \<in> keys e')" for j
    using indexesD(3) [OF assms(1), of j k] assms(2,4) by auto
qed (rule assms(3))

lemma indexes_delete:
  assumes "indexes keys rows idx" and "tight idx'"
    and "\<And>k j. rows' j = (if j \<in> gone then None else rows j)"
    and "\<And>k. ids_of idx' k = filter (\<lambda>j. j \<notin> gone) (ids_of idx k)"
  shows "indexes keys rows' idx'"
  using assms by (auto simp: indexes_def)

section \<open>Draining the rows of one key\<close>

lemma distinct_map_sort_key [simp]: "distinct (map f (sort_key g xs)) \<longleftrightarrow> distinct (map f xs)"
  by (simp add: distinct_map)

text \<open>
  The loop of the sweeps: every listed row that is still there leaves the table and the other
  index, and is reported in the order of the list.
\<close>

primrec drain_rows ::
  "('e \<Rightarrow> 'k) \<Rightarrow> 'i list \<Rightarrow> ('i, 'e) hash_map \<Rightarrow> ('k, 'i) adjacency \<Rightarrow>
   ('i \<times> 'e) list \<times> ('i, 'e) hash_map \<times> ('k, 'i) adjacency" where
  "drain_rows other [] rows idx = ([], rows, idx)"
| "drain_rows other (i # is) rows idx =
     (case hm_get rows i of
        None \<Rightarrow> drain_rows other is rows idx
      | Some e \<Rightarrow>
          (case drain_rows other is (hm_remove i rows) (index_remove (other e) i idx) of
             (found, rest) \<Rightarrow> ((i, e) # found, rest)))"

lemma drain_rows_spec:
  assumes "distinct is" and "hm_wf rows" and "tight idx" and "\<forall>i \<in> set is. hm_get rows i \<noteq> None"
    and "drain_rows other is rows idx = (found, rows', idx')"
  shows "found = map (\<lambda>i. (i, the (hm_get rows i))) is \<and> hm_wf rows' \<and> tight idx' \<and>
    hm_get rows' = (\<lambda>j. if j \<in> set is then None else hm_get rows j) \<and>
    (\<forall>k. ids_of idx' k = filter (\<lambda>j. j \<notin> set is \<or> other (the (hm_get rows j)) \<noteq> k) (ids_of idx k))"
    (is "?P is rows idx found rows' idx'")
  using assms
proof (induction "is" arbitrary: rows idx found rows' idx')
  case (Cons i "is")
  from Cons.prems(4) obtain e where e: "hm_get rows i = Some e" by auto
  have i: "i \<notin> set is" "distinct is" using Cons.prems(1) by auto
  obtain found1 where found1: "drain_rows other is (hm_remove i rows) (index_remove (other e) i idx) = (found1, rows', idx')"
    "found = (i, e) # found1"
    using Cons.prems(5) e by (auto split: prod.splits)
  have "?P is (hm_remove i rows) (index_remove (other e) i idx) found1 rows' idx'"
    by (rule Cons.IH [OF i(2) _ _ _ found1(1)]) (use Cons.prems(2-4) i in auto)
  then have IH: "found1 = map (\<lambda>j. (j, the (hm_get (hm_remove i rows) j))) is" "hm_wf rows'" "tight idx'"
    "hm_get rows' = (\<lambda>j. if j \<in> set is then None else hm_get (hm_remove i rows) j)"
    "\<And>k. ids_of idx' k = filter (\<lambda>j. j \<notin> set is \<or> other (the (hm_get (hm_remove i rows) j)) \<noteq> k)
       (ids_of (index_remove (other e) i idx) k)"
    by blast+
  show ?case
  proof (intro conjI allI)
    show "found = map (\<lambda>i. (i, the (hm_get rows i))) (i # is)" using found1(2) IH(1) e i by auto
    show "hm_get rows' = (\<lambda>j. if j \<in> set (i # is) then None else hm_get rows j)" using IH(4) by (auto simp: fun_eq_iff)
    show "ids_of idx' k = filter (\<lambda>j. j \<notin> set (i # is) \<or> other (the (hm_get rows j)) \<noteq> k) (ids_of idx k)" for k
      unfolding IH(5) using e i by (auto intro!: filter_cong)
  qed (use IH(2,3) in auto)
qed simp

text \<open>A row has one key in each of two indexes; draining a key of one keeps both exact.\<close>

lemma drain_key:
  assumes rows: "hm_wf rows" and idx: "indexes (\<lambda>e. {key e}) (hm_get rows) idx"
    and oth: "indexes (\<lambda>e. {other e}) (hm_get rows) odx"
    and drain: "drain_rows other (ids_of idx k) rows odx = (found, rows', odx')"
  shows "hm_wf rows'" "hm_get rows' = (\<lambda>j. if \<exists>e. hm_get rows j = Some e \<and> key e = k then None else hm_get rows j)"
    "indexes (\<lambda>e. {key e}) (hm_get rows') (hm_remove k idx)" "indexes (\<lambda>e. {other e}) (hm_get rows') odx'"
    "set found = {(i, e). hm_get rows i = Some e \<and> key e = k}" "distinct (map fst found)"
proof -
  have ids: "i \<in> set (ids_of idx k) \<longleftrightarrow> (\<exists>e. hm_get rows i = Some e \<and> key e = k)" for i k
    using indexesD(3) [OF idx] by auto
  have present: "\<forall>i \<in> set (ids_of idx k). hm_get rows i \<noteq> None" by (auto simp: ids)
  note spec = drain_rows_spec [OF indexesD(2) [OF idx] rows indexesD(1) [OF oth] present drain]
  have spec: "found = map (\<lambda>i. (i, the (hm_get rows i))) (ids_of idx k)" "hm_wf rows'" "tight odx'"
    "hm_get rows' = (\<lambda>j. if j \<in> set (ids_of idx k) then None else hm_get rows j)"
    "\<And>k'. ids_of odx' k' = filter (\<lambda>j. j \<notin> set (ids_of idx k) \<or> other (the (hm_get rows j)) \<noteq> k') (ids_of odx k')"
    using spec by blast+
  show "hm_wf rows'" by (rule spec)
  show "hm_get rows' = (\<lambda>j. if \<exists>e. hm_get rows j = Some e \<and> key e = k then None else hm_get rows j)"
    by (simp add: spec(4) ids)
  have keyed: "ids_of (hm_remove k idx) k' = filter (\<lambda>j. j \<notin> set (ids_of idx k)) (ids_of idx k')" for k'
    by (auto simp: ids intro!: filter_True [symmetric])
  show "indexes (\<lambda>e. {key e}) (hm_get rows') (hm_remove k idx)"
    by (rule indexes_delete [OF idx _ _ keyed]) (use indexesD(1) [OF idx] in \<open>auto simp: spec(4)\<close>)
  have oid: "j \<in> set (ids_of odx k') \<longleftrightarrow> (\<exists>e. hm_get rows j = Some e \<and> other e = k')" for j k'
    using indexesD(3) [OF oth] by auto
  have "ids_of odx' k' = filter (\<lambda>j. j \<notin> set (ids_of idx k)) (ids_of odx k')" for k'
    unfolding spec(5) by (rule filter_cong) (auto simp: oid)
  then show "indexes (\<lambda>e. {other e}) (hm_get rows') odx'"
    by (rule indexes_delete [OF oth spec(3), rotated]) (simp add: spec(4))
  show "set found = {(i, e). hm_get rows i = Some e \<and> key e = k}"
    by (auto simp: spec(1) ids image_iff)
  show "distinct (map fst found)" using indexesD(2) [OF idx, of k] by (simp add: spec(1) comp_def)
qed

end
