(* ===== verification/Bf_Links.thy ===== *)
theory Bf_Links
  imports Bf_Index
begin

text \<open>
  Bidirectional links (\<^verbatim>\<open>scheduler/link.rs\<close>): the table with its three maps, the store that
  guards it with a lock and a quota, the sweep of a finalized flow, and the race of linking
  with the other side's exit.
\<close>

section \<open>The table\<close>

record link =
  lk_a :: flow_id
  lk_b :: flow_id

record link_table =
  lt_links :: "(u64, link) hash_map"
  lt_pairs :: "(flow_id \<times> flow_id, u64) hash_map"
  lt_by_flow :: "(flow_id, u64) adjacency"

definition CONSUMED_LINK_ID :: u64 where "CONSUMED_LINK_ID = 0"

definition LinkTable_new :: link_table where
  "LinkTable_new = \<lparr>lt_links = [], lt_pairs = [], lt_by_flow = []\<rparr>"

definition lt_len :: "link_table \<Rightarrow> nat" where
  "lt_len t = length (lt_links t)"

definition pair_key :: "flow_id \<Rightarrow> flow_id \<Rightarrow> flow_id \<times> flow_id" where
  "pair_key a b = (if a \<le> b then (a, b) else (b, a))"

definition has_pair :: "link_table \<Rightarrow> flow_id \<Rightarrow> flow_id \<Rightarrow> bool" where
  "has_pair t a b \<longleftrightarrow> a \<noteq> b \<and> hm_contains_key (lt_pairs t) (pair_key a b)"

definition link_insert_row :: "u64 \<Rightarrow> flow_id \<Rightarrow> flow_id \<Rightarrow> link_table \<Rightarrow> link_table" where
  "link_insert_row i a b t =
     t\<lparr>lt_links := hm_insert i \<lparr>lk_a = a, lk_b = b\<rparr> (lt_links t),
       lt_pairs := hm_insert (pair_key a b) i (lt_pairs t),
       lt_by_flow := index_add b i (index_add a i (lt_by_flow t))\<rparr>"

definition unlink_id :: "u64 \<Rightarrow> link_table \<Rightarrow> link option \<times> link_table" where
  "unlink_id i t =
     (case hm_get (lt_links t) i of
        None \<Rightarrow> (None, t)
      | Some l \<Rightarrow> (Some l,
          t\<lparr>lt_links := hm_remove i (lt_links t),
            lt_pairs := hm_remove (pair_key (lk_a l) (lk_b l)) (lt_pairs t),
            lt_by_flow := index_remove (lk_b l) i (index_remove (lk_a l) i (lt_by_flow t))\<rparr>))"

definition lt_unlink_owned :: "flow_id \<Rightarrow> u64 \<Rightarrow> link_table \<Rightarrow> (lifecycle_error + unit) \<times> link_table" where
  "lt_unlink_owned owner i t =
     (case hm_get (lt_links t) i of
        Some l \<Rightarrow>
          if lk_a l = owner \<or> lk_b l = owner then (Inr (), snd (unlink_id i t)) else (Inl NotOwner, t)
      | None \<Rightarrow> (Inl InvalidLink, t))"

definition peer_of :: "flow_id \<Rightarrow> link \<Rightarrow> flow_id" where
  "peer_of target l = (if lk_a l = target then lk_b l else lk_a l)"

primrec sweep_links :: "flow_id \<Rightarrow> u64 list \<Rightarrow> link_table \<Rightarrow> (u64 \<times> flow_id) list \<times> link_table" where
  "sweep_links target [] t = ([], t)"
| "sweep_links target (i # is) t =
     (case hm_get (lt_links t) i of
        None \<Rightarrow> sweep_links target is t
      | Some l \<Rightarrow>
          let peer = peer_of target l;
              t1 = t\<lparr>lt_links := hm_remove i (lt_links t),
                     lt_pairs := hm_remove (pair_key (lk_a l) (lk_b l)) (lt_pairs t),
                     lt_by_flow := index_remove peer i (lt_by_flow t)\<rparr>;
              (result, t2) = sweep_links target is t1
          in ((i, peer) # result, t2))"

definition lt_remove_links_of :: "flow_id \<Rightarrow> link_table \<Rightarrow> (u64 \<times> flow_id) list \<times> link_table" where
  "lt_remove_links_of target t =
     (case hm_get (lt_by_flow t) target of
        None \<Rightarrow> ([], t)
      | Some is \<Rightarrow>
          let (result, t') = sweep_links target is (t\<lparr>lt_by_flow := hm_remove target (lt_by_flow t)\<rparr>)
          in (sort_key fst result, t'))"

section \<open>The store\<close>

record link_store =
  ls_poisoned :: bool
  ls_table :: link_table
  ls_max_links :: u32
  ls_ids :: id_source

datatype link_outcome = Linked u64 | Consumed flow_id

type_synonym ('x, 'a) linkop = "(link_store, 'x runtime_error, 'a) fallible"

definition LinkStore_new :: "u32 \<Rightarrow> link_store" where
  "LinkStore_new max_links =
     \<lparr>ls_poisoned = False, ls_table = LinkTable_new, ls_max_links = max_links, ls_ids = fresh_ids\<rparr>"

text \<open>The critical section of \<^verbatim>\<open>link_if_live\<close>.\<close>

definition link_insert :: "flow_id \<Rightarrow> flow_id \<Rightarrow> ('x, lifecycle_error + u64) linkop" where
  "link_insert a b =
     bindS (store_lock ls_poisoned ''LinkStore::link'') (\<lambda>_ st.
       if a = b then (Inr (Inl SelfRelation), st)
       else if has_pair (ls_table st) a b then (Inr (Inl AlreadyLinked), st)
       else if ls_max_links st \<noteq> 0 \<and> unat (ls_max_links st) \<le> lt_len (ls_table st)
       then (Inr (Inl (LinkLimitReached (ls_max_links st))), st)
       else case try_next_id (ls_ids st) of
         (None, ids) \<Rightarrow> (Inl LinkIdExhausted, st\<lparr>ls_ids := ids\<rparr>)
       | (Some i, ids) \<Rightarrow> (Inr (Inr i), st\<lparr>ls_ids := ids, ls_table := link_insert_row i a b (ls_table st)\<rparr>))"

definition force_remove :: "u64 \<Rightarrow> ('x, bool) linkop" where
  "force_remove i =
     bindS (store_lock ls_poisoned ''LinkStore::confirm_live'') (\<lambda>_ st.
       case unlink_id i (ls_table st) of (found, t) \<Rightarrow> (Inr (found \<noteq> None), st\<lparr>ls_table := t\<rparr>))"

definition confirm_live ::
  "u64 \<Rightarrow> flow_id \<Rightarrow> flow_id \<Rightarrow> (flow_id \<Rightarrow> 'x runtime_error + bool) \<Rightarrow> ('x, lifecycle_error + link_outcome) linkop" where
  "confirm_live i a b is_live =
     (case is_live a of
        Inl e \<Rightarrow> (\<lambda>st. (Inl e, snd (force_remove i st :: ('x runtime_error + bool) \<times> link_store)))
      | Inr a_live \<Rightarrow>
          (case is_live b of
             Inl e \<Rightarrow> (\<lambda>st. (Inl e, snd (force_remove i st :: ('x runtime_error + bool) \<times> link_store)))
           | Inr b_live \<Rightarrow>
               if a_live \<and> b_live then returnS (Inr (Linked i))
               else let dead = (if a_live then b else a) in
                 bindS (force_remove i) (\<lambda>removed.
                   returnS (if removed then Inl (NoSuchFlow dead) else Inr (Consumed dead)))))"

definition link_if_live ::
  "flow_id \<Rightarrow> flow_id \<Rightarrow> (flow_id \<Rightarrow> 'x runtime_error + bool) \<Rightarrow> ('x, lifecycle_error + link_outcome) linkop" where
  "link_if_live a b is_live =
     bindS (link_insert a b) (\<lambda>r. case r of
         Inl e \<Rightarrow> returnS (Inl e)
       | Inr i \<Rightarrow> confirm_live i a b is_live)"

definition unlink_owned :: "flow_id \<Rightarrow> u64 \<Rightarrow> ('x, lifecycle_error + unit) linkop" where
  "unlink_owned owner i =
     bindS (store_lock ls_poisoned ''LinkStore::unlink_owned'') (\<lambda>_ st.
       case lt_unlink_owned owner i (ls_table st) of (r, t) \<Rightarrow> (Inr r, st\<lparr>ls_table := t\<rparr>))"

definition remove_links_of :: "flow_id \<Rightarrow> ('x, (u64 \<times> flow_id) list) linkop" where
  "remove_links_of target =
     bindS (store_lock ls_poisoned ''LinkStore::remove_links_of'') (\<lambda>_ st.
       case lt_remove_links_of target (ls_table st) of (r, t) \<Rightarrow> (Inr r, st\<lparr>ls_table := t\<rparr>))"

section \<open>The three maps stay in step\<close>

definition ends :: "link \<Rightarrow> flow_id set" where
  "ends l = {lk_a l, lk_b l}"

definition row :: "link_table \<Rightarrow> u64 \<Rightarrow> link option" where
  "row t = hm_get (lt_links t)"

definition links_ok :: "link_table \<Rightarrow> bool" where
  "links_ok t \<longleftrightarrow> hm_wf (lt_links t) \<and> hm_wf (lt_pairs t) \<and> indexes ends (row t) (lt_by_flow t) \<and>
     (\<forall>p i. hm_get (lt_pairs t) p = Some i \<longleftrightarrow> (\<exists>l. row t i = Some l \<and> pair_key (lk_a l) (lk_b l) = p)) \<and>
     (\<forall>i l. row t i = Some l \<longrightarrow> lk_a l \<noteq> lk_b l)"

lemma links_okD:
  assumes "links_ok t"
  shows "hm_wf (lt_links t)" "hm_wf (lt_pairs t)" "indexes ends (row t) (lt_by_flow t)"
    "hm_get (lt_pairs t) p = Some i \<longleftrightarrow> (\<exists>l. row t i = Some l \<and> pair_key (lk_a l) (lk_b l) = p)"
    "row t i = Some l \<Longrightarrow> lk_a l \<noteq> lk_b l"
  using assms unfolding links_ok_def by blast+

lemma links_okI:
  assumes "hm_wf (lt_links t)" "hm_wf (lt_pairs t)" "indexes ends (row t) (lt_by_flow t)"
    and "\<And>p i. hm_get (lt_pairs t) p = Some i \<longleftrightarrow> (\<exists>l. row t i = Some l \<and> pair_key (lk_a l) (lk_b l) = p)"
    and "\<And>i l. row t i = Some l \<Longrightarrow> lk_a l \<noteq> lk_b l"
  shows "links_ok t"
  using assms unfolding links_ok_def by blast

lemma pair_key_eq: "pair_key a b = pair_key c d \<longleftrightarrow> {a, b} = {c, d}"
  by (auto simp: pair_key_def doubleton_eq_iff)

lemma links_ok_new [simp]: "links_ok LinkTable_new"
  by (simp add: links_ok_def LinkTable_new_def row_def indexes_def)

text \<open>A pair of flows has at most one link.\<close>

lemma links_unique:
  assumes "links_ok t" and "row t i = Some l" and "row t j = Some m" and "ends l = ends m"
  shows "i = j"
proof -
  have "pair_key (lk_a l) (lk_b l) = pair_key (lk_a m) (lk_b m)"
    using assms(4) by (simp add: pair_key_eq ends_def)
  then have "hm_get (lt_pairs t) (pair_key (lk_a l) (lk_b l)) = Some i"
    "hm_get (lt_pairs t) (pair_key (lk_a l) (lk_b l)) = Some j"
    using assms(2,3) by (auto simp: links_okD(4) [OF assms(1)])
  then show ?thesis by simp
qed

lemma has_pair_iff:
  assumes "links_ok t"
  shows "has_pair t a b \<longleftrightarrow> (\<exists>i l. row t i = Some l \<and> ends l = {a, b})"
proof -
  have "has_pair t a b \<longleftrightarrow> a \<noteq> b \<and> (\<exists>i l. row t i = Some l \<and> pair_key (lk_a l) (lk_b l) = pair_key a b)"
    using links_okD(4) [OF assms, of "pair_key a b"] by (auto simp: has_pair_def hm_contains_key_def)
  also have "\<dots> \<longleftrightarrow> (\<exists>i l. row t i = Some l \<and> ends l = {a, b})"
    by (auto simp: pair_key_eq ends_def doubleton_eq_iff dest: links_okD(5) [OF assms])
  finally show ?thesis .
qed

lemma links_ok_insert:
  assumes "links_ok t" and "row t i = None" and "\<not> has_pair t a b" and "a \<noteq> b"
  shows "links_ok (link_insert_row i a b t)" "row (link_insert_row i a b t) = (row t)(i \<mapsto> \<lparr>lk_a = a, lk_b = b\<rparr>)"
proof -
  show row: "row (link_insert_row i a b t) = (row t)(i \<mapsto> \<lparr>lk_a = a, lk_b = b\<rparr>)"
    by (auto simp: row_def link_insert_row_def)
  have free: "pair_key (lk_a l) (lk_b l) \<noteq> pair_key a b" if "row t j = Some l" for j l
    using that assms(3,4) links_okD(4) [OF assms(1), of "pair_key a b" j]
    by (auto simp: has_pair_def hm_contains_key_def)
  have index: "indexes ends ((row t)(i \<mapsto> \<lparr>lk_a = a, lk_b = b\<rparr>)) (lt_by_flow (link_insert_row i a b t))"
    by (rule indexes_insert [OF links_okD(3) [OF assms(1)] assms(2)])
      (use assms(4) indexesD(1) [OF links_okD(3) [OF assms(1)]] in \<open>auto simp: link_insert_row_def ends_def\<close>)
  have pairs: "hm_get (lt_pairs (link_insert_row i a b t)) p = Some j \<longleftrightarrow>
    (\<exists>l. ((row t)(i \<mapsto> \<lparr>lk_a = a, lk_b = b\<rparr>)) j = Some l \<and> pair_key (lk_a l) (lk_b l) = p)" for p j
    using links_okD(4) [OF assms(1), of p j] free [of j] assms(2) by (auto simp: link_insert_row_def)
  show "links_ok (link_insert_row i a b t)"
    using links_okD(1,2,5) [OF assms(1)] assms(4) index pairs
    by (intro links_okI, unfold row) (auto simp: link_insert_row_def split: if_splits)
qed

text \<open>Dropping a set of rows from all three maps.\<close>

definition pair_of :: "link \<Rightarrow> flow_id \<times> flow_id" where
  "pair_of l = pair_key (lk_a l) (lk_b l)"

lemma links_ok_drop:
  assumes "links_ok t" and "hm_wf (lt_links t')" and "hm_wf (lt_pairs t')" and "tight (lt_by_flow t')"
    and rows: "row t' = (\<lambda>j. if j \<in> gone then None else row t j)"
    and "\<And>k. ids_of (lt_by_flow t') k = filter (\<lambda>j. j \<notin> gone) (ids_of (lt_by_flow t) k)"
    and pairs: "\<And>p. hm_get (lt_pairs t') p = (if \<exists>j \<in> gone. \<exists>l. row t j = Some l \<and> pair_of l = p then None
      else hm_get (lt_pairs t) p)"
  shows "links_ok t'"
proof (rule links_okI)
  show "indexes ends (row t') (lt_by_flow t')"
    by (rule indexes_delete [OF links_okD(3) [OF assms(1)] assms(4)]) (auto simp: rows assms(6))
  show "hm_get (lt_pairs t') p = Some i \<longleftrightarrow> (\<exists>l. row t' i = Some l \<and> pair_key (lk_a l) (lk_b l) = p)" for p i
  proof -
    have "j = i" if "row t j = Some l" "pair_of l = p" "row t i = Some m" "pair_of m = p" for j l m
      by (rule links_unique [OF assms(1) that(1,3)]) (use that in \<open>auto simp: pair_of_def pair_key_eq [symmetric] ends_def\<close>)
    then show ?thesis
      using links_okD(4) [OF assms(1), of p i]
      by (auto simp: rows pairs pair_of_def split: if_splits)
  qed
  show "lk_a l \<noteq> lk_b l" if "row t' i = Some l" for i l
    using that links_okD(5) [OF assms(1), of i l] by (auto simp: rows split: if_splits)
qed (fact assms)+

lemma unlink_rows: "hm_wf (lt_links t) \<Longrightarrow> row (snd (unlink_id i t)) = (row t)(i := None)"
  by (auto simp: unlink_id_def row_def fun_eq_iff split: option.splits)

lemma links_ok_unlink:
  assumes "links_ok t"
  shows "links_ok (snd (unlink_id i t))" "row (snd (unlink_id i t)) = (row t)(i := None)"
proof -
  show rows: "row (snd (unlink_id i t)) = (row t)(i := None)"
    by (rule unlink_rows [OF links_okD(1) [OF assms]])
  show "links_ok (snd (unlink_id i t))"
  proof (cases "row t i")
    case None
    with assms show ?thesis by (simp add: unlink_id_def row_def)
  next
    case (Some l)
    note idx = links_okD(3) [OF assms]
    have "i \<in> set (ids_of (lt_by_flow t) k) \<longleftrightarrow> k = lk_a l \<or> k = lk_b l" for k
      using indexesD(3) [OF idx, of i k] Some by (auto simp: ends_def)
    then have "ids_of (lt_by_flow (snd (unlink_id i t))) k = filter (\<lambda>j. j \<notin> {i}) (ids_of (lt_by_flow t) k)" for k
      using Some by (auto simp: unlink_id_def row_def intro!: filter_cong filter_True [symmetric])
    with Some show ?thesis
      using links_okD(1,2) [OF assms] indexesD(1) [OF idx]
      by (intro links_ok_drop [OF assms, of _ "{i}"])
        (auto simp: unlink_id_def row_def pair_of_def fun_eq_iff)
  qed
qed

lemma sweep_links_spec:
  assumes "distinct is" and "hm_wf (lt_links t)" and "hm_wf (lt_pairs t)" and "tight (lt_by_flow t)"
    and "\<forall>i \<in> set is. row t i \<noteq> None" and "sweep_links target is t = (res, t')"
  shows "res = map (\<lambda>i. (i, peer_of target (the (row t i)))) is \<and>
    hm_wf (lt_links t') \<and> hm_wf (lt_pairs t') \<and> tight (lt_by_flow t') \<and>
    row t' = (\<lambda>j. if j \<in> set is then None else row t j) \<and>
    (\<forall>k. ids_of (lt_by_flow t') k =
       filter (\<lambda>j. j \<notin> set is \<or> peer_of target (the (row t j)) \<noteq> k) (ids_of (lt_by_flow t) k)) \<and>
    (\<forall>p. hm_get (lt_pairs t') p =
       (if \<exists>j \<in> set is. \<exists>l. row t j = Some l \<and> pair_of l = p then None else hm_get (lt_pairs t) p))"
    (is "?P is t res t'")
  using assms
proof (induction "is" arbitrary: t res t')
  case (Cons i "is")
  from Cons.prems(5) obtain l where l: "row t i = Some l" by auto
  define t1 where "t1 = t\<lparr>lt_links := hm_remove i (lt_links t),
                     lt_pairs := hm_remove (pair_key (lk_a l) (lk_b l)) (lt_pairs t),
                     lt_by_flow := index_remove (peer_of target l) i (lt_by_flow t)\<rparr>"
  have rows: "row t1 = (row t)(i := None)" by (auto simp: row_def t1_def)
  have pairs1: "hm_get (lt_pairs t1) p = (if p = pair_of l then None else hm_get (lt_pairs t) p)" for p
    by (simp add: t1_def pair_of_def)
  have i: "i \<notin> set is" "distinct is" using Cons.prems(1) by auto
  obtain res1 where res1: "sweep_links target is t1 = (res1, t')" "res = (i, peer_of target l) # res1"
    using Cons.prems(6) l by (auto simp: row_def t1_def Let_def split: prod.splits)
  have "\<forall>j \<in> set is. row t1 j \<noteq> None" using Cons.prems(5) i by (auto simp: rows)
  moreover have "hm_wf (lt_links t1)" "hm_wf (lt_pairs t1)" "tight (lt_by_flow t1)"
    using Cons.prems(2-4) by (simp_all add: t1_def)
  ultimately have spec: "?P is t1 res1 t'" by (intro Cons.IH [OF i(2)] res1(1))
  have IH: "res1 = map (\<lambda>i. (i, peer_of target (the (row t1 i)))) is"
    "hm_wf (lt_links t')" "hm_wf (lt_pairs t')" "tight (lt_by_flow t')"
    "row t' = (\<lambda>j. if j \<in> set is then None else row t1 j)"
    "\<And>k. ids_of (lt_by_flow t') k =
       filter (\<lambda>j. j \<notin> set is \<or> peer_of target (the (row t1 j)) \<noteq> k) (ids_of (lt_by_flow t1) k)"
    "\<And>p. hm_get (lt_pairs t') p =
       (if \<exists>j \<in> set is. \<exists>l. row t1 j = Some l \<and> pair_of l = p then None else hm_get (lt_pairs t1) p)"
    using spec by blast+
  have peers: "the (row t1 j) = the (row t j)" if "j \<in> set is" for j using that i by (auto simp: rows)
  show ?case
  proof (intro conjI allI)
    show "res = map (\<lambda>i. (i, peer_of target (the (row t i)))) (i # is)"
      using res1(2) IH(1) peers l by simp
    show "row t' = (\<lambda>j. if j \<in> set (i # is) then None else row t j)" using IH(5) by (auto simp: rows)
    show "ids_of (lt_by_flow t') k =
       filter (\<lambda>j. j \<notin> set (i # is) \<or> peer_of target (the (row t j)) \<noteq> k) (ids_of (lt_by_flow t) k)" for k
      unfolding IH(6) using l i peers by (auto simp: t1_def intro!: filter_cong)
    show "hm_get (lt_pairs t') p =
       (if \<exists>j \<in> set (i # is). \<exists>l. row t j = Some l \<and> pair_of l = p then None else hm_get (lt_pairs t) p)" for p
      unfolding IH(7) pairs1 rows using l i by auto
  qed (use IH in auto)
qed simp

lemma remove_links_spec:
  assumes "links_ok t" and "lt_remove_links_of target t = (peers, t')"
  shows "links_ok t'" "row t' = (\<lambda>j. if \<exists>l. row t j = Some l \<and> target \<in> ends l then None else row t j)"
    "set peers = {(i, peer_of target l) | i l. row t i = Some l \<and> target \<in> ends l}"
    "sorted (map fst peers)" "distinct (map fst peers)"
proof -
  note idx = links_okD(3) [OF assms(1)]
  define ids where "ids = ids_of (lt_by_flow t) target"
  have ids: "distinct ids" "i \<in> set ids \<longleftrightarrow> (\<exists>l. row t i = Some l \<and> target \<in> ends l)" for i
    using indexesD(2,3) [OF idx] by (auto simp: ids_def)
  define t1 where "t1 = t\<lparr>lt_by_flow := hm_remove target (lt_by_flow t)\<rparr>"
  have row1: "row t1 = row t" by (auto simp: row_def t1_def)
  obtain res t2 where sweep: "sweep_links target ids t1 = (res, t2)" by fastforce
  have t': "peers = sort_key fst res" "t' = (if ids = [] then t else t2)"
    using assms(2) sweep tight_row [OF indexesD(1) [OF idx], of target]
    by (auto simp: lt_remove_links_of_def ids_def ids_of_def t1_def split: option.splits)
  have pre: "hm_wf (lt_links t1)" "hm_wf (lt_pairs t1)" "tight (lt_by_flow t1)" "\<forall>i \<in> set ids. row t1 i \<noteq> None"
    using links_okD(1,2) [OF assms(1)] indexesD(1) [OF idx] ids(2) unfolding row1 by (auto simp: t1_def)
  note spec = sweep_links_spec [OF ids(1) pre sweep, unfolded row1]
  have peer: "peer_of target l = k \<longleftrightarrow> k \<in> ends l \<and> k \<noteq> target" if "row t j = Some l" "target \<in> ends l" for j l k
    using that links_okD(5) [OF assms(1), of j l] by (auto simp: peer_of_def ends_def)
  have ok2: "links_ok t2"
  proof (rule links_ok_drop [OF assms(1), of t2 "set ids"])
    fix k
    have "ids_of (lt_by_flow t2) k =
      filter (\<lambda>j. j \<notin> set ids \<or> peer_of target (the (row t j)) \<noteq> k) (if k = target then [] else ids_of (lt_by_flow t) k)"
      using spec by (simp add: t1_def)
    also have "\<dots> = filter (\<lambda>j. j \<notin> set ids) (ids_of (lt_by_flow t) k)"
      using ids(2) indexesD(3) [OF idx, of _ k] peer
      by (auto simp: ids_def [symmetric] intro!: filter_cong)
    finally show "ids_of (lt_by_flow t2) k = filter (\<lambda>j. j \<notin> set ids) (ids_of (lt_by_flow t) k)" .
  qed (use spec in \<open>auto simp: t1_def\<close>)
  show "links_ok t'" using ok2 assms(1) t'(2) by simp
  show "row t' = (\<lambda>j. if \<exists>l. row t j = Some l \<and> target \<in> ends l then None else row t j)"
    using spec t'(2) ids(2) by (auto simp: fun_eq_iff)
  show "set peers = {(i, peer_of target l) | i l. row t i = Some l \<and> target \<in> ends l}"
  proof -
    have "set peers = (\<lambda>i. (i, peer_of target (the (row t i)))) ` set ids" using spec t'(1) by simp
    then show ?thesis using ids(2) by (auto simp: image_iff)
  qed
  show "sorted (map fst peers)" by (simp add: t')
  have "map fst res = ids" using spec by (simp add: comp_def)
  then show "distinct (map fst peers)" using ids(1) t'(1) by simp
qed

section \<open>Runs of the store\<close>

definition store_ok :: "link_store \<Rightarrow> bool" where
  "store_ok st \<longleftrightarrow> links_ok (ls_table st) \<and> ids_ok (ls_ids st) \<and>
     (\<forall>i l. row (ls_table st) i = Some l \<longrightarrow> issued (ls_ids st) i)"

lemma store_okD:
  assumes "store_ok st"
  shows "links_ok (ls_table st)" "ids_ok (ls_ids st)" "row (ls_table st) i = Some l \<Longrightarrow> issued (ls_ids st) i"
  using assms by (auto simp: store_ok_def)

lemma store_ok_new [simp]: "store_ok (LinkStore_new m)"
  by (simp add: store_ok_def LinkStore_new_def) (simp add: row_def LinkTable_new_def)

lemma link_insert_cases:
  assumes "link_insert a b st = (r, st')" and "store_ok st"
  shows "store_ok st' \<and> ls_poisoned st' = ls_poisoned st \<and>
    ((\<exists>i. r = Inr (Inr i) \<and> row (ls_table st) i = None \<and> a \<noteq> b \<and>
       row (ls_table st') = (row (ls_table st))(i \<mapsto> \<lparr>lk_a = a, lk_b = b\<rparr>)) \<or>
     (\<forall>i. r \<noteq> Inr (Inr i)) \<and> ls_table st' = ls_table st)"
proof (cases "\<exists>i. r = Inr (Inr i)")
  case True
  then obtain i ids where i: "try_next_id (ls_ids st) = (Some i, ids)" "r = Inr (Inr i)" "a \<noteq> b"
    "\<not> has_pair (ls_table st) a b" "st' = st\<lparr>ls_ids := ids, ls_table := link_insert_row i a b (ls_table st)\<rparr>"
    using assms(1) by (auto simp: link_insert_def bindS_def store_lock_def split: if_splits prod.splits option.splits)
  note fresh = try_next_fresh [OF i(1) store_okD(2) [OF assms(2)]]
  have none: "row (ls_table st) i = None"
    using store_okD(3) [OF assms(2)] fresh(1) by (cases "row (ls_table st) i") auto
  note ins = links_ok_insert [OF store_okD(1) [OF assms(2)] none i(4,3)]
  have "store_ok st'"
    using ins fresh(2-4) store_okD(3) [OF assms(2)] by (auto simp: store_ok_def i(5))
  with ins(2) i none show ?thesis by auto
next
  case False
  then have "ls_table st' = ls_table st \<and> ls_poisoned st' = ls_poisoned st \<and>
    (ls_ids st' = ls_ids st \<or> try_next_id (ls_ids st) = (None, ls_ids st'))"
    using assms(1) by (auto simp: link_insert_def bindS_def store_lock_def split: if_splits prod.splits option.splits)
  then show ?thesis
    using False assms(2) try_next_none [of "ls_ids st" "ls_ids st'"] by (auto simp: store_ok_def)
qed

lemma force_remove_cases:
  assumes "force_remove i st = (r, st')" and "store_ok st"
  shows "store_ok st'" "ls_poisoned st' = ls_poisoned st"
    "\<not> ls_poisoned st \<Longrightarrow> row (ls_table st') = (row (ls_table st))(i := None)"
  using assms links_ok_unlink [OF store_okD(1) [OF assms(2)], of i] store_okD [OF assms(2)]
  by (auto simp: force_remove_def bindS_def store_lock_def store_ok_def split: if_splits prod.splits)

lemma unlink_owned_ok:
  assumes "unlink_owned owner i st = (r, st')" and "store_ok st"
  shows "store_ok st'"
  using assms links_ok_unlink [OF store_okD(1) [OF assms(2)], of i] store_okD [OF assms(2)]
  by (auto simp: unlink_owned_def bindS_def store_lock_def store_ok_def lt_unlink_owned_def
      split: if_splits prod.splits option.splits)

lemma remove_links_cases:
  assumes "remove_links_of target st = (r, st')" and "store_ok st"
  shows "store_ok st'" "ls_poisoned st' = ls_poisoned st"
    "\<not> ls_poisoned st \<Longrightarrow> row (ls_table st') =
      (\<lambda>j. if \<exists>l. row (ls_table st) j = Some l \<and> target \<in> ends l then None else row (ls_table st) j)"
  using assms remove_links_spec(1,2) [OF store_okD(1) [OF assms(2)], of target] store_okD(2,3) [OF assms(2)]
  by (auto simp: remove_links_of_def bindS_def store_lock_def store_ok_def split: if_splits prod.splits)

inductive link_step :: "link_store \<Rightarrow> link_store \<Rightarrow> bool" where
  step_link: "link_insert a b st = (r :: unit runtime_error + _, st') \<Longrightarrow> link_step st st'"
| step_force: "force_remove i st = (r :: unit runtime_error + _, st') \<Longrightarrow> link_step st st'"
| step_unlink: "unlink_owned owner i st = (r :: unit runtime_error + _, st') \<Longrightarrow> link_step st st'"
| step_sweep: "remove_links_of target st = (r :: unit runtime_error + _, st') \<Longrightarrow> link_step st st'"

lemma link_steps_ok: "link_step\<^sup>*\<^sup>* (LinkStore_new m) st \<Longrightarrow> store_ok st"
proof (induction rule: rtranclp_induct)
  case (step st st')
  from step.hyps(2) step.IH show ?case
    by cases (auto dest: link_insert_cases force_remove_cases(1) unlink_owned_ok remove_links_cases(1))
qed simp

section \<open>Linking against the exit of the peer\<close>

text \<open>
  One thread runs \<^verbatim>\<open>link_if_live\<close>: it inserts the row under the lock, reads the directory for
  each end outside it, and settles. Another finalizes the second flow: it leaves the
  directory, and later its links are swept.
\<close>

datatype race_step = RInsert | RCheckA | RCheckB | RSettle | RUnregister | RSweep

record link_race =
  lr_store :: link_store
  lr_live :: "flow_id \<Rightarrow> bool"
  lr_id :: "u64 option"
  lr_a_live :: bool
  lr_b_live :: bool

definition race_start :: "link_store \<Rightarrow> (flow_id \<Rightarrow> bool) \<Rightarrow> link_race" where
  "race_start st live = \<lparr>lr_store = st, lr_live = live, lr_id = None, lr_a_live = False, lr_b_live = False\<rparr>"

fun race_do :: "flow_id \<Rightarrow> flow_id \<Rightarrow> race_step \<Rightarrow> link_race \<Rightarrow> link_race" where
  "race_do a b RInsert w =
     (case (link_insert a b (lr_store w) :: (unit runtime_error + _) \<times> _) of
        (Inr (Inr i), st) \<Rightarrow> w\<lparr>lr_store := st, lr_id := Some i\<rparr>
      | (_, st) \<Rightarrow> w\<lparr>lr_store := st\<rparr>)"
| "race_do a b RCheckA w = w\<lparr>lr_a_live := lr_live w a\<rparr>"
| "race_do a b RCheckB w = w\<lparr>lr_b_live := lr_live w b\<rparr>"
| "race_do a b RSettle w =
     (case lr_id w of
        None \<Rightarrow> w
      | Some i \<Rightarrow> w\<lparr>lr_store := snd (confirm_live i a b
            (\<lambda>f. Inr (if f = a then lr_a_live w else lr_b_live w) :: unit runtime_error + bool) (lr_store w))\<rparr>)"
| "race_do a b RUnregister w = w\<lparr>lr_live := (lr_live w)(b := False)\<rparr>"
| "race_do a b RSweep w = w\<lparr>lr_store := snd (remove_links_of b (lr_store w) :: (unit runtime_error + _) \<times> _)\<rparr>"

definition race_run ::
  "flow_id \<Rightarrow> flow_id \<Rightarrow> race_step list \<Rightarrow> link_store \<Rightarrow> (flow_id \<Rightarrow> bool) \<Rightarrow> link_race" where
  "race_run a b sched st live = fold (race_do a b) sched (race_start st live)"

text \<open>What a step does to the rows that mention the exiting flow.\<close>

definition race_ok :: "link_race \<Rightarrow> bool" where
  "race_ok w \<longleftrightarrow> store_ok (lr_store w) \<and> \<not> ls_poisoned (lr_store w)"

definition only_new :: "flow_id \<Rightarrow> link_race \<Rightarrow> bool" where
  "only_new b w \<longleftrightarrow> (\<forall>i l. row (ls_table (lr_store w)) i = Some l \<longrightarrow> b \<in> ends l \<longrightarrow> lr_id w = Some i)"

definition no_link :: "flow_id \<Rightarrow> link_race \<Rightarrow> bool" where
  "no_link b w \<longleftrightarrow> (\<forall>i l. row (ls_table (lr_store w)) i = Some l \<longrightarrow> b \<notin> ends l)"

lemma race_ok_flags [simp]:
  "race_ok (w\<lparr>lr_a_live := x\<rparr>) = race_ok w" "race_ok (w\<lparr>lr_b_live := x\<rparr>) = race_ok w" "race_ok (w\<lparr>lr_live := f\<rparr>) = race_ok w"
  by (simp_all add: race_ok_def)

lemma no_link_flags [simp]:
  "no_link b (w\<lparr>lr_a_live := x\<rparr>) = no_link b w" "no_link b (w\<lparr>lr_b_live := x\<rparr>) = no_link b w"
  "no_link b (w\<lparr>lr_live := f\<rparr>) = no_link b w"
  by (simp_all add: no_link_def)

lemma confirm_store:
  assumes "confirm_live i a b is_live st = (r, st')" and "store_ok st" and "\<not> ls_poisoned st"
  shows "store_ok st' \<and> \<not> ls_poisoned st' \<and>
    (is_live a = Inr True \<and> is_live b = Inr True \<and> st' = st \<or> row (ls_table st') = (row (ls_table st))(i := None))"
proof -
  obtain r1 st1 where st1: "force_remove i st = (r1 :: 'a runtime_error + bool, st1)" by fastforce
  note forced = force_remove_cases [OF st1 assms(2)]
  have "\<exists>x. r1 = Inr x" using st1 assms(3) by (auto simp: force_remove_def bindS_def store_lock_def split: prod.splits)
  with assms(1) have "st' = st1 \<or> is_live a = Inr True \<and> is_live b = Inr True \<and> st' = st"
    by (auto simp: confirm_live_def st1 bindS_def returnS_def Let_def split: sum.splits if_splits)
  with forced assms(2,3) show ?thesis by auto
qed

lemma race_insert:
  assumes "race_ok w"
  shows "race_ok (race_do a b RInsert w)" "no_link b w \<Longrightarrow> only_new b (race_do a b RInsert w)"
    "no_link b w \<Longrightarrow> no_link b (race_do a b RInsert w) \<or> a \<noteq> b" "lr_live (race_do a b RInsert w) = lr_live w"
proof -
  obtain r st' where st': "link_insert a b (lr_store w) = (r :: unit runtime_error + _, st')" by fastforce
  from link_insert_cases [OF st'] assms show "race_ok (race_do a b RInsert w)"
    "no_link b w \<Longrightarrow> only_new b (race_do a b RInsert w)"
    "no_link b w \<Longrightarrow> no_link b (race_do a b RInsert w) \<or> a \<noteq> b" "lr_live (race_do a b RInsert w) = lr_live w"
    by (auto simp: st' race_ok_def no_link_def only_new_def split: sum.splits if_splits)
qed

lemma race_settle:
  assumes "race_ok w"
  shows "race_ok (race_do a b RSettle w)" "no_link b w \<Longrightarrow> no_link b (race_do a b RSettle w)"
    "only_new b w \<Longrightarrow> \<not> lr_b_live w \<Longrightarrow> a \<noteq> b \<Longrightarrow> no_link b (race_do a b RSettle w)"
proof -
  define w' where "w' = race_do a b RSettle w"
  have "race_ok w' \<and> (no_link b w \<longrightarrow> no_link b w') \<and> (only_new b w \<longrightarrow> \<not> lr_b_live w \<longrightarrow> a \<noteq> b \<longrightarrow> no_link b w')"
  proof (cases "lr_id w")
    case None
    with assms show ?thesis by (auto simp: w'_def no_link_def only_new_def)
  next
    case (Some i)
    define live where "live = (\<lambda>f. Inr (if f = a then lr_a_live w else lr_b_live w) :: unit runtime_error + bool)"
    obtain r st' where st': "confirm_live i a b live (lr_store w) = (r, st')" by fastforce
    have w': "w' = w\<lparr>lr_store := st'\<rparr>" using Some st' by (simp add: w'_def live_def)
    from confirm_store [OF st'] assms Some show ?thesis
      by (auto simp: w' race_ok_def no_link_def only_new_def live_def split: if_splits)
  qed
  then show "race_ok (race_do a b RSettle w)" "no_link b w \<Longrightarrow> no_link b (race_do a b RSettle w)"
    "only_new b w \<Longrightarrow> \<not> lr_b_live w \<Longrightarrow> a \<noteq> b \<Longrightarrow> no_link b (race_do a b RSettle w)"
    by (simp_all add: w'_def)
qed

lemma race_sweep:
  assumes "race_ok w"
  shows "race_ok (race_do a b RSweep w)" "no_link b (race_do a b RSweep w)"
proof -
  obtain r st' where st': "remove_links_of b (lr_store w) = (r :: unit runtime_error + _, st')" by fastforce
  from remove_links_cases [OF st'] assms show "race_ok (race_do a b RSweep w)" "no_link b (race_do a b RSweep w)"
    by (auto simp: st' race_ok_def no_link_def split: if_splits)
qed

lemma race_ok_do: "race_ok w \<Longrightarrow> race_ok (race_do a b s w)"
  by (cases s) (simp_all del: race_do.simps(1,4,6) add: race_insert(1) race_settle(1) race_sweep(1))

lemma race_ok_fold: "race_ok w \<Longrightarrow> race_ok (fold (race_do a b) ss w)"
  by (induction ss arbitrary: w) (auto intro: race_ok_do)

lemma no_link_fold:
  "race_ok w \<Longrightarrow> no_link b w \<Longrightarrow> RInsert \<notin> set ss \<Longrightarrow> no_link b (fold (race_do a b) ss w)"
proof (induction ss arbitrary: w)
  case (Cons s ss)
  have "no_link b (race_do a b s w)"
    using Cons.prems by (cases s) (simp_all del: race_do.simps(1,4,6) add: race_settle(2) race_sweep(2))
  with Cons show ?case by (simp add: race_ok_do del: race_do.simps)
qed simp

text \<open>The interleavings: either the sweep comes after the insertion, or it all comes first.\<close>

lemma race_schedules:
  assumes "sched \<in> shuffles [RInsert, RCheckA, RCheckB, RSettle] [RUnregister, RSweep]"
  obtains xs ys where "sched = xs @ RSweep # ys" "RInsert \<notin> set ys"
  | "sched = [RUnregister, RSweep, RInsert, RCheckA, RCheckB, RSettle]"
proof (cases "sched = [RUnregister, RSweep, RInsert, RCheckA, RCheckB, RSettle]")
  case False
  have "RSweep \<in> set sched" using set_shuffles [OF assms] by auto
  then have "sched = takeWhile (\<lambda>s. s \<noteq> RSweep) sched @ RSweep # tl (dropWhile (\<lambda>s. s \<noteq> RSweep) sched)"
    by (metis (mono_tags, lifting) dropWhile_eq_Nil_conv hd_dropWhile list.collapse takeWhile_dropWhile_id)
  moreover have "RInsert \<notin> set (tl (dropWhile (\<lambda>s. s \<noteq> RSweep) sched))"
    using assms False by auto
  ultimately show thesis by (rule that(1))
qed

lemma race_no_link:
  assumes "race_ok w" and "sched \<in> shuffles [RInsert, RCheckA, RCheckB, RSettle] [RUnregister, RSweep]"
  shows "no_link b (fold (race_do a b) sched w)"
  using assms(2)
proof (cases rule: race_schedules)
  case (1 xs ys)
  have "race_ok (fold (race_do a b) xs w)" by (rule race_ok_fold [OF assms(1)])
  from race_sweep [OF this] no_link_fold 1 show ?thesis by (simp del: race_do.simps)
next
  case 2
  define w1 where "w1 = race_do a b RSweep (race_do a b RUnregister w)"
  have "race_ok (race_do a b RUnregister w)" using assms(1) by (simp add: race_ok_def)
  from race_sweep [OF this, where a = a and b = b] have w1: "race_ok w1" "no_link b w1" by (simp_all add: w1_def)
  have dead: "\<not> lr_live w1 b" by (simp add: w1_def)
  define w2 where "w2 = race_do a b RInsert w1"
  note w2 = race_insert [OF w1(1), where a = a and b = b, folded w2_def]
  define w3 where "w3 = race_do a b RCheckB (race_do a b RCheckA w2)"
  have w3: "race_ok w3" "only_new b w2 \<Longrightarrow> only_new b w3" "no_link b w2 \<Longrightarrow> no_link b w3" "\<not> lr_b_live w3"
    using w2(1,4) dead by (auto simp: w3_def race_ok_def only_new_def no_link_def)
  have "no_link b (race_do a b RSettle w3)"
    using w2(2,3) [OF w1(2)] w3 race_settle(2,3) by blast
  then show ?thesis using 2 by (simp add: w1_def w2_def w3_def del: race_do.simps)
qed

section \<open>Properties\<close>

text \<open>C31: the exit of a flow reaches exactly the flows it is linked to. In a link store reached
  by any interleaving of its critical sections, the sweep of a flow returns one entry for each
  link it has, with the other end, in the order of the link identifiers and without
  repetition; the rows that remain are exactly the links between other flows, the uniqueness
  index agrees with them, and a pair of flows never has two links.\<close>

theorem exit_reaches_exactly_the_linked_peers:
  assumes "link_step\<^sup>*\<^sup>* (LinkStore_new max_links) st"
    and "remove_links_of target st = (Inr peers, st')"
  shows "set peers = {(i, peer_of target l) | i l. row (ls_table st) i = Some l \<and> target \<in> ends l} \<and>
    sorted (map fst peers) \<and> distinct (map fst peers) \<and>
    (\<forall>i l. row (ls_table st') i = Some l \<longleftrightarrow> row (ls_table st) i = Some l \<and> target \<notin> ends l) \<and>
    (\<forall>a b. has_pair (ls_table st') a b \<longleftrightarrow> has_pair (ls_table st) a b \<and> target \<noteq> a \<and> target \<noteq> b) \<and>
    (\<forall>i j l m. row (ls_table st) i = Some l \<and> row (ls_table st) j = Some m \<and> ends l = ends m \<longrightarrow> i = j)"
proof -
  note ok = link_steps_ok [OF assms(1)]
  note ok' = remove_links_cases [OF assms(2) ok]
  have table: "lt_remove_links_of target (ls_table st) = (peers, ls_table st')" and "\<not> ls_poisoned st"
    using assms(2) by (auto simp: remove_links_of_def bindS_def store_lock_def split: if_splits prod.splits)
  note spec = remove_links_spec [OF store_okD(1) [OF ok] table]
  have rows: "row (ls_table st') i = Some l \<longleftrightarrow> row (ls_table st) i = Some l \<and> target \<notin> ends l" for i l
    by (auto simp: spec(2))
  have "has_pair (ls_table st') a b \<longleftrightarrow> has_pair (ls_table st) a b \<and> target \<noteq> a \<and> target \<noteq> b" for a b
    unfolding has_pair_iff [OF store_okD(1) [OF ok]] has_pair_iff [OF store_okD(1) [OF ok'(1)]] rows by auto
  moreover have "\<forall>i j l m. row (ls_table st) i = Some l \<and> row (ls_table st) j = Some m \<and> ends l = ends m \<longrightarrow> i = j"
    using links_unique [OF store_okD(1) [OF ok]] by blast
  ultimately show ?thesis using spec(3-5) rows by (intro conjI) simp_all
qed

text \<open>A store with the links 1-2 and 3-1.\<close>

definition two_links :: link_store where
  "two_links = \<lparr>ls_poisoned = False,
     ls_table = \<lparr>lt_links = [(1, \<lparr>lk_a = 1, lk_b = 2\<rparr>), (2, \<lparr>lk_a = 3, lk_b = 1\<rparr>)],
       lt_pairs = [((1, 2), 1), ((1, 3), 2)], lt_by_flow = [(1, [1, 2]), (2, [1]), (3, [2])]\<rparr>,
     ls_max_links = 0, ls_ids = \<lparr>is_next = 3, is_exhausted = False\<rparr>\<rparr>"

lemmas link_run_defs = bindS_def returnS_def store_lock_def link_insert_def LinkStore_new_def LinkTable_new_def
  fresh_ids_def has_pair_def hm_contains_key_def hm_get_def try_next_id_def MAX_RELATION_ID_def Let_def
  link_insert_row_def hm_insert_def pair_key_def index_add_def ids_of_def

lemma two_links_reached: "link_step\<^sup>*\<^sup>* (LinkStore_new 0) two_links"
proof -
  have "link_insert 1 2 (LinkStore_new 0) = (Inr (Inr 1) :: unit runtime_error + _,
    \<lparr>ls_poisoned = False,
     ls_table = \<lparr>lt_links = [(1, \<lparr>lk_a = 1, lk_b = 2\<rparr>)], lt_pairs = [((1, 2), 1)], lt_by_flow = [(1, [1]), (2, [1])]\<rparr>,
     ls_max_links = 0, ls_ids = \<lparr>is_next = 2, is_exhausted = False\<rparr>\<rparr>)" (is "_ = (_, ?st)")
    by (simp add: link_run_defs)
  moreover have "link_insert 3 1 ?st = (Inr (Inr 2) :: unit runtime_error + _, two_links)"
    by (simp add: link_run_defs two_links_def word_le_nat_alt)
  ultimately show ?thesis by (meson step_link rtranclp.rtrancl_into_rtrancl rtranclp.rtrancl_refl)
qed

theorem exit_reaches_exactly_the_linked_peers_witness:
  "\<exists>st'. remove_links_of 1 two_links = (Inr [(1, 2), (2, 3)] :: unit runtime_error + _, st') \<and>
    sorted (map fst [(1 :: u64, 2 :: flow_id), (2, 3)]) \<and> \<not> has_pair (ls_table st') 1 2 \<and> \<not> has_pair (ls_table st') 3 1"
proof -
  obtain st' where st': "remove_links_of 1 two_links = (Inr [(1, 2), (2, 3)] :: unit runtime_error + _, st')"
    by (simp add: remove_links_of_def lt_remove_links_of_def two_links_def bindS_def store_lock_def hm_get_def
        hm_remove_def peer_of_def Let_def)
  from exit_reaches_exactly_the_linked_peers [OF two_links_reached st'] st' show ?thesis by blast
qed

text \<open>C32: linking never leaves a link to a dead flow. For every interleaving of
  \<open>link_if_live\<close> (insert the row under the lock, ask the directory about each end outside
  it, settle) with the exit of the second flow (leave the directory, sweep the links), once
  both have finished no link mentions the flow that exited.\<close>

theorem no_zombie_link:
  assumes "link_step\<^sup>*\<^sup>* (LinkStore_new max_links) st" and "\<not> ls_poisoned st"
    and "sched \<in> shuffles [RInsert, RCheckA, RCheckB, RSettle] [RUnregister, RSweep]"
    and "row (ls_table (lr_store (race_run a b sched st live))) i = Some l"
  shows "b \<notin> ends l"
proof -
  have "race_ok (race_start st live)"
    using link_steps_ok [OF assms(1)] assms(2) by (simp add: race_ok_def race_start_def)
  from race_no_link [OF this assms(3)] assms(4) show ?thesis
    by (auto simp: race_run_def no_link_def)
qed

theorem no_zombie_link_witness:
  "\<exists>i l. row (ls_table (lr_store (race_run 5 2 [RInsert, RUnregister, RCheckA, RSweep, RCheckB, RSettle] two_links (\<lambda>_. True)))) i = Some l \<and>
    2 \<notin> ends l"
proof -
  have "row (ls_table (lr_store (race_run 5 2 [RInsert, RUnregister, RCheckA, RSweep, RCheckB, RSettle] two_links (\<lambda>_. True)))) 2 =
    Some \<lparr>lk_a = 3, lk_b = 1\<rparr>"
    by (simp add: race_run_def race_start_def link_run_defs two_links_def remove_links_of_def lt_remove_links_of_def
        hm_remove_def peer_of_def confirm_live_def force_remove_def unlink_id_def row_def index_remove_def)
  moreover have "[RInsert, RUnregister, RCheckA, RSweep, RCheckB, RSettle] \<in>
    shuffles [RInsert, RCheckA, RCheckB, RSettle] [RUnregister, RSweep]" by simp
  moreover have "\<not> ls_poisoned two_links" by (simp add: two_links_def)
  ultimately show ?thesis using no_zombie_link [OF two_links_reached] by blast
qed

end
