(* ===== verification/Bf_Monitors.thy ===== *)
theory Bf_Monitors
  imports Bf_Index
begin

text \<open>
  One-way watches (\<^verbatim>\<open>scheduler/monitor.rs\<close>): the table with its two indexes, the store, the
  exit reasons, and the two places that create a monitor, the host call of
  \<^verbatim>\<open>scheduler/runtime.rs\<close> and the instruction of \<^verbatim>\<open>scheduler/worker.rs\<close>, against the exit of the target.
\<close>

section \<open>Exit reasons\<close>

datatype flow_exit_reason =
    ExitNormal | ExitShutdown | ExitKilled | ExitFault | ExitMailboxOverflow | ExitSupervisor | ExitLink

definition reason_from_u64 :: "u64 \<Rightarrow> flow_exit_reason option" where
  "reason_from_u64 raw =
     (if raw = 0 then Some ExitNormal
      else if raw = 1 then Some ExitShutdown
      else if raw = 2 then Some ExitKilled
      else if raw = 3 then Some ExitFault
      else if raw = 4 then Some ExitMailboxOverflow
      else if raw = 5 then Some ExitSupervisor
      else if raw = 6 then Some ExitLink
      else None)"

primrec reason_as_u64 :: "flow_exit_reason \<Rightarrow> u64" where
  "reason_as_u64 ExitNormal = 0"
| "reason_as_u64 ExitShutdown = 1"
| "reason_as_u64 ExitKilled = 2"
| "reason_as_u64 ExitFault = 3"
| "reason_as_u64 ExitMailboxOverflow = 4"
| "reason_as_u64 ExitSupervisor = 5"
| "reason_as_u64 ExitLink = 6"

definition is_abnormal :: "flow_exit_reason \<Rightarrow> bool" where
  "is_abnormal r \<longleftrightarrow> r \<noteq> ExitNormal"

lemma reason_roundtrip: "reason_from_u64 n = Some r \<longleftrightarrow> n = reason_as_u64 r"
  by (cases r) (auto simp: reason_from_u64_def split: if_splits)

section \<open>The table\<close>

record monitor_entry =
  me_owner :: flow_id
  me_target :: flow_id

record down_event =
  de_monitor :: u64
  de_owner :: flow_id
  de_target :: flow_id
  de_reason :: flow_exit_reason

record monitor_table =
  mt_monitors :: "(u64, monitor_entry) hash_map"
  mt_by_owner :: "(flow_id, u64) adjacency"
  mt_by_target :: "(flow_id, u64) adjacency"

definition MonitorTable_new :: monitor_table where
  "MonitorTable_new = \<lparr>mt_monitors = [], mt_by_owner = [], mt_by_target = []\<rparr>"

definition mt_len :: "monitor_table \<Rightarrow> nat" where
  "mt_len t = length (mt_monitors t)"

definition mt_insert :: "u64 \<Rightarrow> flow_id \<Rightarrow> flow_id \<Rightarrow> monitor_table \<Rightarrow> monitor_table" where
  "mt_insert m owner target t =
     t\<lparr>mt_monitors := hm_insert m \<lparr>me_owner = owner, me_target = target\<rparr> (mt_monitors t),
       mt_by_owner := index_add owner m (mt_by_owner t),
       mt_by_target := index_add target m (mt_by_target t)\<rparr>"

definition mt_take :: "u64 \<Rightarrow> monitor_table \<Rightarrow> monitor_entry option \<times> monitor_table" where
  "mt_take m t =
     (case hm_get (mt_monitors t) m of
        None \<Rightarrow> (None, t)
      | Some e \<Rightarrow> (Some e,
          t\<lparr>mt_monitors := hm_remove m (mt_monitors t),
            mt_by_owner := index_remove (me_owner e) m (mt_by_owner t),
            mt_by_target := index_remove (me_target e) m (mt_by_target t)\<rparr>))"

definition mt_remove_owned :: "flow_id \<Rightarrow> u64 \<Rightarrow> monitor_table \<Rightarrow> (lifecycle_error + unit) \<times> monitor_table" where
  "mt_remove_owned owner m t =
     (case hm_get (mt_monitors t) m of
        Some e \<Rightarrow> if me_owner e = owner then (Inr (), snd (mt_take m t)) else (Inl NotOwner, t)
      | None \<Rightarrow> (Inl InvalidMonitor, t))"

definition mt_remove_owned_by :: "flow_id \<Rightarrow> monitor_table \<Rightarrow> monitor_table" where
  "mt_remove_owned_by owner t =
     (case hm_get (mt_by_owner t) owner of
        None \<Rightarrow> t
      | Some is \<Rightarrow>
          (case drain_rows me_target is (mt_monitors t) (mt_by_target t) of
             (_, rows, by_target) \<Rightarrow>
               t\<lparr>mt_monitors := rows, mt_by_owner := hm_remove owner (mt_by_owner t), mt_by_target := by_target\<rparr>))"

definition mt_notify_target_exit ::
  "flow_id \<Rightarrow> flow_exit_reason \<Rightarrow> monitor_table \<Rightarrow> down_event list \<times> monitor_table" where
  "mt_notify_target_exit target reason t =
     (case hm_get (mt_by_target t) target of
        None \<Rightarrow> ([], t)
      | Some is \<Rightarrow>
          (case drain_rows me_owner is (mt_monitors t) (mt_by_owner t) of
             (found, rows, by_owner) \<Rightarrow>
               (sort_key de_monitor (map (\<lambda>(m, e).
                  \<lparr>de_monitor = m, de_owner = me_owner e, de_target = target, de_reason = reason\<rparr>) found),
                t\<lparr>mt_monitors := rows, mt_by_owner := by_owner, mt_by_target := hm_remove target (mt_by_target t)\<rparr>)))"

section \<open>The store\<close>

record monitor_store =
  mo_poisoned :: bool
  mo_table :: monitor_table
  mo_max_monitors :: u32
  mo_ids :: id_source

type_synonym ('x, 'a) monitorop = "(monitor_store, 'x runtime_error, 'a) fallible"

definition MonitorStore_new :: "u32 \<Rightarrow> monitor_store" where
  "MonitorStore_new max_monitors =
     \<lparr>mo_poisoned = False, mo_table = MonitorTable_new, mo_max_monitors = max_monitors, mo_ids = fresh_ids\<rparr>"

definition mo_create :: "flow_id \<Rightarrow> flow_id \<Rightarrow> ('x, lifecycle_error + u64) monitorop" where
  "mo_create owner target =
     bindS (store_lock mo_poisoned ''MonitorStore::create'') (\<lambda>_ st.
       if mo_max_monitors st \<noteq> 0 \<and> unat (mo_max_monitors st) \<le> mt_len (mo_table st)
       then (Inr (Inl (MonitorLimitReached (mo_max_monitors st))), st)
       else case try_next_id (mo_ids st) of
         (None, ids) \<Rightarrow> (Inl MonitorIdExhausted, st\<lparr>mo_ids := ids\<rparr>)
       | (Some m, ids) \<Rightarrow> (Inr (Inr m), st\<lparr>mo_ids := ids, mo_table := mt_insert m owner target (mo_table st)\<rparr>))"

definition mo_remove_owned :: "flow_id \<Rightarrow> u64 \<Rightarrow> ('x, lifecycle_error + unit) monitorop" where
  "mo_remove_owned owner m =
     bindS (store_lock mo_poisoned ''MonitorStore::remove_owned'') (\<lambda>_ st.
       case mt_remove_owned owner m (mo_table st) of (r, t) \<Rightarrow> (Inr r, st\<lparr>mo_table := t\<rparr>))"

definition mo_remove_owned_by :: "flow_id \<Rightarrow> ('x, unit) monitorop" where
  "mo_remove_owned_by owner =
     bindS (store_lock mo_poisoned ''MonitorStore::remove_owned_by'') (\<lambda>_ st.
       (Inr (), st\<lparr>mo_table := mt_remove_owned_by owner (mo_table st)\<rparr>))"

definition mo_notify_target_exit :: "flow_id \<Rightarrow> flow_exit_reason \<Rightarrow> ('x, down_event list) monitorop" where
  "mo_notify_target_exit target reason =
     bindS (store_lock mo_poisoned ''MonitorStore::notify_target_exit'') (\<lambda>_ st.
       case mt_notify_target_exit target reason (mo_table st) of (evs, t) \<Rightarrow> (Inr evs, st\<lparr>mo_table := t\<rparr>))"

section \<open>The indexes stay in step\<close>

definition watch :: "monitor_table \<Rightarrow> u64 \<Rightarrow> monitor_entry option" where
  "watch t = hm_get (mt_monitors t)"

definition monitors_ok :: "monitor_table \<Rightarrow> bool" where
  "monitors_ok t \<longleftrightarrow> hm_wf (mt_monitors t) \<and> indexes (\<lambda>e. {me_owner e}) (watch t) (mt_by_owner t) \<and>
     indexes (\<lambda>e. {me_target e}) (watch t) (mt_by_target t)"

lemma monitors_okD:
  assumes "monitors_ok t"
  shows "hm_wf (mt_monitors t)" "indexes (\<lambda>e. {me_owner e}) (watch t) (mt_by_owner t)"
    "indexes (\<lambda>e. {me_target e}) (watch t) (mt_by_target t)"
  using assms by (simp_all add: monitors_ok_def)

lemma monitors_ok_new [simp]: "monitors_ok MonitorTable_new"
  by (simp add: monitors_ok_def MonitorTable_new_def watch_def indexes_def)

lemma monitors_ok_insert:
  assumes "monitors_ok t" and "watch t m = None"
  shows "monitors_ok (mt_insert m owner target t)"
    "watch (mt_insert m owner target t) = (watch t)(m \<mapsto> \<lparr>me_owner = owner, me_target = target\<rparr>)"
proof -
  show w: "watch (mt_insert m owner target t) = (watch t)(m \<mapsto> \<lparr>me_owner = owner, me_target = target\<rparr>)"
    by (auto simp: watch_def mt_insert_def)
  note ok = monitors_okD [OF assms(1)]
  have "indexes (\<lambda>e. {me_owner e}) ((watch t)(m \<mapsto> \<lparr>me_owner = owner, me_target = target\<rparr>))
      (mt_by_owner (mt_insert m owner target t))"
    "indexes (\<lambda>e. {me_target e}) ((watch t)(m \<mapsto> \<lparr>me_owner = owner, me_target = target\<rparr>))
      (mt_by_target (mt_insert m owner target t))"
    by (rule indexes_insert [OF ok(2) assms(2)] indexes_insert [OF ok(3) assms(2)];
        use indexesD(1) [OF ok(2)] indexesD(1) [OF ok(3)] in \<open>simp add: mt_insert_def\<close>)+
  then show "monitors_ok (mt_insert m owner target t)"
    unfolding monitors_ok_def w using ok(1) by (simp add: mt_insert_def)
qed

lemma take_index:
  assumes "indexes (\<lambda>e. {key e}) rows idx" and "rows m = Some e"
  shows "indexes (\<lambda>e. {key e}) (rows(m := None)) (index_remove (key e) m idx)"
proof (rule indexes_delete [OF assms(1), where gone = "{m}"])
  show "ids_of (index_remove (key e) m idx) k = filter (\<lambda>j. j \<notin> {m}) (ids_of idx k)" for k
    using indexesD(3) [OF assms(1), of m k] assms(2) by (auto intro!: filter_True [symmetric])
qed (use indexesD(1) [OF assms(1)] in auto)

lemma monitors_ok_take:
  assumes "monitors_ok t"
  shows "monitors_ok (snd (mt_take m t))" "watch (snd (mt_take m t)) = (watch t)(m := None)"
proof -
  show w: "watch (snd (mt_take m t)) = (watch t)(m := None)"
    by (auto simp: mt_take_def watch_def fun_eq_iff split: option.splits)
  note ok = monitors_okD [OF assms]
  show "monitors_ok (snd (mt_take m t))"
  proof (cases "watch t m")
    case None
    with assms show ?thesis by (simp add: mt_take_def watch_def)
  next
    case (Some e)
    with ok take_index [OF ok(2) Some] take_index [OF ok(3) Some] show ?thesis
      unfolding monitors_ok_def w by (simp add: mt_take_def watch_def)
  qed
qed

lemma row_ids: "hm_get idx k = Some is \<Longrightarrow> ids_of idx k = is"
  by (simp add: ids_of_def)

lemma remove_owned_by_spec:
  assumes "monitors_ok t"
  shows "monitors_ok (mt_remove_owned_by owner t)"
    "watch (mt_remove_owned_by owner t) = (\<lambda>m. if \<exists>e. watch t m = Some e \<and> me_owner e = owner then None else watch t m)"
proof -
  note ok = monitors_okD [OF assms]
  have "monitors_ok (mt_remove_owned_by owner t) \<and>
    watch (mt_remove_owned_by owner t) = (\<lambda>m. if \<exists>e. watch t m = Some e \<and> me_owner e = owner then None else watch t m)"
  proof (cases "hm_get (mt_by_owner t) owner")
    case None
    then have "ids_of (mt_by_owner t) owner = []" by (simp add: ids_of_def)
    then have "\<nexists>m e. watch t m = Some e \<and> me_owner e = owner"
      using indexesD(3) [OF ok(2), of _ owner] by auto
    with None assms show ?thesis by (auto simp: mt_remove_owned_by_def fun_eq_iff)
  next
    case (Some "is")
    obtain found rows by_target where drain: "drain_rows me_target is (mt_monitors t) (mt_by_target t) = (found, rows, by_target)"
      by (metis surj_pair)
    from drain_key [OF ok(1) ok(2) [unfolded watch_def] ok(3) [unfolded watch_def], of owner found rows by_target] drain Some
    show ?thesis unfolding monitors_ok_def watch_def by (simp add: mt_remove_owned_by_def row_ids)
  qed
  then show "monitors_ok (mt_remove_owned_by owner t)"
    "watch (mt_remove_owned_by owner t) = (\<lambda>m. if \<exists>e. watch t m = Some e \<and> me_owner e = owner then None else watch t m)"
    by blast+
qed

lemma notify_spec:
  assumes "monitors_ok t" and "mt_notify_target_exit target reason t = (evs, t')"
  shows "monitors_ok t'" "watch t' = (\<lambda>m. if \<exists>e. watch t m = Some e \<and> me_target e = target then None else watch t m)"
    "set evs = {\<lparr>de_monitor = m, de_owner = me_owner e, de_target = target, de_reason = reason\<rparr> | m e.
       watch t m = Some e \<and> me_target e = target}"
    "sorted (map de_monitor evs)" "distinct (map de_monitor evs)"
proof -
  note ok = monitors_okD [OF assms(1)]
  let ?ev = "\<lambda>(m, e). \<lparr>de_monitor = m, de_owner = me_owner e, de_target = target, de_reason = reason\<rparr>"
  have "monitors_ok t' \<and> watch t' = (\<lambda>m. if \<exists>e. watch t m = Some e \<and> me_target e = target then None else watch t m) \<and>
    (\<exists>found. evs = sort_key de_monitor (map ?ev found) \<and>
       set found = {(m, e). watch t m = Some e \<and> me_target e = target} \<and> distinct (map fst found))"
  proof (cases "hm_get (mt_by_target t) target")
    case None
    then have "ids_of (mt_by_target t) target = []" by (simp add: ids_of_def)
    then have "\<nexists>m e. watch t m = Some e \<and> me_target e = target"
      using indexesD(3) [OF ok(3), of _ target] by auto
    with None assms show ?thesis by (auto simp: mt_notify_target_exit_def fun_eq_iff intro!: exI [of _ "[]"])
  next
    case (Some "is")
    obtain found rows by_owner where drain: "drain_rows me_owner is (mt_monitors t) (mt_by_owner t) = (found, rows, by_owner)"
      by (metis surj_pair)
    with Some assms(2) have "evs = sort_key de_monitor (map ?ev found)"
      "t' = t\<lparr>mt_monitors := rows, mt_by_owner := by_owner, mt_by_target := hm_remove target (mt_by_target t)\<rparr>"
      by (simp_all add: mt_notify_target_exit_def)
    with drain_key [OF ok(1) ok(3) [unfolded watch_def] ok(2) [unfolded watch_def], of target found rows by_owner] drain Some
    show ?thesis unfolding monitors_ok_def watch_def
      by (intro conjI exI [of _ found]) (simp_all add: row_ids)
  qed
  then obtain found where found: "monitors_ok t'"
    "watch t' = (\<lambda>m. if \<exists>e. watch t m = Some e \<and> me_target e = target then None else watch t m)"
    "evs = sort_key de_monitor (map ?ev found)" "set found = {(m, e). watch t m = Some e \<and> me_target e = target}"
    "distinct (map fst found)" by blast
  show "monitors_ok t'" "watch t' = (\<lambda>m. if \<exists>e. watch t m = Some e \<and> me_target e = target then None else watch t m)"
    by (fact found)+
  show "set evs = {\<lparr>de_monitor = m, de_owner = me_owner e, de_target = target, de_reason = reason\<rparr> | m e.
       watch t m = Some e \<and> me_target e = target}"
    by (auto simp: found(3,4) image_iff)
  show "sorted (map de_monitor evs)" by (simp add: found(3))
  have "map de_monitor (map ?ev found) = map fst found" by (induction found) auto
  then show "distinct (map de_monitor evs)" using found(5) unfolding found(3) distinct_map_sort_key by metis
qed

section \<open>Runs of the store\<close>

definition monitor_store_ok :: "monitor_store \<Rightarrow> bool" where
  "monitor_store_ok st \<longleftrightarrow> monitors_ok (mo_table st) \<and> ids_ok (mo_ids st) \<and>
     (\<forall>m e. watch (mo_table st) m = Some e \<longrightarrow> issued (mo_ids st) m)"

lemma monitor_store_okD:
  assumes "monitor_store_ok st"
  shows "monitors_ok (mo_table st)" "ids_ok (mo_ids st)" "watch (mo_table st) m = Some e \<Longrightarrow> issued (mo_ids st) m"
  using assms by (auto simp: monitor_store_ok_def)

lemma monitor_store_ok_new [simp]: "monitor_store_ok (MonitorStore_new m)"
  by (simp add: monitor_store_ok_def MonitorStore_new_def) (simp add: watch_def MonitorTable_new_def)

lemma mo_create_cases:
  assumes "mo_create owner target st = (r, st')" and "monitor_store_ok st"
  shows "monitor_store_ok st' \<and>
    ((\<exists>m. r = Inr (Inr m) \<and> \<not> issued (mo_ids st) m \<and>
       watch (mo_table st') = (watch (mo_table st))(m \<mapsto> \<lparr>me_owner = owner, me_target = target\<rparr>)) \<or>
     (\<forall>m. r \<noteq> Inr (Inr m)) \<and> mo_table st' = mo_table st)"
proof (cases "\<exists>m. r = Inr (Inr m)")
  case True
  then obtain m ids where m: "try_next_id (mo_ids st) = (Some m, ids)" "r = Inr (Inr m)"
    "st' = st\<lparr>mo_ids := ids, mo_table := mt_insert m owner target (mo_table st)\<rparr>"
    using assms(1) by (auto simp: mo_create_def bindS_def store_lock_def split: if_splits prod.splits option.splits)
  note fresh = try_next_fresh [OF m(1) monitor_store_okD(2) [OF assms(2)]]
  have none: "watch (mo_table st) m = None"
    using monitor_store_okD(3) [OF assms(2)] fresh(1) by (cases "watch (mo_table st) m") auto
  note ins = monitors_ok_insert [OF monitor_store_okD(1) [OF assms(2)] none, of owner target]
  have "monitor_store_ok st'"
    using ins fresh(2-4) monitor_store_okD(3) [OF assms(2)] by (auto simp: monitor_store_ok_def m(3))
  with ins(2) m fresh(1) show ?thesis by auto
next
  case False
  then have "mo_table st' = mo_table st \<and> (mo_ids st' = mo_ids st \<or> try_next_id (mo_ids st) = (None, mo_ids st'))"
    using assms(1) by (auto simp: mo_create_def bindS_def store_lock_def split: if_splits prod.splits option.splits)
  then show ?thesis
    using False assms(2) try_next_none [of "mo_ids st" "mo_ids st'"] by (auto simp: monitor_store_ok_def)
qed

lemma mo_remove_owned_ok:
  assumes "mo_remove_owned owner m st = (r, st')" and "monitor_store_ok st"
  shows "monitor_store_ok st'"
  using assms monitors_ok_take [OF monitor_store_okD(1) [OF assms(2)], of m] monitor_store_okD [OF assms(2)]
  by (auto simp: mo_remove_owned_def bindS_def store_lock_def monitor_store_ok_def mt_remove_owned_def
      split: if_splits prod.splits option.splits)

lemma mo_remove_owned_by_ok:
  assumes "mo_remove_owned_by owner st = (r, st')" and "monitor_store_ok st"
  shows "monitor_store_ok st'"
  using assms remove_owned_by_spec [OF monitor_store_okD(1) [OF assms(2)], of owner] monitor_store_okD [OF assms(2)]
  by (auto simp: mo_remove_owned_by_def bindS_def store_lock_def monitor_store_ok_def split: if_splits)

lemma mo_notify_ok:
  assumes "mo_notify_target_exit target reason st = (r, st')" and "monitor_store_ok st"
  shows "monitor_store_ok st'" "r = Inr evs \<Longrightarrow> mt_notify_target_exit target reason (mo_table st) = (evs, mo_table st')"
  using assms notify_spec(1,2) [OF monitor_store_okD(1) [OF assms(2)], of target reason] monitor_store_okD [OF assms(2)]
  by (auto simp: mo_notify_target_exit_def bindS_def store_lock_def monitor_store_ok_def split: if_splits prod.splits)

inductive monitor_step :: "monitor_store \<Rightarrow> monitor_store \<Rightarrow> bool" where
  step_create: "mo_create owner target st = (r :: unit runtime_error + _, st') \<Longrightarrow> monitor_step st st'"
| step_remove: "mo_remove_owned owner m st = (r :: unit runtime_error + _, st') \<Longrightarrow> monitor_step st st'"
| step_owner_exit: "mo_remove_owned_by owner st = (r :: unit runtime_error + _, st') \<Longrightarrow> monitor_step st st'"
| step_target_exit: "mo_notify_target_exit target reason st = (r :: unit runtime_error + _, st') \<Longrightarrow> monitor_step st st'"

lemma monitor_steps_ok: "monitor_step\<^sup>*\<^sup>* (MonitorStore_new m) st \<Longrightarrow> monitor_store_ok st"
proof (induction rule: rtranclp_induct)
  case (step st st')
  from step.hyps(2) step.IH show ?case
    by cases (auto dest: mo_create_cases mo_remove_owned_ok mo_remove_owned_by_ok mo_notify_ok(1))
qed simp

section \<open>Creating a monitor\<close>

text \<open>
  The instruction, once the capability is resolved: the row is created and its identifier goes
  to the destination register. Nothing looks at the target afterwards.
\<close>

datatype monitor_fault = CannotMonitorSelf | MonitorIdExceedsInt | MonitorRefused lifecycle_error

definition bytecode_monitor :: "flow_id \<Rightarrow> flow_id \<Rightarrow> ('x, monitor_fault + i64) monitorop" where
  "bytecode_monitor owner target =
     (if target = owner then returnS (Inl CannotMonitorSelf)
      else bindS (mo_create owner target) (\<lambda>r. case r of
          Inl e \<Rightarrow> returnS (Inl (MonitorRefused e))
        | Inr m \<Rightarrow> returnS (if MAX_RELATION_ID < m then Inl MonitorIdExceedsInt else Inr m)))"

text \<open>
  The host call asks for the target's liveness again after the row exists, and reports an exit
  of its own when the target is gone; the answers of the directory at the two moments are
  arguments.
\<close>

definition host_monitor_settle ::
  "bool \<Rightarrow> flow_id \<Rightarrow> flow_id \<Rightarrow> u64 \<Rightarrow> monitor_store \<Rightarrow> down_event list \<times> monitor_store" where
  "host_monitor_settle target_live owner target m st =
     (if target_live then ([], st)
      else ([\<lparr>de_monitor = m, de_owner = owner, de_target = target, de_reason = ExitFault\<rparr>],
            snd (mo_remove_owned owner m st :: (unit runtime_error + _) \<times> _)))"

definition host_monitor ::
  "(flow_id \<Rightarrow> bool) \<Rightarrow> bool \<Rightarrow> flow_id \<Rightarrow> flow_id \<Rightarrow> monitor_store \<Rightarrow>
   (lifecycle_error + u64) \<times> down_event list \<times> monitor_store" where
  "host_monitor live target_live owner target st =
     (if owner = target then (Inl SelfRelation, [], st)
      else if \<not> live owner then (Inl (NoSuchFlow owner), [], st)
      else if \<not> live target then (Inl (NoSuchFlow target), [], st)
      else case (mo_create owner target st :: (unit runtime_error + _) \<times> _) of
        (Inl _, st') \<Rightarrow> (Inl Unavailable, [], st')
      | (Inr (Inl e), st') \<Rightarrow> (Inl e, [], st')
      | (Inr (Inr m), st') \<Rightarrow>
          (case host_monitor_settle target_live owner target m st' of (evs, st'') \<Rightarrow> (Inr m, evs, st'')))"

lemma notify_succeeds:
  assumes "\<not> mo_poisoned st"
  shows "\<exists>evs st1. mo_notify_target_exit target reason st = (Inr evs, st1) \<and> mo_poisoned st1 = mo_poisoned st \<and>
    mo_ids st1 = mo_ids st \<and> mo_max_monitors st1 = mo_max_monitors st"
  using assms by (cases "mt_notify_target_exit target reason (mo_table st)")
    (simp add: mo_notify_target_exit_def bindS_def store_lock_def)

definition can_create :: "monitor_store \<Rightarrow> bool" where
  "can_create st \<longleftrightarrow> \<not> mo_poisoned st \<and> mo_max_monitors st = 0 \<and> \<not> is_exhausted (mo_ids st) \<and>
     is_next (mo_ids st) \<le> MAX_RELATION_ID"

lemma create_succeeds:
  assumes "can_create st" and "ids_ok (mo_ids st)"
  shows "\<exists>m st1. mo_create owner target st = (Inr (Inr m), st1) \<and> m \<le> MAX_RELATION_ID \<and> \<not> mo_poisoned st1"
proof -
  have "try_next_id (mo_ids st) = (Some (is_next (mo_ids st)), (mo_ids st)\<lparr>is_next := is_next (mo_ids st) + 1\<rparr>)"
    using assms by (auto simp: try_next_id_def Let_def ids_ok_def can_create_def)
  then show ?thesis using assms(1) by (simp add: mo_create_def bindS_def store_lock_def can_create_def)
qed

lemma filter_distinct_key: "distinct (map f xs) \<Longrightarrow> x \<in> set xs \<Longrightarrow> filter (\<lambda>y. f y = f x) xs = [x]"
  by (induction xs) (auto simp: filter_empty_conv image_iff)

text \<open>The exit that comes first is not seen, and the one that comes last is reported twice.\<close>

lemma exit_before_create:
  assumes "monitor_store_ok st" and "can_create st" and "owner \<noteq> target"
  shows "\<exists>evs st1 m st2. mo_notify_target_exit target reason st = (Inr evs :: unit runtime_error + _, st1) \<and>
      bytecode_monitor owner target st1 = (Inr (Inr m) :: unit runtime_error + _, st2) \<and>
      m \<notin> de_monitor ` set evs \<and> watch (mo_table st2) m = Some \<lparr>me_owner = owner, me_target = target\<rparr>"
proof -
  obtain evs st1 where st1: "mo_notify_target_exit target reason st = (Inr evs :: unit runtime_error + _, st1)"
    "mo_poisoned st1 = mo_poisoned st" "mo_ids st1 = mo_ids st" "mo_max_monitors st1 = mo_max_monitors st"
    using notify_succeeds [of st target reason] assms(2) by (auto simp: can_create_def)
  note ok1 = mo_notify_ok [OF st1(1) assms(1)]
  have "can_create st1" using assms(2) st1(2-4) by (simp add: can_create_def)
  then obtain m st2 where st2: "mo_create owner target st1 = (Inr (Inr m) :: unit runtime_error + _, st2)" "m \<le> MAX_RELATION_ID"
    using create_succeeds [of st1 owner target] monitor_store_okD(2) [OF ok1(1)] by blast
  from mo_create_cases [OF st2(1) ok1(1)] have m: "\<not> issued (mo_ids st) m"
    "watch (mo_table st2) m = Some \<lparr>me_owner = owner, me_target = target\<rparr>" by (auto simp: st1(3))
  have "issued (mo_ids st) n" if "n \<in> de_monitor ` set evs" for n
    using that notify_spec(3) [OF monitor_store_okD(1) [OF assms(1)] ok1(2) [OF refl]] monitor_store_okD(3) [OF assms(1)] by auto
  with m(1) have "m \<notin> de_monitor ` set evs" by blast
  moreover have "bytecode_monitor owner target st1 = (Inr (Inr m) :: unit runtime_error + _, st2)"
    using st2 assms(3) by (simp add: bytecode_monitor_def bindS_def returnS_def not_less)
  ultimately show ?thesis using st1(1) m(2) by blast
qed

lemma exit_after_create:
  assumes "monitor_store_ok st" and "can_create st"
  shows "\<exists>m st1 evs st2 evs' st3. mo_create owner target st = (Inr (Inr m) :: unit runtime_error + _, st1) \<and>
      mo_notify_target_exit target reason st1 = (Inr evs :: unit runtime_error + _, st2) \<and>
      host_monitor_settle False owner target m st2 = (evs', st3) \<and>
      length (filter (\<lambda>e. de_monitor e = m) (evs @ evs')) = 2"
proof -
  obtain m st1 where st1: "mo_create owner target st = (Inr (Inr m) :: unit runtime_error + _, st1)" "\<not> mo_poisoned st1"
    using create_succeeds [OF assms(2), of owner target] monitor_store_okD(2) [OF assms(1)] by blast
  from mo_create_cases [OF st1(1) assms(1)] have ok1: "monitor_store_ok st1"
    and m: "watch (mo_table st1) m = Some \<lparr>me_owner = owner, me_target = target\<rparr>" by auto
  obtain evs st2 where st2: "mo_notify_target_exit target reason st1 = (Inr evs :: unit runtime_error + _, st2)"
    using notify_succeeds [OF st1(2), of target reason] by blast
  note spec = notify_spec [OF monitor_store_okD(1) [OF ok1] mo_notify_ok(2) [OF st2 ok1 refl]]
  let ?ev = "\<lparr>de_monitor = m, de_owner = owner, de_target = target, de_reason = reason\<rparr>"
  have "?ev \<in> set evs" unfolding spec(3) using m by force
  from filter_distinct_key [OF spec(5) this] have "filter (\<lambda>e. de_monitor e = m) evs = [?ev]" by simp
  then have "length (filter (\<lambda>e. de_monitor e = m)
      (evs @ [\<lparr>de_monitor = m, de_owner = owner, de_target = target, de_reason = ExitFault\<rparr>])) = 2" by simp
  with st1(1) st2 show ?thesis by (auto simp: host_monitor_settle_def)
qed

section \<open>Properties\<close>

text \<open>C33: the exit of a flow reaches exactly its monitors. In a store reached by any
  interleaving of its critical sections, the notification of a target returns one event for
  each monitor that watches it, addressed to its owner with the given reason, in the order of
  the monitor identifiers and without repetition, and removes exactly those monitors.\<close>

theorem down_reaches_exactly_the_owners:
  assumes "monitor_step\<^sup>*\<^sup>* (MonitorStore_new max_monitors) st"
    and "mo_notify_target_exit target reason st = (Inr evs, st')"
  shows "set evs = {\<lparr>de_monitor = m, de_owner = me_owner e, de_target = target, de_reason = reason\<rparr> | m e.
      watch (mo_table st) m = Some e \<and> me_target e = target} \<and>
    sorted (map de_monitor evs) \<and> distinct (map de_monitor evs) \<and>
    (\<forall>m e. watch (mo_table st') m = Some e \<longleftrightarrow> watch (mo_table st) m = Some e \<and> me_target e \<noteq> target)"
proof -
  note ok = monitor_steps_ok [OF assms(1)]
  note spec = notify_spec [OF monitor_store_okD(1) [OF ok] mo_notify_ok(2) [OF assms(2) ok refl]]
  have "watch (mo_table st') m = Some e \<longleftrightarrow> watch (mo_table st) m = Some e \<and> me_target e \<noteq> target" for m e
    by (auto simp: spec(2))
  with spec(3-5) show ?thesis by (intro conjI) simp_all
qed

definition two_watches :: monitor_store where
  "two_watches = \<lparr>mo_poisoned = False,
     mo_table = \<lparr>mt_monitors = [(1, \<lparr>me_owner = 5, me_target = 7\<rparr>), (2, \<lparr>me_owner = 6, me_target = 7\<rparr>)],
       mt_by_owner = [(5, [1]), (6, [2])], mt_by_target = [(7, [1, 2])]\<rparr>,
     mo_max_monitors = 0, mo_ids = \<lparr>is_next = 3, is_exhausted = False\<rparr>\<rparr>"

lemmas monitor_run_defs = bindS_def store_lock_def mo_create_def MonitorStore_new_def MonitorTable_new_def
  fresh_ids_def hm_get_def try_next_id_def MAX_RELATION_ID_def Let_def mt_insert_def hm_insert_def index_add_def ids_of_def

lemma two_watches_reached: "monitor_step\<^sup>*\<^sup>* (MonitorStore_new 0) two_watches"
proof -
  have "mo_create 5 7 (MonitorStore_new 0) = (Inr (Inr 1) :: unit runtime_error + _,
    \<lparr>mo_poisoned = False,
     mo_table = \<lparr>mt_monitors = [(1, \<lparr>me_owner = 5, me_target = 7\<rparr>)], mt_by_owner = [(5, [1])], mt_by_target = [(7, [1])]\<rparr>,
     mo_max_monitors = 0, mo_ids = \<lparr>is_next = 2, is_exhausted = False\<rparr>\<rparr>)" (is "_ = (_, ?st)")
    by (simp add: monitor_run_defs)
  moreover have "mo_create 6 7 ?st = (Inr (Inr 2) :: unit runtime_error + _, two_watches)"
    by (simp add: monitor_run_defs two_watches_def)
  ultimately show ?thesis by (meson step_create rtranclp.rtrancl_into_rtrancl rtranclp.rtrancl_refl)
qed

theorem down_reaches_exactly_the_owners_witness:
  "\<exists>evs st'. mo_notify_target_exit 7 ExitFault two_watches = (Inr evs :: unit runtime_error + _, st') \<and>
    map de_owner evs = [5, 6] \<and> sorted (map de_monitor evs) \<and> watch (mo_table st') 1 = None"
proof -
  obtain evs st' where st': "mo_notify_target_exit 7 ExitFault two_watches = (Inr evs :: unit runtime_error + _, st')"
    "map de_owner evs = [5, 6]" "watch (mo_table st') 1 = None"
    by (simp add: mo_notify_target_exit_def mt_notify_target_exit_def two_watches_def bindS_def store_lock_def hm_get_def
        hm_remove_def index_remove_def watch_def Let_def)
  from down_reaches_exactly_the_owners [OF two_watches_reached st'(1)] have "sorted (map de_monitor evs)" by (elim conjE)
  with st' show ?thesis by (intro exI conjI)
qed

text \<open>C34: creating a monitor races with the exit of its target. If the exit of the target is
  completed between the resolution of the capability and the creation of the row, the monitor
  instruction succeeds and no exit event is ever produced for the new monitor, whose row
  stays. If the exit happens between the creation and the second liveness check of the host
  call, the owner is sent two exit events for the same monitor, one by the exit and one by the
  host call, which ignores that the row is already gone.\<close>

theorem monitor_creation_races_with_exit:
  assumes "monitor_step\<^sup>*\<^sup>* (MonitorStore_new max_monitors) st" and "can_create st" and "owner \<noteq> target"
  shows "(\<exists>evs st1 m st2. mo_notify_target_exit target reason st = (Inr evs :: unit runtime_error + _, st1) \<and>
      bytecode_monitor owner target st1 = (Inr (Inr m) :: unit runtime_error + _, st2) \<and>
      m \<notin> de_monitor ` set evs \<and> watch (mo_table st2) m = Some \<lparr>me_owner = owner, me_target = target\<rparr>) \<and>
    (\<exists>m st1 evs st2 evs' st3. mo_create owner target st = (Inr (Inr m) :: unit runtime_error + _, st1) \<and>
      mo_notify_target_exit target reason st1 = (Inr evs :: unit runtime_error + _, st2) \<and>
      host_monitor_settle False owner target m st2 = (evs', st3) \<and>
      length (filter (\<lambda>e. de_monitor e = m) (evs @ evs')) = 2)"
  using exit_before_create [OF _ assms(2,3)] exit_after_create [OF _ assms(2)] monitor_steps_ok [OF assms(1)] by blast

lemma can_create_new: "can_create (MonitorStore_new 0)"
  by (simp add: can_create_def MonitorStore_new_def fresh_ids_def MAX_RELATION_ID_def)

theorem monitor_creation_races_with_exit_witness:
  "(\<exists>evs st1 m st2. mo_notify_target_exit 2 ExitKilled (MonitorStore_new 0) = (Inr evs :: unit runtime_error + _, st1) \<and>
      bytecode_monitor 1 2 st1 = (Inr (Inr m) :: unit runtime_error + _, st2) \<and>
      m \<notin> de_monitor ` set evs \<and> watch (mo_table st2) m = Some \<lparr>me_owner = 1, me_target = 2\<rparr>) \<and>
    (\<exists>m st1 evs st2 evs' st3. mo_create 1 2 (MonitorStore_new 0) = (Inr (Inr m) :: unit runtime_error + _, st1) \<and>
      mo_notify_target_exit 2 ExitKilled st1 = (Inr evs :: unit runtime_error + _, st2) \<and>
      host_monitor_settle False 1 2 m st2 = (evs', st3) \<and>
      length (filter (\<lambda>e. de_monitor e = m) (evs @ evs')) = 2)"
  by (rule monitor_creation_races_with_exit [OF rtranclp.rtrancl_refl can_create_new]) simp

end
