(* ===== verification/Bf_Directory.thy ===== *)
theory Bf_Directory
  imports Bf_Index
begin

text \<open>
  The sharded directory from flows to their mailboxes (\<^verbatim>\<open>scheduler/directory.rs\<close>): sixty-four
  maps, each behind its own lock, and the single map they stand for.
\<close>

record 'm shard =
  sd_poisoned :: bool
  sd_map :: "(flow_id, 'm) hash_map"

type_synonym 'm directory = "'m shard list"

type_synonym ('m, 'x, 'a) dirop = "('m directory, 'x runtime_error, 'a) fallible"

definition SHARDS :: nat where "SHARDS = 64"

definition Directory_new :: "'m directory" where
  "Directory_new = replicate SHARDS \<lparr>sd_poisoned = False, sd_map = []\<rparr>"

definition shard_for :: "flow_id \<Rightarrow> nat" where
  "shard_for fid = unat (fid AND 63)"

definition dir_lock :: "flow_id \<Rightarrow> string \<Rightarrow> ('m, 'x, unit) dirop" where
  "dir_lock fid site = store_lock (\<lambda>d. sd_poisoned (d ! shard_for fid)) site"

definition dir_register :: "flow_id \<Rightarrow> 'm \<Rightarrow> ('m, 'x, unit) dirop" where
  "dir_register fid m =
     bindS (dir_lock fid ''Directory::register'') (\<lambda>_ d.
       let i = shard_for fid; s = d ! i in
       if hm_contains_key (sd_map s) fid then (Inl DuplicateFlowId, d)
       else (Inr (), d[i := s\<lparr>sd_map := hm_insert fid m (sd_map s)\<rparr>]))"

definition dir_unregister :: "flow_id \<Rightarrow> ('m, 'x, unit) dirop" where
  "dir_unregister fid =
     bindS (dir_lock fid ''Directory::unregister'') (\<lambda>_ d.
       let i = shard_for fid; s = d ! i in (Inr (), d[i := s\<lparr>sd_map := hm_remove fid (sd_map s)\<rparr>]))"

definition dir_lookup :: "flow_id \<Rightarrow> ('m, 'x, 'm option) dirop" where
  "dir_lookup fid =
     bindS (dir_lock fid ''Directory::lookup'') (\<lambda>_ d. (Inr (hm_get (sd_map (d ! shard_for fid)) fid), d))"

text \<open>The entries of the shards that can be locked.\<close>

definition dir_snapshot :: "'m directory \<Rightarrow> (flow_id \<times> 'm) list" where
  "dir_snapshot d = concat (map (\<lambda>s. if sd_poisoned s then [] else sd_map s) d)"

text \<open>The count stops at the first poisoned shard.\<close>

primrec dir_len :: "'m directory \<Rightarrow> nat" where
  "dir_len [] = 0"
| "dir_len (s # d) = (if sd_poisoned s then 0 else length (sd_map s) + dir_len d)"

section \<open>The map the shards stand for\<close>

definition dir_get :: "'m directory \<Rightarrow> flow_id \<Rightarrow> 'm option" where
  "dir_get d fid = hm_get (sd_map (d ! shard_for fid)) fid"

definition dir_set :: "flow_id \<Rightarrow> 'm \<Rightarrow> 'm directory \<Rightarrow> 'm directory" where
  "dir_set fid m d = (let i = shard_for fid; s = d ! i in d[i := s\<lparr>sd_map := hm_insert fid m (sd_map s)\<rparr>])"

definition dir_del :: "flow_id \<Rightarrow> 'm directory \<Rightarrow> 'm directory" where
  "dir_del fid d = (let i = shard_for fid; s = d ! i in d[i := s\<lparr>sd_map := hm_remove fid (sd_map s)\<rparr>])"

definition dir_keep :: "(flow_id \<Rightarrow> 'm \<Rightarrow> bool) \<Rightarrow> 'm directory \<Rightarrow> 'm directory" where
  "dir_keep P d = map (\<lambda>s. s\<lparr>sd_map := hm_retain P (sd_map s)\<rparr>) d"

text \<open>Every entry is in the shard of its flow.\<close>

definition dir_ok :: "'m directory \<Rightarrow> bool" where
  "dir_ok d \<longleftrightarrow> length d = SHARDS \<and>
     (\<forall>i < SHARDS. hm_wf (sd_map (d ! i)) \<and> (\<forall>fid m. hm_get (sd_map (d ! i)) fid = Some m \<longrightarrow> shard_for fid = i))"

lemma shard_for_less: "shard_for fid < SHARDS"
proof -
  have "fid AND 63 \<le> 63" by (rule word_and_le1)
  then show ?thesis by (simp add: shard_for_def SHARDS_def word_le_nat_alt)
qed

lemma shard_in: "dir_ok d \<Longrightarrow> shard_for fid < length d"
  using shard_for_less [of fid] by (simp add: dir_ok_def)

lemma dir_get_set:
  assumes "dir_ok d"
  shows "dir_get (dir_set fid m d) fid' = (if fid' = fid then Some m else dir_get d fid')"
  using shard_in [OF assms, of fid] by (cases "shard_for fid' = shard_for fid") (auto simp: dir_get_def dir_set_def Let_def)

lemma dir_get_del:
  assumes "dir_ok d"
  shows "dir_get (dir_del fid d) fid' = (if fid' = fid then None else dir_get d fid')"
  using shard_in [OF assms, of fid] by (cases "shard_for fid' = shard_for fid") (auto simp: dir_get_def dir_del_def Let_def)

lemma dir_ok_new [simp]: "dir_ok Directory_new" "dir_get Directory_new fid = None"
  using shard_for_less [of fid] by (auto simp: dir_ok_def Directory_new_def dir_get_def)

lemma dir_ok_ops:
  assumes "dir_ok d"
  shows "dir_ok (dir_set fid m d)" "dir_ok (dir_del fid d)" "dir_ok (dir_keep P d)"
  using assms shard_for_less [of fid]
  by (auto simp: dir_ok_def dir_set_def dir_del_def dir_keep_def Let_def nth_list_update hm.keep_Some_iff split: if_splits)

text \<open>The directory is a keyed store over flows.\<close>

interpretation dir: keyed_store dir_get dir_set dir_del dir_keep dir_ok
proof
  show "dir_get (dir_keep P d) fid = (case dir_get d fid of Some m \<Rightarrow> if P fid m then Some m else None | None \<Rightarrow> None)"
    if "dir_ok d" for P fid and d :: "'a directory"
    using that shard_for_less [of fid] by (auto simp: dir_get_def dir_keep_def dir_ok_def hm.get_keep)
qed (auto simp: dir_get_set dir_get_del intro: dir_ok_ops)

definition dir_open :: "'m directory \<Rightarrow> flow_id \<Rightarrow> bool" where
  "dir_open d fid \<longleftrightarrow> \<not> sd_poisoned (d ! shard_for fid)"

lemma dir_ops:
  assumes "dir_open d fid"
  shows "dir_register fid m d = (if dir_get d fid \<noteq> None then (Inl DuplicateFlowId, d) else (Inr (), dir_set fid m d))"
    "dir_unregister fid d = (Inr (), dir_del fid d)"
    "dir_lookup fid d = (Inr (dir_get d fid), d)"
  using assms
  by (simp_all add: dir_register_def dir_unregister_def dir_lookup_def dir_lock_def store_lock_def bindS_def
      dir_open_def dir_get_def dir_set_def dir_del_def hm_contains_key_def Let_def)

lemma dir_poisoned:
  assumes "\<not> dir_open d fid"
  shows "dir_register fid m d = (Inl (PoisonedLock ''Directory::register''), d)"
    "dir_unregister fid d = (Inl (PoisonedLock ''Directory::unregister''), d)"
    "dir_lookup fid d = (Inl (PoisonedLock ''Directory::lookup''), d)"
  using assms by (simp_all add: dir_register_def dir_unregister_def dir_lookup_def dir_lock_def store_lock_def bindS_def dir_open_def)

lemma poisoned_update: "sd_poisoned (d[i := (d ! i)\<lparr>sd_map := x\<rparr>] ! j) = sd_poisoned (d ! j)"
  by (cases "i = j"; cases "i < length d") (simp_all add: list_update_beyond not_less)

lemma dir_open_set [simp]:
  "dir_open (dir_set fid m d) fid' = dir_open d fid'" "dir_open (dir_del fid d) fid' = dir_open d fid'"
  by (simp_all add: dir_open_def dir_set_def dir_del_def Let_def poisoned_update)

text \<open>A snapshot of a directory that can be locked lists every live flow once.\<close>

lemma dir_snapshot_exact:
  assumes "dir_ok d" and "\<forall>s \<in> set d. \<not> sd_poisoned s"
  shows "(fid, m) \<in> set (dir_snapshot d) \<longleftrightarrow> dir_get d fid = Some m"
proof
  assume "(fid, m) \<in> set (dir_snapshot d)"
  then obtain s where "s \<in> set d" "(fid, m) \<in> set (sd_map s)"
    by (auto simp: dir_snapshot_def split: if_splits)
  then obtain i where i: "i < length d" "(fid, m) \<in> set (sd_map (d ! i))"
    by (metis in_set_conv_nth)
  then have "hm_get (sd_map (d ! i)) fid = Some m" "shard_for fid = i"
    using assms(1) hm_in_set_iff [of "sd_map (d ! i)"] by (auto simp: dir_ok_def)
  then show "dir_get d fid = Some m" by (simp add: dir_get_def)
next
  assume "dir_get d fid = Some m"
  then have "(fid, m) \<in> set (sd_map (d ! shard_for fid))" by (simp add: dir_get_def hm_get_SomeD)
  moreover have "shard_for fid < length d" using assms(1) shard_for_less [of fid] by (simp add: dir_ok_def)
  ultimately show "(fid, m) \<in> set (dir_snapshot d)"
    using assms(2) by (auto simp: dir_snapshot_def)
qed

end
