(* ===== verification/Bf_Names.thy ===== *)
theory Bf_Names
  imports Bf_Monitors
begin

text \<open>
  The name registry (\<^verbatim>\<open>scheduler/registry.rs\<close>) and the small tables of
  \<^verbatim>\<open>scheduler/finalize.rs\<close>: exit trapping, kill signals, the senders parked in another flow's
  inbox, and the asks that wait for a reply.
\<close>

section \<open>Names\<close>

type_synonym registry_name = string

record name_entry =
  ne_cap :: cap_id
  ne_flow :: flow_id

record registry =
  rg_by_name :: "(registry_name, name_entry) hash_map"
  rg_by_flow :: "(flow_id, registry_name) adjacency"

definition Registry_new :: registry where
  "Registry_new = \<lparr>rg_by_name = [], rg_by_flow = []\<rparr>"

definition rg_register :: "registry_name \<Rightarrow> cap_id \<Rightarrow> flow_id \<Rightarrow> registry \<Rightarrow> (lifecycle_error + unit) \<times> registry" where
  "rg_register name cid fid r =
     (if name = [] then (Inl EmptyName, r)
      else if hm_contains_key (rg_by_name r) name then (Inl AlreadyRegistered, r)
      else (Inr (), r\<lparr>rg_by_flow := index_add fid name (rg_by_flow r),
                      rg_by_name := hm_insert name \<lparr>ne_cap = cid, ne_flow = fid\<rparr> (rg_by_name r)\<rparr>))"

definition rg_len :: "registry \<Rightarrow> nat" where
  "rg_len r = length (rg_by_name r)"

definition rg_whereis :: "registry \<Rightarrow> registry_name \<Rightarrow> cap_id option" where
  "rg_whereis r name = map_option ne_cap (hm_get (rg_by_name r) name)"

definition rg_target :: "registry \<Rightarrow> registry_name \<Rightarrow> flow_id option" where
  "rg_target r name = map_option ne_flow (hm_get (rg_by_name r) name)"

definition rg_unregister :: "registry_name \<Rightarrow> registry \<Rightarrow> bool \<times> registry" where
  "rg_unregister name r =
     (case hm_get (rg_by_name r) name of
        Some e \<Rightarrow> (True, r\<lparr>rg_by_name := hm_remove name (rg_by_name r),
                           rg_by_flow := index_remove (ne_flow e) name (rg_by_flow r)\<rparr>)
      | None \<Rightarrow> (False, r))"

definition rg_unregister_flow :: "flow_id \<Rightarrow> registry \<Rightarrow> registry" where
  "rg_unregister_flow fid r =
     (case hm_get (rg_by_flow r) fid of
        Some names \<Rightarrow> r\<lparr>rg_by_flow := hm_remove fid (rg_by_flow r),
                        rg_by_name := fold hm_remove names (rg_by_name r)\<rparr>
      | None \<Rightarrow> r)"

record registry_store =
  rs_poisoned :: bool
  rs_registry :: registry
  rs_max_names :: u32

type_synonym ('x, 'a) registryop = "(registry_store, 'x runtime_error, 'a) fallible"

definition RegistryStore_new :: "u32 \<Rightarrow> registry_store" where
  "RegistryStore_new max_names = \<lparr>rs_poisoned = False, rs_registry = Registry_new, rs_max_names = max_names\<rparr>"

definition rs_register :: "registry_name \<Rightarrow> cap_id \<Rightarrow> flow_id \<Rightarrow> ('x, lifecycle_error + unit) registryop" where
  "rs_register name cid fid =
     bindS (store_lock rs_poisoned ''RegistryStore::register'') (\<lambda>_ st.
       if name = [] then (Inr (Inl EmptyName), st)
       else if hm_contains_key (rg_by_name (rs_registry st)) name then (Inr (Inl AlreadyRegistered), st)
       else if rs_max_names st \<noteq> 0 \<and> rs_max_names st \<le> word_of_nat (rg_len (rs_registry st))
       then (Inr (Inl (RegistryLimitReached (rs_max_names st))), st)
       else case rg_register name cid fid (rs_registry st) of (r, g) \<Rightarrow> (Inr r, st\<lparr>rs_registry := g\<rparr>))"

definition rs_whereis :: "registry_name \<Rightarrow> ('x, cap_id option) registryop" where
  "rs_whereis name =
     bindS (store_lock rs_poisoned ''RegistryStore::whereis'') (\<lambda>_ st. (Inr (rg_whereis (rs_registry st) name), st))"

definition rs_target :: "registry_name \<Rightarrow> ('x, flow_id option) registryop" where
  "rs_target name =
     bindS (store_lock rs_poisoned ''RegistryStore::target'') (\<lambda>_ st. (Inr (rg_target (rs_registry st) name), st))"

definition rs_unregister :: "registry_name \<Rightarrow> ('x, bool) registryop" where
  "rs_unregister name =
     bindS (store_lock rs_poisoned ''RegistryStore::unregister'') (\<lambda>_ st.
       case rg_unregister name (rs_registry st) of (b, g) \<Rightarrow> (Inr b, st\<lparr>rs_registry := g\<rparr>))"

definition rs_unregister_flow :: "flow_id \<Rightarrow> ('x, unit) registryop" where
  "rs_unregister_flow fid =
     bindS (store_lock rs_poisoned ''RegistryStore::unregister_flow'') (\<lambda>_ st.
       (Inr (), st\<lparr>rs_registry := rg_unregister_flow fid (rs_registry st)\<rparr>))"

definition names_ok :: "registry \<Rightarrow> bool" where
  "names_ok r \<longleftrightarrow> hm_wf (rg_by_name r) \<and> indexes (\<lambda>e. {ne_flow e}) (hm_get (rg_by_name r)) (rg_by_flow r) \<and>
     hm_get (rg_by_name r) [] = None"

lemma names_okD:
  assumes "names_ok r"
  shows "hm_wf (rg_by_name r)" "indexes (\<lambda>e. {ne_flow e}) (hm_get (rg_by_name r)) (rg_by_flow r)"
    "hm_get (rg_by_name r) [] = None"
  using assms by (simp_all add: names_ok_def)

lemma names_ok_new [simp]: "names_ok Registry_new"
  by (simp add: names_ok_def Registry_new_def indexes_def)

lemma get_insert_map: "hm_get (hm_insert k v m) = (hm_get m)(k \<mapsto> v)"
  by auto

lemma get_remove_map: "hm_get (hm_remove k m) = (hm_get m)(k := None)"
  by auto

lemma names_ok_register:
  assumes "names_ok r" and "rg_register name cid fid r = (res, r')"
  shows "names_ok r'"
    "res = Inr () \<Longrightarrow> hm_get (rg_by_name r') = (hm_get (rg_by_name r))(name \<mapsto> \<lparr>ne_cap = cid, ne_flow = fid\<rparr>)"
    "res \<noteq> Inr () \<Longrightarrow> r' = r"
proof -
  note ok = names_okD [OF assms(1)]
  have "names_ok (r\<lparr>rg_by_flow := index_add fid name (rg_by_flow r),
      rg_by_name := hm_insert name \<lparr>ne_cap = cid, ne_flow = fid\<rparr> (rg_by_name r)\<rparr>)"
    if "hm_get (rg_by_name r) name = None" "name \<noteq> []"
    using ok that indexesD(1) [OF ok(2)]
    by (auto simp: names_ok_def get_insert_map intro!: indexes_insert [OF ok(2) that(1)])
  then show "names_ok r'" using assms by (auto simp: rg_register_def hm_contains_key_def split: if_splits)
  show "hm_get (rg_by_name r') = (hm_get (rg_by_name r))(name \<mapsto> \<lparr>ne_cap = cid, ne_flow = fid\<rparr>)" if "res = Inr ()"
    using assms(2) that by (auto simp: rg_register_def get_insert_map split: if_splits)
  show "r' = r" if "res \<noteq> Inr ()"
    using assms(2) that by (auto simp: rg_register_def split: if_splits)
qed

lemma names_ok_unregister:
  assumes "names_ok r"
  shows "names_ok (snd (rg_unregister name r))"
proof (cases "hm_get (rg_by_name r) name")
  case None
  with assms show ?thesis by (simp add: rg_unregister_def)
next
  case (Some e)
  note ok = names_okD [OF assms]
  show ?thesis
    using ok take_index [OF ok(2) Some] Some by (simp add: rg_unregister_def names_ok_def get_remove_map)
qed

lemma fold_remove: "hm_wf m \<Longrightarrow> hm_wf (fold hm_remove ks m) \<and> hm_get (fold hm_remove ks m) = (\<lambda>k. if k \<in> set ks then None else hm_get m k)"
  by (induction ks arbitrary: m) (auto simp: fun_eq_iff)

lemma unregister_flow_spec:
  assumes "names_ok r"
  shows "names_ok (rg_unregister_flow fid r)"
    "hm_get (rg_by_name (rg_unregister_flow fid r)) =
      (\<lambda>name. if \<exists>e. hm_get (rg_by_name r) name = Some e \<and> ne_flow e = fid then None else hm_get (rg_by_name r) name)"
proof -
  note ok = names_okD [OF assms]
  define ids where "ids = ids_of (rg_by_flow r) fid"
  have ids: "name \<in> set ids \<longleftrightarrow> (\<exists>e. hm_get (rg_by_name r) name = Some e \<and> ne_flow e = fid)" for name
    using indexesD(3) [OF ok(2), of name fid] by (auto simp: ids_def)
  have eq: "rg_unregister_flow fid r = r\<lparr>rg_by_flow := hm_remove fid (rg_by_flow r), rg_by_name := fold hm_remove ids (rg_by_name r)\<rparr>
    \<or> ids = [] \<and> rg_unregister_flow fid r = r"
    by (auto simp: rg_unregister_flow_def ids_def ids_of_def split: option.splits)
  note fold = fold_remove [OF ok(1), of ids]
  have idx: "indexes (\<lambda>e. {ne_flow e}) (hm_get (fold hm_remove ids (rg_by_name r))) (hm_remove fid (rg_by_flow r))"
  proof (rule indexes_delete [OF ok(2), where gone = "set ids"])
    show "ids_of (hm_remove fid (rg_by_flow r)) k = filter (\<lambda>j. j \<notin> set ids) (ids_of (rg_by_flow r) k)" for k
      using indexesD(3) [OF ok(2), of _ k] ids by (auto simp: ids_def [symmetric] intro!: filter_True [symmetric])
  qed (use fold indexesD(1) [OF ok(2)] in auto)
  show "names_ok (rg_unregister_flow fid r)"
    using eq idx ok(3) fold assms by (auto simp: names_ok_def)
  show "hm_get (rg_by_name (rg_unregister_flow fid r)) =
      (\<lambda>name. if \<exists>e. hm_get (rg_by_name r) name = Some e \<and> ne_flow e = fid then None else hm_get (rg_by_name r) name)"
    using eq
  proof (elim disjE conjE)
    assume "ids = []" and same: "rg_unregister_flow fid r = r"
    then have "\<not> (\<exists>e. hm_get (rg_by_name r) name = Some e \<and> ne_flow e = fid)" for name
      using ids [of name] by simp
    then show ?thesis unfolding same by (intro ext) (simp only: if_False)
  qed (use fold ids in \<open>simp add: fun_eq_iff\<close>)
qed

section \<open>Reachable registries\<close>

text \<open>The names a store can hold after any sequence of its operations.\<close>

inductive names_reach :: "u32 \<Rightarrow> registry_store \<Rightarrow> bool" for m where
  names_start: "names_reach m (RegistryStore_new m)"
| names_register: "names_reach m st \<Longrightarrow> names_reach m (snd ((rs_register name cid fid :: (unit, _) registryop) st))"
| names_unregister: "names_reach m st \<Longrightarrow> names_reach m (snd ((rs_unregister name :: (unit, _) registryop) st))"
| names_sweep: "names_reach m st \<Longrightarrow> names_reach m (snd ((rs_unregister_flow fid :: (unit, _) registryop) st))"

definition store_ok :: "registry_store \<Rightarrow> bool" where
  "store_ok st \<longleftrightarrow> \<not> rs_poisoned st \<and> names_ok (rs_registry st) \<and>
     (rs_max_names st \<noteq> 0 \<longrightarrow> rg_len (rs_registry st) \<le> unat (rs_max_names st))"

lemma length_insert_new: "hm_get m k = None \<Longrightarrow> length (hm_insert k v m) = Suc (length m)"
  unfolding hm_get_def hm_insert_def by (induction m) (auto split: if_splits)

lemma length_remove_le: "length (hm_remove k m) \<le> length m"
  unfolding hm_remove_def by (rule length_delete_le)

lemma length_fold_remove_le: "length (fold hm_remove ks m) \<le> length m"
  by (induction ks arbitrary: m) (auto intro: order.trans length_remove_le)

lemma register_room:
  fixes limit :: u32
  assumes "\<not> limit \<le> word_of_nat n" and "n \<le> unat limit"
  shows "Suc n \<le> unat limit"
proof (rule ccontr)
  assume "\<not> Suc n \<le> unat limit"
  with assms(2) have "n = unat limit" by simp
  with assms(1) show False by simp
qed

lemma rs_register_cases:
  assumes "\<not> rs_poisoned st" and "rs_register name cid fid st = (r, st')"
  obtains (refused) e where "r = Inr (Inl e)" "st' = st"
  | (added) g where "rg_register name cid fid (rs_registry st) = (Inr (), g)" "r = Inr (Inr ())"
      "st' = st\<lparr>rs_registry := g\<rparr>" "hm_get (rg_by_name (rs_registry st)) name = None"
      "rs_max_names st = 0 \<or> \<not> rs_max_names st \<le> word_of_nat (rg_len (rs_registry st))"
  using assms
  by (auto simp: rs_register_def bindS_def store_lock_def rg_register_def hm_contains_key_def split: if_splits)

lemma store_ok_register:
  assumes "store_ok st" and "rs_register name cid fid st = (r, st')"
  shows "store_ok st'"
proof -
  have open_: "\<not> rs_poisoned st" and ok: "names_ok (rs_registry st)"
    and room: "rs_max_names st \<noteq> 0 \<longrightarrow> rg_len (rs_registry st) \<le> unat (rs_max_names st)"
    using assms(1) by (auto simp: store_ok_def)
  from open_ assms(2) show ?thesis
  proof (cases rule: rs_register_cases)
    case refused
    with assms(1) show ?thesis by simp
  next
    case (added g)
    have "rg_len g = Suc (rg_len (rs_registry st))"
      using added(1,4) by (auto simp: rg_register_def rg_len_def length_insert_new split: if_splits)
    moreover have "Suc (rg_len (rs_registry st)) \<le> unat (rs_max_names st)" if "rs_max_names st \<noteq> 0"
      using register_room [of "rs_max_names st"] added(5) room that by blast
    ultimately show ?thesis
      using names_ok_register(1) [OF ok added(1)] open_ by (simp add: store_ok_def added(3))
  qed
qed

lemma names_reach_ok: "names_reach m st \<Longrightarrow> store_ok st \<and> rs_max_names st = m"
proof (induction rule: names_reach.induct)
  case names_start
  show ?case by (simp add: store_ok_def RegistryStore_new_def) (simp add: rg_len_def Registry_new_def)
next
  case (names_register st name cid fid)
  obtain r st' where r: "(rs_register name cid fid :: (unit, _) registryop) st = (r, st')" by fastforce
  have "\<not> rs_poisoned st" using names_register.IH by (simp add: store_ok_def)
  then have "rs_max_names st' = rs_max_names st" using r by (cases rule: rs_register_cases) auto
  with store_ok_register [OF _ r] names_register.IH r show ?case by simp
next
  case (names_unregister st name)
  have "rg_len (snd (rg_unregister name (rs_registry st))) \<le> rg_len (rs_registry st)"
    by (auto simp: rg_unregister_def rg_len_def length_remove_le split: option.splits)
  with names_unregister.IH names_ok_unregister [of "rs_registry st" name] show ?case
    by (auto simp: store_ok_def rs_unregister_def bindS_def store_lock_def split_beta)
next
  case (names_sweep st fid)
  have "rg_len (rg_unregister_flow fid (rs_registry st)) \<le> rg_len (rs_registry st)"
    by (auto simp: rg_unregister_flow_def rg_len_def length_fold_remove_le split: option.splits)
  with names_sweep.IH unregister_flow_spec(1) [of "rs_registry st" fid] show ?case
    by (auto simp: store_ok_def rs_unregister_flow_def bindS_def store_lock_def)
qed

section \<open>Trapped exits, kill signals, parked senders\<close>

record 'v flow_map =
  fm_poisoned :: bool
  fm_map :: "(flow_id, 'v) hash_map"

type_synonym ('v, 'x, 'a) flowmapop = "('v flow_map, 'x runtime_error, 'a) fallible"

definition flow_map_new :: "'v flow_map" where
  "flow_map_new = \<lparr>fm_poisoned = False, fm_map = []\<rparr>"

definition fm_insert :: "string \<Rightarrow> flow_id \<Rightarrow> 'v \<Rightarrow> ('v, 'x, unit) flowmapop" where
  "fm_insert site fid v =
     bindS (store_lock fm_poisoned site) (\<lambda>_ t. (Inr (), t\<lparr>fm_map := hm_insert fid v (fm_map t)\<rparr>))"

definition fm_take :: "string \<Rightarrow> flow_id \<Rightarrow> ('v, 'x, 'v option) flowmapop" where
  "fm_take site fid =
     bindS (store_lock fm_poisoned site) (\<lambda>_ t. (Inr (hm_get (fm_map t) fid), t\<lparr>fm_map := hm_remove fid (fm_map t)\<rparr>))"

definition fm_peek :: "string \<Rightarrow> flow_id \<Rightarrow> ('v, 'x, 'v option) flowmapop" where
  "fm_peek site fid = bindS (store_lock fm_poisoned site) (\<lambda>_ t. (Inr (hm_get (fm_map t) fid), t))"

text \<open>The set of trapping flows is a map to unit.\<close>

definition trap_set :: "flow_id \<Rightarrow> bool \<Rightarrow> (unit, 'x, unit) flowmapop" where
  "trap_set fid enabled =
     (if enabled then fm_insert ''TrapExitFlags::set'' fid ()
      else bindS (fm_take ''TrapExitFlags::set'' fid) (\<lambda>_. returnS ()))"

definition trap_is_enabled :: "flow_id \<Rightarrow> (unit, 'x, bool) flowmapop" where
  "trap_is_enabled fid = bindS (fm_peek ''TrapExitFlags::is_enabled'' fid) (\<lambda>v. returnS (v \<noteq> None))"

definition trap_clear :: "flow_id \<Rightarrow> (unit, 'x, unit) flowmapop" where
  "trap_clear fid = bindS (fm_take ''TrapExitFlags::clear'' fid) (\<lambda>_. returnS ())"

definition kill_set :: "flow_id \<Rightarrow> flow_exit_reason \<Rightarrow> (flow_exit_reason, 'x, unit) flowmapop" where
  "kill_set = fm_insert ''KillSignals::set''"

definition kill_take :: "flow_id \<Rightarrow> (flow_exit_reason, 'x, flow_exit_reason option) flowmapop" where
  "kill_take = fm_take ''KillSignals::take''"

definition waiting_insert :: "flow_id \<Rightarrow> flow_id \<Rightarrow> (flow_id, 'x, unit) flowmapop" where
  "waiting_insert = fm_insert ''WaitingSendIndex::insert''"

definition waiting_remove :: "flow_id \<Rightarrow> (flow_id, 'x, flow_id option) flowmapop" where
  "waiting_remove = fm_take ''WaitingSendIndex::remove''"

definition waiting_get :: "flow_id \<Rightarrow> (flow_id, 'x, flow_id option) flowmapop" where
  "waiting_get = fm_peek ''WaitingSendIndex::get''"

section \<open>Pending asks\<close>

datatype ask_insert_error = AskDuplicate | AskLimitReached nat nat

record ask_waits =
  aw_poisoned :: bool
  aw_by_asker :: "(flow_id, flow_id) hash_map"
  aw_by_target :: "(flow_id, flow_id) adjacency"
  aw_request_ids :: "(flow_id, u64) hash_map"
  aw_max :: nat

type_synonym ('x, 'a) askop = "(ask_waits, 'x runtime_error, 'a) fallible"

definition AskWaitIndex_new :: "u32 \<Rightarrow> ask_waits" where
  "AskWaitIndex_new max_ask_waits =
     \<lparr>aw_poisoned = False, aw_by_asker = [], aw_by_target = [], aw_request_ids = [], aw_max = unat max_ask_waits\<rparr>"

text \<open>The values of \<^verbatim>\<open>by_target\<close> are hash sets, kept as lists: an insert of a member changes nothing.\<close>

definition index_put :: "'k \<Rightarrow> 'i \<Rightarrow> ('k, 'i) adjacency \<Rightarrow> ('k, 'i) adjacency" where
  "index_put k i m = (if i \<in> set (ids_of m k) then m else index_add k i m)"

definition ask_insert :: "flow_id \<Rightarrow> flow_id \<Rightarrow> u64 \<Rightarrow> ('x, ask_insert_error + unit) askop" where
  "ask_insert asker target request_id =
     bindS (store_lock aw_poisoned ''AskWaitIndex::insert'') (\<lambda>_ g.
       if hm_contains_key (aw_request_ids g) asker then (Inr (Inl AskDuplicate), g)
       else if aw_max g \<noteq> 0 \<and> aw_max g \<le> length (aw_by_asker g)
       then (Inr (Inl (AskLimitReached (length (aw_by_asker g)) (aw_max g))), g)
       else (Inr (Inr ()), g\<lparr>aw_request_ids := hm_insert asker request_id (aw_request_ids g),
                             aw_by_asker := hm_insert asker target (aw_by_asker g),
                             aw_by_target := index_put target asker (aw_by_target g)\<rparr>))"

definition ask_remove_asker :: "flow_id \<Rightarrow> ('x, flow_id option) askop" where
  "ask_remove_asker asker =
     bindS (store_lock aw_poisoned ''AskWaitIndex::remove_asker'') (\<lambda>_ g.
       let g1 = g\<lparr>aw_request_ids := hm_remove asker (aw_request_ids g)\<rparr> in
       case hm_get (aw_by_asker g1) asker of
         None \<Rightarrow> (Inr None, g1)
       | Some target \<Rightarrow> (Inr (Some target),
           g1\<lparr>aw_by_asker := hm_remove asker (aw_by_asker g1), aw_by_target := index_remove target asker (aw_by_target g1)\<rparr>))"

definition ask_target_of :: "flow_id \<Rightarrow> ('x, flow_id option) askop" where
  "ask_target_of asker =
     bindS (store_lock aw_poisoned ''AskWaitIndex::target_of'') (\<lambda>_ g. (Inr (hm_get (aw_by_asker g) asker), g))"

definition ask_take_waiters_of :: "flow_id \<Rightarrow> ('x, flow_id list) askop" where
  "ask_take_waiters_of target =
     bindS (store_lock aw_poisoned ''AskWaitIndex::take_waiters_of'') (\<lambda>_ g.
       case hm_get (aw_by_target g) target of
         None \<Rightarrow> (Inr [], g)
       | Some askers \<Rightarrow> (Inr askers,
           g\<lparr>aw_by_target := hm_remove target (aw_by_target g),
             aw_by_asker := fold hm_remove askers (aw_by_asker g),
             aw_request_ids := fold hm_remove askers (aw_request_ids g)\<rparr>))"

text \<open>The three maps agree: an asker has a target exactly while its request is pending.\<close>

definition asks_ok :: "ask_waits \<Rightarrow> bool" where
  "asks_ok g \<longleftrightarrow> hm_wf (aw_by_asker g) \<and> hm_wf (aw_request_ids g) \<and>
     indexes (\<lambda>t. {t}) (hm_get (aw_by_asker g)) (aw_by_target g) \<and>
     (\<forall>a. hm_get (aw_request_ids g) a = None \<longleftrightarrow> hm_get (aw_by_asker g) a = None)"

lemma asks_okD:
  assumes "asks_ok g"
  shows "hm_wf (aw_by_asker g)" "hm_wf (aw_request_ids g)" "indexes (\<lambda>t. {t}) (hm_get (aw_by_asker g)) (aw_by_target g)"
    "hm_get (aw_request_ids g) a = None \<longleftrightarrow> hm_get (aw_by_asker g) a = None"
  using assms by (simp_all add: asks_ok_def)

lemma asks_ok_new [simp]: "asks_ok (AskWaitIndex_new m)"
  by (simp add: asks_ok_def AskWaitIndex_new_def indexes_def)

lemma asks_ok_insert:
  assumes "asks_ok g" and "ask_insert asker target request_id g = (r, g')"
  shows "asks_ok g'"
proof -
  note ok = asks_okD [OF assms(1)]
  have "asks_ok (g\<lparr>aw_request_ids := hm_insert asker request_id (aw_request_ids g),
      aw_by_asker := hm_insert asker target (aw_by_asker g), aw_by_target := index_put target asker (aw_by_target g)\<rparr>)"
    if "hm_get (aw_request_ids g) asker = None"
  proof -
    have none: "hm_get (aw_by_asker g) asker = None" using that ok(4) by simp
    then have "index_put target asker (aw_by_target g) = index_add target asker (aw_by_target g)"
      using indexesD(3) [OF ok(3), of asker target] by (auto simp: index_put_def)
    with none show ?thesis
      using ok indexesD(1) [OF ok(3)] by (auto simp: asks_ok_def get_insert_map intro!: indexes_insert [OF ok(3)])
  qed
  then show ?thesis
    using assms by (auto simp: ask_insert_def bindS_def store_lock_def hm_contains_key_def split: if_splits)
qed

lemma ask_remove_spec:
  assumes "asks_ok g" and "ask_remove_asker asker g = (r, g')"
  shows "asks_ok g'" "\<not> aw_poisoned g \<Longrightarrow> hm_get (aw_by_asker g') = (hm_get (aw_by_asker g))(asker := None)"
proof -
  note ok = asks_okD [OF assms(1)]
  define g1 where "g1 = g\<lparr>aw_request_ids := hm_remove asker (aw_request_ids g)\<rparr>"
  have "asks_ok g' \<and> (\<not> aw_poisoned g \<longrightarrow> hm_get (aw_by_asker g') = (hm_get (aw_by_asker g))(asker := None))"
  proof (cases "aw_poisoned g")
    case True
    with assms show ?thesis by (auto simp: ask_remove_asker_def bindS_def store_lock_def)
  next
    case False
    show ?thesis
    proof (cases "hm_get (aw_by_asker g) asker")
      case None
      with False assms(2) have "g' = g1" by (auto simp: ask_remove_asker_def bindS_def store_lock_def Let_def g1_def)
      with ok None show ?thesis by (auto simp: g1_def asks_ok_def fun_eq_iff)
    next
      case (Some target)
      with False assms(2) have "g' = g1\<lparr>aw_by_asker := hm_remove asker (aw_by_asker g), aw_by_target := index_remove target asker (aw_by_target g)\<rparr>"
        by (auto simp: ask_remove_asker_def bindS_def store_lock_def Let_def g1_def)
      with ok take_index [OF ok(3) Some] show ?thesis by (auto simp: g1_def asks_ok_def get_remove_map)
    qed
  qed
  then show "asks_ok g'" "\<not> aw_poisoned g \<Longrightarrow> hm_get (aw_by_asker g') = (hm_get (aw_by_asker g))(asker := None)"
    by blast+
qed

lemma ask_take_spec:
  assumes "asks_ok g" and "ask_take_waiters_of target g = (Inr askers, g')"
  shows "asks_ok g'" "set askers = {a. hm_get (aw_by_asker g) a = Some target}" "distinct askers"
    "hm_get (aw_by_asker g') = (\<lambda>a. if hm_get (aw_by_asker g) a = Some target then None else hm_get (aw_by_asker g) a)"
proof -
  note ok = asks_okD [OF assms(1)]
  define ids where "ids = ids_of (aw_by_target g) target"
  have ids: "a \<in> set ids \<longleftrightarrow> hm_get (aw_by_asker g) a = Some target" "distinct ids" for a
    using indexesD(2,3) [OF ok(3)] by (auto simp: ids_def)
  have eq: "askers = ids" "g' = g\<lparr>aw_by_target := hm_remove target (aw_by_target g),
             aw_by_asker := fold hm_remove ids (aw_by_asker g),
             aw_request_ids := fold hm_remove ids (aw_request_ids g)\<rparr> \<or> ids = [] \<and> g' = g"
    using assms(2) by (auto simp: ask_take_waiters_of_def bindS_def store_lock_def ids_def ids_of_def split: if_splits option.splits)
  note folds = fold_remove [OF ok(1), of ids] fold_remove [OF ok(2), of ids]
  have idx: "indexes (\<lambda>t. {t}) (hm_get (fold hm_remove ids (aw_by_asker g))) (hm_remove target (aw_by_target g))"
  proof (rule indexes_delete [OF ok(3), where gone = "set ids"])
    show "ids_of (hm_remove target (aw_by_target g)) k = filter (\<lambda>j. j \<notin> set ids) (ids_of (aw_by_target g) k)" for k
      using indexesD(3) [OF ok(3), of _ k] ids(1) by (auto simp: ids_def [symmetric] intro!: filter_True [symmetric])
  qed (use folds indexesD(1) [OF ok(3)] in auto)
  show "asks_ok g'" using eq(2) assms(1) idx folds ok(4) by (auto simp: asks_ok_def)
  show "set askers = {a. hm_get (aw_by_asker g) a = Some target}" "distinct askers" using eq(1) ids by auto
  show "hm_get (aw_by_asker g') = (\<lambda>a. if hm_get (aw_by_asker g) a = Some target then None else hm_get (aw_by_asker g) a)"
    using eq(2) folds ids by (auto simp: fun_eq_iff)
qed

section \<open>Properties\<close>

text \<open>C38: the exit of a flow takes away exactly its names. In every store reachable by
  registering and unregistering names and by exits, the sweep of a flow succeeds, after it no
  name leads to that flow, every name of another flow still leads to the same capability and
  flow, and where a limit is configured the number of names never exceeds it.\<close>

theorem exit_sweeps_exactly_its_names:
  assumes "names_reach m st"
  shows "\<exists>st'. (rs_unregister_flow fid :: (unit, _) registryop) st = (Inr (), st') \<and> names_reach m st' \<and>
    (\<forall>name. rg_target (rs_registry st') name = (if rg_target (rs_registry st) name = Some fid then None else rg_target (rs_registry st) name) \<and>
            rg_whereis (rs_registry st') name = (if rg_target (rs_registry st) name = Some fid then None else rg_whereis (rs_registry st) name)) \<and>
    (m \<noteq> 0 \<longrightarrow> rg_len (rs_registry st) \<le> unat m)"
proof -
  have ok: "\<not> rs_poisoned st" "names_ok (rs_registry st)" "m \<noteq> 0 \<longrightarrow> rg_len (rs_registry st) \<le> unat m"
    using names_reach_ok [OF assms] by (auto simp: store_ok_def)
  define st' where "st' = st\<lparr>rs_registry := rg_unregister_flow fid (rs_registry st)\<rparr>"
  have run: "(rs_unregister_flow fid :: (unit, _) registryop) st = (Inr (), st')"
    using ok(1) by (simp add: rs_unregister_flow_def bindS_def store_lock_def st'_def)
  moreover have "names_reach m st'" using names_sweep [OF assms, of fid] run by simp
  moreover have "rg_target (rs_registry st') name = (if rg_target (rs_registry st) name = Some fid then None else rg_target (rs_registry st) name)"
    "rg_whereis (rs_registry st') name = (if rg_target (rs_registry st) name = Some fid then None else rg_whereis (rs_registry st) name)" for name
    by (auto simp: st'_def rg_target_def rg_whereis_def unregister_flow_spec(2) [OF ok(2)])
  ultimately show ?thesis using ok(3) by blast
qed

theorem exit_sweeps_exactly_its_names_witness:
  "\<exists>st st'. names_reach 1 st \<and> rg_target (rs_registry st) ''svc'' = Some 7 \<and>
     (rs_unregister_flow 7 :: (unit, _) registryop) st = (Inr (), st') \<and> rg_whereis (rs_registry st') ''svc'' = None"
proof -
  define st where "st = snd ((rs_register ''svc'' 42 7 :: (unit, _) registryop) (RegistryStore_new 1))"
  have reach: "names_reach 1 st" unfolding st_def by (intro names_register names_start)
  have "rg_target (rs_registry st) ''svc'' = Some 7"
    by (simp add: st_def rs_register_def RegistryStore_new_def Registry_new_def rg_register_def rg_target_def
        bindS_def store_lock_def hm_contains_key_def rg_len_def)
  with exit_sweeps_exactly_its_names [OF reach, of 7] reach show ?thesis by auto
qed

end
