(* ===== verification/Bf_Awaits.thy ===== *)
theory Bf_Awaits
  imports Bf_Names Bf_Directory
begin

text \<open>
  Tickets of operations that run on the host, and the table of their failures
  (\<^verbatim>\<open>scheduler/host_await.rs\<close>). The cancellation flag that a ticket shares with its
  completer is kept by ticket number: a ticket is in \<^verbatim>\<open>ha_cancelled\<close> once its flag is set.
\<close>

section \<open>Tickets\<close>

record await_entry =
  ae_flow :: flow_id
  ae_op :: u32

datatype host_await_park_error = AwaitLimitReached nat nat | AwaitIdExhausted

datatype cancelled_await = CancelledAwait (ca_flow: flow_id) (ca_op: u32) (ca_ticket: u64)

record host_awaits =
  ha_poisoned :: bool
  ha_by_ticket :: "(u64, await_entry) hash_map"
  ha_by_flow :: "(flow_id, u64) adjacency"
  ha_next_ticket :: u64
  ha_cancelled :: "u64 list"
  ha_max :: nat

type_synonym ('x, 'a) awaitop = "(host_awaits, 'x runtime_error, 'a) fallible"

definition HostAwaitIndex_new :: "u32 \<Rightarrow> host_awaits" where
  "HostAwaitIndex_new max_host_awaits =
     \<lparr>ha_poisoned = False, ha_by_ticket = [], ha_by_flow = [], ha_next_ticket = 1, ha_cancelled = [],
      ha_max = unat max_host_awaits\<rparr>"

definition MAX_TICKET :: u64 where "MAX_TICKET = 0x7FFFFFFFFFFFFFFF"

definition await_register :: "flow_id \<Rightarrow> u32 \<Rightarrow> ('x, host_await_park_error + u64) awaitop" where
  "await_register fid opn =
     bindS (store_lock ha_poisoned ''HostAwaitIndex::register'') (\<lambda>_ h.
       if ha_max h \<noteq> 0 \<and> ha_max h \<le> length (ha_by_ticket h)
       then (Inr (Inl (AwaitLimitReached (length (ha_by_ticket h)) (ha_max h))), h)
       else if ha_next_ticket h = 0 \<or> MAX_TICKET \<le> ha_next_ticket h then (Inr (Inl AwaitIdExhausted), h)
       else let t = ha_next_ticket h in
         (Inr (Inr t), h\<lparr>ha_next_ticket := t + 1,
            ha_by_flow := index_add fid t (ha_by_flow h),
            ha_by_ticket := hm_insert t \<lparr>ae_flow = fid, ae_op = opn\<rparr> (ha_by_ticket h)\<rparr>))"

definition take_ticket :: "u64 \<Rightarrow> ('x, flow_id option) awaitop" where
  "take_ticket t =
     bindS (store_lock ha_poisoned ''HostAwaitIndex::take_ticket'') (\<lambda>_ h.
       case hm_get (ha_by_ticket h) t of
         None \<Rightarrow> (Inr None, h)
       | Some e \<Rightarrow>
           (Inr (if t \<in> set (ha_cancelled h) then None else Some (ae_flow e)),
            h\<lparr>ha_by_ticket := hm_remove t (ha_by_ticket h), ha_by_flow := index_remove (ae_flow e) t (ha_by_flow h)\<rparr>))"

primrec take_flow_ids ::
  "flow_id \<Rightarrow> u64 list \<Rightarrow> (u64, await_entry) hash_map \<Rightarrow> u64 list \<Rightarrow>
   cancelled_await list \<times> (u64, await_entry) hash_map \<times> u64 list" where
  "take_flow_ids fid [] rows flags = ([], rows, flags)"
| "take_flow_ids fid (t # ts) rows flags =
     (case hm_get rows t of
        None \<Rightarrow> take_flow_ids fid ts rows flags
      | Some e \<Rightarrow>
          (case take_flow_ids fid ts (hm_remove t rows) (t # flags) of
             (notices, rest) \<Rightarrow> (CancelledAwait fid (ae_op e) t # notices, rest)))"

definition cancel_flow :: "flow_id \<Rightarrow> ('x, cancelled_await list) awaitop" where
  "cancel_flow fid =
     bindS (store_lock ha_poisoned ''HostAwaitIndex::cancel_flow'') (\<lambda>_ h.
       case hm_get (ha_by_flow h) fid of
         None \<Rightarrow> (Inr [], h)
       | Some ids \<Rightarrow>
           (case take_flow_ids fid ids (ha_by_ticket h) (ha_cancelled h) of (notices, rows, flags) \<Rightarrow>
              (Inr notices, h\<lparr>ha_by_flow := hm_remove fid (ha_by_flow h), ha_by_ticket := rows, ha_cancelled := flags\<rparr>)))"

definition cancel_all :: "('x, cancelled_await list) awaitop" where
  "cancel_all =
     bindS (store_lock ha_poisoned ''HostAwaitIndex::cancel_all'') (\<lambda>_ h.
       (Inr (map (\<lambda>(t, e). CancelledAwait (ae_flow e) (ae_op e) t) (ha_by_ticket h)),
        h\<lparr>ha_by_flow := [], ha_by_ticket := [], ha_cancelled := map fst (ha_by_ticket h) @ ha_cancelled h\<rparr>))"

definition awaits_ok :: "host_awaits \<Rightarrow> bool" where
  "awaits_ok h \<longleftrightarrow> \<not> ha_poisoned h \<and> hm_wf (ha_by_ticket h) \<and>
     indexes (\<lambda>e. {ae_flow e}) (hm_get (ha_by_ticket h)) (ha_by_flow h) \<and>
     0 < ha_next_ticket h \<and> ha_next_ticket h \<le> MAX_TICKET \<and>
     (\<forall>t. hm_get (ha_by_ticket h) t \<noteq> None \<longrightarrow> t < ha_next_ticket h \<and> t \<notin> set (ha_cancelled h)) \<and>
     (\<forall>t \<in> set (ha_cancelled h). t < ha_next_ticket h)"

lemma awaits_okD:
  assumes "awaits_ok h"
  shows "\<not> ha_poisoned h" "hm_wf (ha_by_ticket h)" "indexes (\<lambda>e. {ae_flow e}) (hm_get (ha_by_ticket h)) (ha_by_flow h)"
    "0 < ha_next_ticket h" "ha_next_ticket h \<le> MAX_TICKET"
    "hm_get (ha_by_ticket h) t = Some e \<Longrightarrow> t < ha_next_ticket h \<and> t \<notin> set (ha_cancelled h)"
    "t \<in> set (ha_cancelled h) \<Longrightarrow> t < ha_next_ticket h"
  using assms unfolding awaits_ok_def by (simp_all only: option.distinct not_False_eq_True)

lemma awaits_ok_new: "awaits_ok (HostAwaitIndex_new m)"
  by (simp add: awaits_ok_def HostAwaitIndex_new_def indexes_def MAX_TICKET_def word_le_nat_alt)

text \<open>The tickets that are still waiting, with their flows.\<close>

definition pending :: "host_awaits \<Rightarrow> (u64 \<times> flow_id) set" where
  "pending h = {(t, ae_flow e) | t e. hm_get (ha_by_ticket h) t = Some e}"

lemma pending_iff: "(t, f) \<in> pending h \<longleftrightarrow> (\<exists>e. hm_get (ha_by_ticket h) t = Some e \<and> ae_flow e = f)"
  by (auto simp: pending_def)

lemma register_spec:
  assumes "awaits_ok h" and "await_register fid opn h = (r, h')"
  shows "awaits_ok h' \<and> (\<exists>x. r = Inr x \<and>
    (case x of Inl _ \<Rightarrow> h' = h
     | Inr t \<Rightarrow> t = ha_next_ticket h \<and> ha_next_ticket h' = t + 1 \<and> t < t + 1 \<and> ha_cancelled h' = ha_cancelled h \<and>
         pending h' = insert (t, fid) (pending h)))"
proof -
  note ok = awaits_okD [OF assms(1)]
  note eq = assms(2) [unfolded await_register_def bindS_def store_lock_def, simplified ok(1) if_False sum.case prod.case]
  consider (refused) e where "r = Inr (Inl e)" "h' = h"
    | (new) "ha_next_ticket h < MAX_TICKET" "r = Inr (Inr (ha_next_ticket h))"
      "h' = h\<lparr>ha_next_ticket := ha_next_ticket h + 1, ha_by_flow := index_add fid (ha_next_ticket h) (ha_by_flow h),
         ha_by_ticket := hm_insert (ha_next_ticket h) \<lparr>ae_flow = fid, ae_op = opn\<rparr> (ha_by_ticket h)\<rparr>"
  proof (cases "ha_max h \<noteq> 0 \<and> ha_max h \<le> length (ha_by_ticket h)")
    case True
    with eq have "r = Inr (Inl (AwaitLimitReached (length (ha_by_ticket h)) (ha_max h)))" "h' = h"
      unfolding if_P [OF True] by auto
    then show thesis by (rule that(1))
  next
    case False
    show thesis
    proof (cases "ha_next_ticket h = 0 \<or> MAX_TICKET \<le> ha_next_ticket h")
      case True
      with eq have "r = Inr (Inl AwaitIdExhausted)" "h' = h"
        unfolding if_not_P [OF False] if_P [OF True] by simp_all
      then show thesis by (rule that(1))
    next
      case room: False
      from eq have "r = Inr (Inr (ha_next_ticket h))"
        "h' = h\<lparr>ha_next_ticket := ha_next_ticket h + 1, ha_by_flow := index_add fid (ha_next_ticket h) (ha_by_flow h),
         ha_by_ticket := hm_insert (ha_next_ticket h) \<lparr>ae_flow = fid, ae_op = opn\<rparr> (ha_by_ticket h)\<rparr>"
        unfolding if_not_P [OF False] if_not_P [OF room] Let_def by simp_all
      moreover have "ha_next_ticket h < MAX_TICKET" using room by (simp add: not_le)
      ultimately show thesis by (rule that(2) [rotated])
    qed
  qed
  then show ?thesis
  proof cases
    case refused
    with assms(1) show ?thesis by auto
  next
    case new
    have none: "hm_get (ha_by_ticket h) (ha_next_ticket h) = None"
      using ok(6) [of "ha_next_ticket h"] by (cases "hm_get (ha_by_ticket h) (ha_next_ticket h)") auto
    have bump: "ha_next_ticket h < ha_next_ticket h + 1" "ha_next_ticket h + 1 \<le> MAX_TICKET"
      using new(1) by (auto simp: MAX_TICKET_def word_less_nat_alt word_le_nat_alt unat_word_ariths)
    have "indexes (\<lambda>e. {ae_flow e}) ((hm_get (ha_by_ticket h))(ha_next_ticket h \<mapsto> \<lparr>ae_flow = fid, ae_op = opn\<rparr>))
        (index_add fid (ha_next_ticket h) (ha_by_flow h))"
      by (rule indexes_insert [OF ok(3) none]) (use indexesD(1) [OF ok(3)] in auto)
    moreover have "0 < ha_next_ticket h + 1" using bump(1) ok(4) by (rule order.strict_trans [rotated])
    moreover have "ha_next_ticket h \<notin> set (ha_cancelled h)" using ok(7) by blast
    moreover have "t < ha_next_ticket h + 1" if "t < ha_next_ticket h" for t using that bump(1) by (rule order.strict_trans)
    ultimately have "awaits_ok h'"
      unfolding new(3) awaits_ok_def using ok(1,2) bump ok(6,7) by (simp add: get_insert_map) blast
    moreover have "pending h' = insert (ha_next_ticket h, fid) (pending h)"
      using new(3) none by (auto simp: pending_def)
    ultimately show ?thesis using new bump by simp
  qed
qed

lemma take_ticket_spec:
  assumes "awaits_ok h" and "take_ticket t h = (r, h')"
  shows "awaits_ok h' \<and> ha_next_ticket h' = ha_next_ticket h \<and> ha_cancelled h' = ha_cancelled h \<and>
    (\<exists>x. r = Inr x \<and> (case x of None \<Rightarrow> h' = h \<and> (\<forall>f. (t, f) \<notin> pending h)
      | Some f \<Rightarrow> (t, f) \<in> pending h \<and> pending h' = pending h - {(t, f)}))"
proof (cases "hm_get (ha_by_ticket h) t")
  case None
  with assms awaits_okD(1) [OF assms(1)] show ?thesis
    by (auto simp: take_ticket_def bindS_def store_lock_def pending_def)
next
  case (Some e)
  note ok = awaits_okD [OF assms(1)]
  have "t \<notin> set (ha_cancelled h)" using ok(6) [OF Some] by simp
  with Some assms(2) ok(1) have h': "r = Inr (Some (ae_flow e))"
    "h' = h\<lparr>ha_by_ticket := hm_remove t (ha_by_ticket h), ha_by_flow := index_remove (ae_flow e) t (ha_by_flow h)\<rparr>"
    by (auto simp: take_ticket_def bindS_def store_lock_def)
  have "awaits_ok h'"
    using ok take_index [OF ok(3) Some] by (auto simp: h'(2) awaits_ok_def get_remove_map split: if_splits)
  moreover have "pending h' = pending h - {(t, ae_flow e)}"
    using Some by (auto simp: pending_iff h'(2) split: if_splits)
  ultimately show ?thesis using Some h' by (simp add: pending_iff)
qed

lemma take_flow_ids_spec:
  assumes "distinct ts" and "hm_wf rows" and "\<forall>t \<in> set ts. hm_get rows t \<noteq> None"
    and "take_flow_ids fid ts rows flags = (notices, rows', flags')"
  shows "map ca_ticket notices = ts \<and> (\<forall>n \<in> set notices. ca_flow n = fid) \<and> hm_wf rows' \<and> set flags' = set ts \<union> set flags \<and>
    hm_get rows' = (\<lambda>t. if t \<in> set ts then None else hm_get rows t)"
  using assms
proof (induction ts arbitrary: rows flags notices)
  case (Cons t ts)
  from Cons.prems(3) obtain e where e: "hm_get rows t = Some e" by auto
  then obtain notices1 where n: "take_flow_ids fid ts (hm_remove t rows) (t # flags) = (notices1, rows', flags')"
    "notices = CancelledAwait fid (ae_op e) t # notices1"
    using Cons.prems(4) by (auto split: prod.splits)
  have prems: "distinct ts" "hm_wf (hm_remove t rows)" "\<forall>t' \<in> set ts. hm_get (hm_remove t rows) t' \<noteq> None"
    using Cons.prems(1-3) by auto
  from Cons.IH [OF prems n(1)] n(2) Cons.prems(1) show ?case by (auto simp: fun_eq_iff)
qed simp

lemma cancel_flow_spec:
  assumes "awaits_ok h" and "cancel_flow fid h = (r, h')"
  shows "awaits_ok h' \<and> ha_next_ticket h' = ha_next_ticket h \<and> (\<exists>ns. r = Inr ns \<and> distinct (map ca_ticket ns) \<and>
    (\<lambda>n. (ca_ticket n, ca_flow n)) ` set ns = {(t, f) \<in> pending h. f = fid} \<and>
    pending h' = {(t, f) \<in> pending h. f \<noteq> fid} \<and> set (ha_cancelled h') = ca_ticket ` set ns \<union> set (ha_cancelled h))"
proof -
  note ok = awaits_okD [OF assms(1)]
  define ids where "ids = ids_of (ha_by_flow h) fid"
  have ids: "t \<in> set ids \<longleftrightarrow> (\<exists>e. hm_get (ha_by_ticket h) t = Some e \<and> ae_flow e = fid)" "distinct ids" for t
    using indexesD(2,3) [OF ok(3)] by (auto simp: ids_def)
  show ?thesis
  proof (cases "hm_get (ha_by_flow h) fid")
    case None
    then have "ids = []" by (simp add: ids_def ids_of_def)
    then have "(t, fid) \<notin> pending h" for t using ids(1) [of t] by (auto simp: pending_iff)
    then have split: "{(t, f) \<in> pending h. f = fid} = {}" "{(t, f) \<in> pending h. f \<noteq> fid} = pending h" by blast+
    from None assms(2) ok(1) have "r = Inr []" "h' = h" by (simp_all add: cancel_flow_def bindS_def store_lock_def)
    then show ?thesis using assms(1) by (simp add: split)
  next
    case (Some ids0)
    then have [simp]: "ids0 = ids" by (simp add: ids_def ids_of_def)
    obtain ns rows flags where t: "take_flow_ids fid ids (ha_by_ticket h) (ha_cancelled h) = (ns, rows, flags)"
      by (metis prod_cases3)
    have present: "\<forall>t \<in> set ids. hm_get (ha_by_ticket h) t \<noteq> None" by (auto simp: ids(1))
    note spec = take_flow_ids_spec [OF ids(2) ok(2) present t]
    have h': "r = Inr ns" "h' = h\<lparr>ha_by_flow := hm_remove fid (ha_by_flow h), ha_by_ticket := rows, ha_cancelled := flags\<rparr>"
      using Some assms(2) ok(1) t by (auto simp: cancel_flow_def bindS_def store_lock_def)
    have "indexes (\<lambda>e. {ae_flow e}) (hm_get rows) (hm_remove fid (ha_by_flow h))"
    proof (rule indexes_delete [OF ok(3), where gone = "set ids"])
      show "ids_of (hm_remove fid (ha_by_flow h)) k = filter (\<lambda>j. j \<notin> set ids) (ids_of (ha_by_flow h) k)" for k
        using indexesD(3) [OF ok(3), of _ k] ids(1) by (auto simp: ids_def [symmetric] intro!: filter_True [symmetric])
    qed (use spec indexesD(1) [OF ok(3)] in auto)
    then have "awaits_ok h'"
      using ok spec ids(1) by (auto simp: h'(2) awaits_ok_def split: if_splits)
    moreover have tk: "ca_ticket ` set ns = set ids" using spec by (metis set_map)
    moreover have "(\<lambda>n. (ca_ticket n, ca_flow n)) ` set ns = (\<lambda>t. (t, fid)) ` set ids"
      unfolding tk [symmetric] image_image using spec by (auto intro!: image_cong)
    moreover have "(\<lambda>t. (t, fid)) ` set ids = {(t, f) \<in> pending h. f = fid}" using ids(1) by (auto simp: pending_iff)
    moreover have "pending h' = {(t, f) \<in> pending h. f \<noteq> fid}"
      using spec ids(1) by (auto simp: pending_iff h'(2) split: if_splits)
    moreover have "distinct (map ca_ticket ns)" using spec ids(2) by simp
    moreover have "set (ha_cancelled h') = ca_ticket ` set ns \<union> set (ha_cancelled h)" using spec tk by (simp add: h'(2))
    ultimately show ?thesis unfolding h'(1) by (simp add: h'(2))
  qed
qed

lemma cancel_all_spec:
  assumes "awaits_ok h" and "cancel_all h = (r, h')"
  shows "awaits_ok h' \<and> ha_next_ticket h' = ha_next_ticket h \<and> (\<exists>ns. r = Inr ns \<and> distinct (map ca_ticket ns) \<and>
    (\<lambda>n. (ca_ticket n, ca_flow n)) ` set ns = pending h \<and> pending h' = {} \<and>
    set (ha_cancelled h') = ca_ticket ` set ns \<union> set (ha_cancelled h))"
proof -
  note ok = awaits_okD [OF assms(1)]
  define notice where "notice = (\<lambda>(t, e :: await_entry). CancelledAwait (ae_flow e) (ae_op e) t)"
  have get: "hm_get (ha_by_ticket h) t = Some e \<longleftrightarrow> (t, e) \<in> set (ha_by_ticket h)" for t e
    using ok(2) by (simp add: hm_get_def hm_wf_def)
  have h': "r = Inr (map notice (ha_by_ticket h))"
    "h' = h\<lparr>ha_by_flow := [], ha_by_ticket := [], ha_cancelled := map fst (ha_by_ticket h) @ ha_cancelled h\<rparr>"
    using assms(2) ok(1) by (auto simp: cancel_all_def bindS_def store_lock_def notice_def)
  have tickets: "map ca_ticket (map notice (ha_by_ticket h)) = map fst (ha_by_ticket h)"
    by (simp add: notice_def split_beta comp_def)
  have below: "t < ha_next_ticket h" if "t \<in> fst ` set (ha_by_ticket h)" for t
    using that ok(6) by (auto simp: get [symmetric])
  have "awaits_ok h'"
    using ok(1,4,5,7) below by (auto simp: h'(2) awaits_ok_def indexes_def)
  moreover have "distinct (map ca_ticket (map notice (ha_by_ticket h)))"
    unfolding tickets using ok(2) by (simp add: hm_wf_def)
  moreover have "(\<lambda>n. (ca_ticket n, ca_flow n)) ` set (map notice (ha_by_ticket h)) = pending h"
    by (auto simp: pending_iff get notice_def image_iff split_beta) (metis fst_conv snd_conv)
  moreover have "pending h' = {}" by (simp add: pending_def h'(2))
  moreover have "set (ha_cancelled h') = ca_ticket ` set (map notice (ha_by_ticket h)) \<union> set (ha_cancelled h)"
    using arg_cong [OF tickets, of set] by (simp add: h'(2) del: map_map)
  ultimately show ?thesis unfolding h'(1) by (simp add: h'(2) del: map_map set_map)
qed

section \<open>Every ticket is settled at most once\<close>

text \<open>Any order of the four operations, with what each run has issued, completed and cancelled.\<close>

datatype await_op = DoRegister flow_id u32 | DoTake u64 | DoCancelFlow flow_id | DoCancelAll

record await_log =
  al_issued :: "(u64 \<times> flow_id) list"
  al_completed :: "(u64 \<times> flow_id) list"
  al_cancelled :: "(u64 \<times> flow_id) list"

definition note_cancelled :: "cancelled_await list \<Rightarrow> await_log \<Rightarrow> await_log" where
  "note_cancelled ns l = l\<lparr>al_cancelled := al_cancelled l @ map (\<lambda>n. (ca_ticket n, ca_flow n)) ns\<rparr>"

fun await_do :: "await_op \<Rightarrow> host_awaits \<times> await_log \<Rightarrow> host_awaits \<times> await_log" where
  "await_do (DoRegister fid opn) (h, l) =
     (case (await_register fid opn :: (unit, _) awaitop) h of
        (Inr (Inr t), h') \<Rightarrow> (h', l\<lparr>al_issued := al_issued l @ [(t, fid)]\<rparr>)
      | (_, h') \<Rightarrow> (h', l))"
| "await_do (DoTake t) (h, l) =
     (case (take_ticket t :: (unit, _) awaitop) h of
        (Inr (Some fid), h') \<Rightarrow> (h', l\<lparr>al_completed := al_completed l @ [(t, fid)]\<rparr>)
      | (_, h') \<Rightarrow> (h', l))"
| "await_do (DoCancelFlow fid) (h, l) =
     (case (cancel_flow fid :: (unit, _) awaitop) h of
        (Inr ns, h') \<Rightarrow> (h', note_cancelled ns l)
      | (_, h') \<Rightarrow> (h', l))"
| "await_do DoCancelAll (h, l) =
     (case (cancel_all :: (unit, _) awaitop) h of
        (Inr ns, h') \<Rightarrow> (h', note_cancelled ns l)
      | (_, h') \<Rightarrow> (h', l))"

definition await_run :: "await_op list \<Rightarrow> u32 \<Rightarrow> host_awaits \<times> await_log" where
  "await_run ops m = fold await_do ops (HostAwaitIndex_new m, \<lparr>al_issued = [], al_completed = [], al_cancelled = []\<rparr>)"

text \<open>The settled tickets, in either way.\<close>

definition settled :: "await_log \<Rightarrow> (u64 \<times> flow_id) list" where
  "settled l = al_completed l @ al_cancelled l"

definition log_ok :: "host_awaits \<times> await_log \<Rightarrow> bool" where
  "log_ok = (\<lambda>(h, l). awaits_ok h \<and> distinct (map fst (al_issued l)) \<and> distinct (map fst (settled l)) \<and>
     set (al_issued l) = pending h \<union> set (settled l) \<and> fst ` pending h \<inter> fst ` set (settled l) = {} \<and>
     (\<forall>x \<in> set (al_issued l). fst x < ha_next_ticket h) \<and>
     set (ha_cancelled h) = fst ` set (al_cancelled l))"

lemma log_okI:
  assumes "awaits_ok h" "distinct (map fst (al_issued l))" "distinct (map fst (settled l))"
    "set (al_issued l) = pending h \<union> set (settled l)" "fst ` pending h \<inter> fst ` set (settled l) = {}"
    "\<And>x. x \<in> set (al_issued l) \<Longrightarrow> fst x < ha_next_ticket h" "set (ha_cancelled h) = fst ` set (al_cancelled l)"
  shows "log_ok (h, l)"
  using assms by (simp add: log_ok_def)

lemma pending_unique: "(t, f) \<in> pending h \<Longrightarrow> (t, f') \<in> pending h \<Longrightarrow> f = f'"
  by (auto simp: pending_iff)

lemma log_ok_cancel:
  assumes "log_ok (h, l)" and "awaits_ok h'" and "ha_next_ticket h' = ha_next_ticket h"
    and "distinct (map ca_ticket ns)" and gone: "(\<lambda>n. (ca_ticket n, ca_flow n)) ` set ns = gone" and "gone \<subseteq> pending h"
    and "pending h' = pending h - gone" and "set (ha_cancelled h') = ca_ticket ` set ns \<union> set (ha_cancelled h)"
  shows "log_ok (h', note_cancelled ns l)"
proof -
  have ok: "distinct (map fst (al_issued l))" "distinct (map fst (settled l))"
    "set (al_issued l) = pending h \<union> set (settled l)" "fst ` pending h \<inter> fst ` set (settled l) = {}"
    "\<And>x. x \<in> set (al_issued l) \<Longrightarrow> fst x < ha_next_ticket h" "set (ha_cancelled h) = fst ` set (al_cancelled l)"
    using assms(1) by (auto simp: log_ok_def)
  have set': "set (settled (note_cancelled ns l)) = set (settled l) \<union> gone"
    using gone by (auto simp: settled_def note_cancelled_def)
  have tickets: "ca_ticket ` set ns = fst ` gone" unfolding gone [symmetric] image_image by simp
  have new: "map fst (settled (note_cancelled ns l)) = map fst (settled l) @ map ca_ticket ns"
    by (simp add: settled_def note_cancelled_def comp_def)
  have apart: "fst ` gone \<inter> fst ` set (settled l) = {}" using ok(4) assms(6) by blast
  have "fst x \<noteq> fst y" if x: "x \<in> pending h" "x \<notin> gone" and y: "y \<in> gone" for x y
  proof
    assume same: "fst x = fst y"
    have "(fst y, snd y) \<in> pending h" using y assms(6) by auto
    moreover have "(fst y, snd x) \<in> pending h" using x(1) by (simp add: same [symmetric])
    ultimately have "snd y = snd x" by (rule pending_unique)
    then have "x = y" using same by (simp add: prod_eq_iff)
    then show False using x(2) y by simp
  qed
  then have rest: "fst ` (pending h - gone) \<inter> fst ` gone = {}" by blast
  show ?thesis
  proof (rule log_okI [OF assms(2)])
    show "distinct (map fst (al_issued (note_cancelled ns l)))" using ok(1) by (simp add: note_cancelled_def)
    show "distinct (map fst (settled (note_cancelled ns l)))"
      unfolding new using ok(2) assms(4) apart tickets by (simp add: Int_commute)
    show "set (al_issued (note_cancelled ns l)) = pending h' \<union> set (settled (note_cancelled ns l))"
      unfolding set' assms(7) using ok(3) assms(6) by (simp add: note_cancelled_def) blast
    have "fst ` (pending h - gone) \<inter> fst ` set (settled l) = {}" using ok(4) by blast
    then show "fst ` pending h' \<inter> fst ` set (settled (note_cancelled ns l)) = {}"
      unfolding set' assms(7) image_Un Int_Un_distrib using rest by simp
    show "fst x < ha_next_ticket h'" if "x \<in> set (al_issued (note_cancelled ns l))" for x
      using ok(5) [of x] that assms(3) by (simp add: note_cancelled_def)
    have "set (al_cancelled (note_cancelled ns l)) = set (al_cancelled l) \<union> gone"
      using gone by (simp add: note_cancelled_def)
    then show "set (ha_cancelled h') = fst ` set (al_cancelled (note_cancelled ns l))"
      unfolding assms(8) tickets ok(6) by (simp add: image_Un Un_commute)
  qed
qed

lemma log_ok_do:
  assumes "log_ok (h, l)"
  shows "log_ok (await_do op (h, l))"
proof -
  have ok: "awaits_ok h" "distinct (map fst (al_issued l))" "distinct (map fst (settled l))"
    "set (al_issued l) = pending h \<union> set (settled l)" "fst ` pending h \<inter> fst ` set (settled l) = {}"
    "\<And>x. x \<in> set (al_issued l) \<Longrightarrow> fst x < ha_next_ticket h" "set (ha_cancelled h) = fst ` set (al_cancelled l)"
    using assms by (auto simp: log_ok_def)
  show ?thesis
  proof (cases op)
    case (DoRegister fid opn)
    obtain r h' where r: "(await_register fid opn :: (unit, _) awaitop) h = (r, h')" by fastforce
    from register_spec [OF ok(1) r] obtain x where x: "awaits_ok h'" "r = Inr x"
      "case x of Inl _ \<Rightarrow> h' = h
       | Inr t \<Rightarrow> t = ha_next_ticket h \<and> ha_next_ticket h' = t + 1 \<and> t < t + 1 \<and> ha_cancelled h' = ha_cancelled h \<and>
           pending h' = insert (t, fid) (pending h)" by blast
    show ?thesis
    proof (cases x)
      case (Inl e)
      with x r assms DoRegister show ?thesis by simp
    next
      case (Inr t)
      with x(3) have t: "t = ha_next_ticket h" "ha_next_ticket h' = t + 1" "t < t + 1" "ha_cancelled h' = ha_cancelled h"
        "pending h' = insert (t, fid) (pending h)" by auto
      have fresh: "t \<notin> fst ` set (al_issued l)" using ok(6) t(1) by force
      then have "t \<notin> fst ` set (settled l)" using ok(4) by auto
      moreover have "fst x < t + 1" if "x \<in> set (al_issued l)" for x
        using ok(6) [OF that] t(3) unfolding t(1) by (rule order.strict_trans)
      ultimately have "log_ok (h', l\<lparr>al_issued := al_issued l @ [(t, fid)]\<rparr>)"
        using ok(2-5,7) x(1) t(2-5) fresh by (intro log_okI) (auto simp: settled_def)
      then show ?thesis using r x(2) Inr DoRegister by simp
    qed
  next
    case (DoTake t)
    obtain r h' where r: "(take_ticket t :: (unit, _) awaitop) h = (r, h')" by fastforce
    from take_ticket_spec [OF ok(1) r] obtain x where x: "awaits_ok h'" "ha_next_ticket h' = ha_next_ticket h"
      "ha_cancelled h' = ha_cancelled h" "r = Inr x"
      "case x of None \<Rightarrow> h' = h \<and> (\<forall>f. (t, f) \<notin> pending h)
       | Some f \<Rightarrow> (t, f) \<in> pending h \<and> pending h' = pending h - {(t, f)}" by blast
    show ?thesis
    proof (cases x)
      case None
      with x r assms DoTake show ?thesis by simp
    next
      case (Some f)
      with x(5) have f: "(t, f) \<in> pending h" "pending h' = pending h - {(t, f)}" by auto
      then have "t \<notin> fst ` set (settled l)" using ok(5) by force
      moreover have "t \<notin> fst ` pending h'"
      proof
        assume "t \<in> fst ` pending h'"
        then obtain f' where "(t, f') \<in> pending h" "(t, f') \<noteq> (t, f)" unfolding f(2) by force
        with pending_unique [OF f(1), of f'] show False by simp
      qed
      ultimately have "log_ok (h', l\<lparr>al_completed := al_completed l @ [(t, f)]\<rparr>)"
        using ok x(1-3) f by (intro log_okI) (auto simp: settled_def)
      then show ?thesis using r x(4) Some DoTake by simp
    qed
  next
    case (DoCancelFlow fid)
    obtain r h' where r: "(cancel_flow fid :: (unit, _) awaitop) h = (r, h')" by fastforce
    from cancel_flow_spec [OF ok(1) r] obtain ns where ns: "awaits_ok h'" "ha_next_ticket h' = ha_next_ticket h" "r = Inr ns"
      "distinct (map ca_ticket ns)" "(\<lambda>n. (ca_ticket n, ca_flow n)) ` set ns = {(t, f) \<in> pending h. f = fid}"
      "pending h' = {(t, f) \<in> pending h. f \<noteq> fid}" "set (ha_cancelled h') = ca_ticket ` set ns \<union> set (ha_cancelled h)"
      by (elim conjE exE)
    have "log_ok (h', note_cancelled ns l)"
      by (rule log_ok_cancel [OF assms ns(1,2,4,5) _ _ ns(7)]) (auto simp: ns(6))
    then show ?thesis using r ns(3) DoCancelFlow by simp
  next
    case DoCancelAll
    obtain r h' where r: "(cancel_all :: (unit, _) awaitop) h = (r, h')" by fastforce
    from cancel_all_spec [OF ok(1) r] obtain ns where ns: "awaits_ok h'" "ha_next_ticket h' = ha_next_ticket h" "r = Inr ns"
      "distinct (map ca_ticket ns)" "(\<lambda>n. (ca_ticket n, ca_flow n)) ` set ns = pending h"
      "pending h' = {}" "set (ha_cancelled h') = ca_ticket ` set ns \<union> set (ha_cancelled h)" by blast
    have "log_ok (h', note_cancelled ns l)"
      by (rule log_ok_cancel [OF assms ns(1,2,4,5) _ _ ns(7)]) (auto simp: ns(6))
    then show ?thesis using r ns(3) DoCancelAll by simp
  qed
qed

lemma log_ok_run: "log_ok (await_run ops m)"
proof -
  have step: "log_ok (await_do op st)" if "log_ok st" for op st
    using log_ok_do [of "fst st" "snd st" op] that by simp
  have "log_ok (fold await_do ops st)" if "log_ok st" for st
    using that by (induction ops arbitrary: st) (simp_all add: step)
  moreover have "log_ok (HostAwaitIndex_new m, \<lparr>al_issued = [], al_completed = [], al_cancelled = []\<rparr>)"
    by (rule log_okI [OF awaits_ok_new]) (auto simp: settled_def pending_def HostAwaitIndex_new_def)
  ultimately show ?thesis by (simp add: await_run_def)
qed

section \<open>Failures reported by the host\<close>

record fail_slot =
  fs_message :: "string option"
  fs_settled :: bool

definition slot_default :: fail_slot where
  "slot_default = \<lparr>fs_message = None, fs_settled = False\<rparr>"

definition slot_or_default :: "fail_slot flow_map \<Rightarrow> flow_id \<Rightarrow> fail_slot" where
  "slot_or_default t fid = (case hm_get (fm_map t) fid of Some s \<Rightarrow> s | None \<Rightarrow> slot_default)"

definition put_fail_slot :: "flow_id \<Rightarrow> fail_slot \<Rightarrow> fail_slot flow_map \<Rightarrow> fail_slot flow_map" where
  "put_fail_slot fid s t = t\<lparr>fm_map := hm_insert fid s (fm_map t)\<rparr>"

definition failure_request :: "flow_id \<Rightarrow> string \<Rightarrow> (fail_slot, 'x, bool) flowmapop" where
  "failure_request fid msg =
     bindS (store_lock fm_poisoned ''HostAwaitFailures::request'') (\<lambda>_ t.
       let s = slot_or_default t fid in
       if fs_settled s then (Inr False, put_fail_slot fid s t)
       else (Inr True, put_fail_slot fid (if fs_message s = None then s\<lparr>fs_message := Some msg\<rparr> else s) t))"

definition failure_take :: "flow_id \<Rightarrow> (fail_slot, 'x, string option) flowmapop" where
  "failure_take fid =
     bindS (store_lock fm_poisoned ''HostAwaitFailures::take'') (\<lambda>_ t.
       case hm_get (fm_map t) fid of
         None \<Rightarrow> (Inr None, t)
       | Some s \<Rightarrow>
           (Inr (fs_message s),
            if fs_message s = None \<and> \<not> fs_settled s then t\<lparr>fm_map := hm_remove fid (fm_map t)\<rparr>
            else put_fail_slot fid (s\<lparr>fs_message := None\<rparr>) t))"

definition commit_success :: "flow_id \<Rightarrow> (fail_slot, 'x, string option) flowmapop" where
  "commit_success fid =
     bindS (store_lock fm_poisoned ''HostAwaitFailures::commit_success'') (\<lambda>_ t.
       let s = slot_or_default t fid in
       (Inr (fs_message s), put_fail_slot fid (s\<lparr>fs_settled := True, fs_message := None\<rparr>) t))"

definition failure_seal :: "flow_id \<Rightarrow> (fail_slot, 'x, unit) flowmapop" where
  "failure_seal fid =
     bindS (store_lock fm_poisoned ''HostAwaitFailures::seal'') (\<lambda>_ t.
       (Inr (), put_fail_slot fid ((slot_or_default t fid)\<lparr>fs_settled := True, fs_message := None\<rparr>) t))"

definition failure_clear :: "flow_id \<Rightarrow> (fail_slot, 'x, unit) flowmapop" where
  "failure_clear fid =
     bindS (store_lock fm_poisoned ''HostAwaitFailures::clear'') (\<lambda>_ t. (Inr (), t\<lparr>fm_map := hm_remove fid (fm_map t)\<rparr>))"

section \<open>A failure against the end of its flow\<close>

text \<open>
  The host looks the flow up and then files its failure; the worker commits a success, and
  the finalizer seals the slot, takes the flow out of the directory and clears the slot. Each
  is one critical section, so any interleaving of the two sequences can happen.
\<close>

record 'm fail_race =
  fr_slots :: "fail_slot flow_map"
  fr_directory :: "'m directory"
  fr_found :: bool
  fr_accepted :: "bool option"
  fr_outcome :: "string option option"

datatype fail_step = HostLookup | HostRequest string | WorkerCommit | FinalizeSeal | FinalizeUnregister | FinalizeClear

fun race_step :: "flow_id \<Rightarrow> fail_step \<Rightarrow> 'm fail_race \<Rightarrow> 'm fail_race" where
  "race_step fid HostLookup r =
     r\<lparr>fr_found := (case fst ((dir_lookup fid :: ('m, unit, _) dirop) (fr_directory r)) of Inr (Some _) \<Rightarrow> True | _ \<Rightarrow> False)\<rparr>"
| "race_step fid (HostRequest msg) r =
     (if \<not> fr_found r then r\<lparr>fr_accepted := Some False\<rparr>
      else case (failure_request fid msg :: (_, unit, _) flowmapop) (fr_slots r) of
        (Inr ok, t) \<Rightarrow> r\<lparr>fr_slots := t, fr_accepted := Some ok\<rparr>
      | (Inl _, t) \<Rightarrow> r\<lparr>fr_slots := t, fr_accepted := Some False\<rparr>)"
| "race_step fid WorkerCommit r =
     (case (commit_success fid :: (_, unit, _) flowmapop) (fr_slots r) of
        (Inr m, t) \<Rightarrow> r\<lparr>fr_slots := t, fr_outcome := Some m\<rparr>
      | (Inl _, t) \<Rightarrow> r\<lparr>fr_slots := t\<rparr>)"
| "race_step fid FinalizeSeal r = r\<lparr>fr_slots := snd ((failure_seal fid :: (_, unit, _) flowmapop) (fr_slots r))\<rparr>"
| "race_step fid FinalizeUnregister r =
     r\<lparr>fr_directory := snd ((dir_unregister fid :: ('m, unit, _) dirop) (fr_directory r))\<rparr>"
| "race_step fid FinalizeClear r = r\<lparr>fr_slots := snd ((failure_clear fid :: (_, unit, _) flowmapop) (fr_slots r))\<rparr>"

definition host_steps :: "string \<Rightarrow> fail_step list" where
  "host_steps msg = [HostLookup, HostRequest msg]"

definition ending_steps :: "fail_step list" where
  "ending_steps = [WorkerCommit, FinalizeSeal, FinalizeUnregister, FinalizeClear]"

definition fail_start :: "flow_id \<Rightarrow> 'm \<Rightarrow> 'm fail_race" where
  "fail_start fid m =
     \<lparr>fr_slots = flow_map_new, fr_directory = dir_set fid m Directory_new, fr_found = False,
      fr_accepted = None, fr_outcome = None\<rparr>"

text \<open>What is left in the failure table, the answer to the host and the outcome of the flow.\<close>

definition race_result :: "flow_id \<Rightarrow> 'm fail_race \<Rightarrow> bool option \<times> string option option \<times> fail_slot option" where
  "race_result fid r = (fr_accepted r, fr_outcome r, hm_get (fm_map (fr_slots r)) fid)"

lemma race_lookup:
  fixes m :: 'm
  shows "dir_lookup fid (dir_set fid m Directory_new) = (Inr (Some m), dir_set fid m Directory_new)"
    "dir_unregister fid (dir_set fid m Directory_new) = (Inr (), dir_del fid (dir_set fid m Directory_new))"
    "dir_lookup fid (dir_del fid (dir_set fid m Directory_new)) = (Inr None, dir_del fid (dir_set fid m Directory_new))"
proof -
  have "dir_open (Directory_new :: 'm directory) fid"
    using shard_for_less [of fid] by (simp add: dir_open_def Directory_new_def)
  then have "dir_open (dir_set fid m Directory_new) fid" "dir_open (dir_del fid (dir_set fid m Directory_new)) fid"
    by (simp_all add: dir_open_set)
  then show "dir_lookup fid (dir_set fid m Directory_new) = (Inr (Some m), dir_set fid m Directory_new)"
    "dir_unregister fid (dir_set fid m Directory_new) = (Inr (), dir_del fid (dir_set fid m Directory_new))"
    "dir_lookup fid (dir_del fid (dir_set fid m Directory_new)) = (Inr None, dir_del fid (dir_set fid m Directory_new))"
    by (simp_all add: dir_ops dir_get_set dir_get_del dir_ok_ops)
qed

lemmas failure_simps = failure_request_def failure_seal_def failure_clear_def commit_success_def bindS_def store_lock_def
  slot_or_default_def put_fail_slot_def slot_default_def flow_map_new_def Let_def

section \<open>Properties\<close>

text \<open>C37: an operation that runs on the host is settled at most once. In every order of
  registering operations, completing tickets, cancelling the tickets of a flow and cancelling
  all, no ticket number is issued twice, no ticket is both completed and cancelled or settled
  twice in either way, every issued ticket is still waiting or settled for the flow it was
  issued to, and the cancellation flag is set on exactly the cancelled tickets.\<close>

theorem tickets_settle_at_most_once:
  "\<exists>h l. await_run ops m = (h, l) \<and> distinct (map fst (al_issued l)) \<and>
     distinct (map fst (al_completed l @ al_cancelled l)) \<and>
     set (al_issued l) = pending h \<union> (set (al_completed l) \<union> set (al_cancelled l)) \<and>
     fst ` pending h \<inter> fst ` (set (al_completed l) \<union> set (al_cancelled l)) = {} \<and>
     set (ha_cancelled h) = fst ` set (al_cancelled l)"
  using log_ok_run [of ops m] by (cases "await_run ops m") (simp add: log_ok_def settled_def)

text \<open>C40: a failure that the host reports while its flow returns. Over all interleavings of
  the two there are exactly three results: the failure replaces the success; the failure is
  refused and the flow succeeds; or, when the lookup precedes and the request follows the end
  of the flow, the host is told that the flow was failed although it succeeded, and the
  message stays in the failure table of a flow that no longer exists.\<close>

theorem late_failure_reported_as_delivered:
  "(\<lambda>steps. race_result fid (fold (race_step fid) steps (fail_start fid m))) ` shuffles (host_steps msg) ending_steps =
     {(Some True, Some (Some msg), None), (Some False, Some None, None),
      (Some True, Some None, Some \<lparr>fs_message = Some msg, fs_settled = False\<rparr>)}"
  by (simp add: host_steps_def ending_steps_def fail_start_def race_result_def race_lookup failure_simps) blast

end
