(* ===== verification/Bf_Timer.thy ===== *)
theory Bf_Timer
  imports Bf_Process "HOL-Library.Multiset"
begin

text \<open>
  The timer wheel (\<^verbatim>\<open>scheduler/timer.rs\<close>): entries bucketed by level and slot, each slot with
  its earliest deadline, the collection of the entries that are due, and the deadline of a
  delay. Instants are nanoseconds; the greatest representable instant is a parameter. The
  wheel is shown to implement a multiset of deadlines.
\<close>

section \<open>The wheel\<close>

type_synonym instant = nat

datatype timer_payload = WakeSleeper flow | WakeReceiver flow_id flow_id u8 u64

record timer_entry =
  te_deadline :: instant
  te_payload :: timer_payload

record wheel_slot =
  sl_entries :: "timer_entry list"
  sl_earliest :: "instant option"

record wheel =
  wh_levels :: "wheel_slot list list"
  wh_cursor :: nat
  wh_origin :: instant

datatype wheel_panic = SlotPanic nat nat

definition SLOTS :: nat where "SLOTS = 256"
definition SLOT_SHIFT :: nat where "SLOT_SHIFT = 8"
definition LEVELS :: nat where "LEVELS = 6"
definition TICK_NS :: nat where "TICK_NS = 1000000"
definition u64_max :: nat where "u64_max = 2 ^ 64 - 1"

definition empty_slot :: wheel_slot where
  "empty_slot = \<lparr>sl_entries = [], sl_earliest = None\<rparr>"

definition Wheel_new :: "instant \<Rightarrow> wheel" where
  "Wheel_new now = \<lparr>wh_levels = replicate LEVELS (replicate SLOTS empty_slot), wh_cursor = 0, wh_origin = now\<rparr>"

definition tick_of :: "wheel \<Rightarrow> instant \<Rightarrow> nat" where
  "tick_of w t = min u64_max ((t - wh_origin w) div TICK_NS)"

definition observe :: "instant \<Rightarrow> wheel \<Rightarrow> wheel" where
  "observe now w = w\<lparr>wh_cursor := tick_of w now\<rparr>"

function place_level :: "nat \<Rightarrow> nat \<Rightarrow> nat \<Rightarrow> nat" where
  "place_level delta level horizon =
     (if level + 1 < LEVELS \<and> horizon \<le> delta
      then place_level delta (level + 1) (min u64_max (horizon * SLOTS))
      else level)"
  by pat_completeness auto
termination
  by (relation "measure (\<lambda>(delta, level, horizon). LEVELS - level)") auto

declare place_level.simps [simp del]

text \<open>A position of the grid: its level and its slot.\<close>

datatype cell = Cell (lev: nat) (pos: nat)

definition place :: "nat \<Rightarrow> nat \<Rightarrow> cell" where
  "place cursor t =
     (let t' = max t cursor; level = place_level (t' - cursor) 0 SLOTS; shift = level * SLOT_SHIFT
      in Cell level ((t' div 2 ^ shift) mod SLOTS))"

definition in_grid :: "wheel \<Rightarrow> cell \<Rightarrow> bool" where
  "in_grid w c \<longleftrightarrow> lev c < length (wh_levels w) \<and> pos c < length (wh_levels w ! lev c)"

definition slot_at :: "wheel \<Rightarrow> cell \<Rightarrow> wheel_slot" where
  "slot_at w c = wh_levels w ! lev c ! pos c"

definition set_slot :: "cell \<Rightarrow> wheel_slot \<Rightarrow> wheel \<Rightarrow> wheel" where
  "set_slot c x w = w\<lparr>wh_levels := (wh_levels w)[lev c := (wh_levels w ! lev c)[pos c := x]]\<rparr>"

definition wheel_insert :: "timer_entry \<Rightarrow> wheel \<Rightarrow> wheel_panic + wheel" where
  "wheel_insert entry w =
     (let t = max (tick_of w (te_deadline entry)) (wh_cursor w); c = place (wh_cursor w) t in
      if \<not> in_grid w c then Inl (SlotPanic (lev c) (pos c))
      else let bucket = slot_at w c;
               earliest = (case sl_earliest bucket of
                   Some prev \<Rightarrow> if prev \<le> te_deadline entry then prev else te_deadline entry
                 | None \<Rightarrow> te_deadline entry)
           in Inr (set_slot c \<lparr>sl_entries = sl_entries bucket @ [entry], sl_earliest = Some earliest\<rparr> w))"

text \<open>One slot of the scan: its entries are fired or bucketed again.\<close>

definition slot_ready :: "instant \<Rightarrow> wheel_slot \<Rightarrow> bool" where
  "slot_ready now x = (case sl_earliest x of Some earliest \<Rightarrow> earliest \<le> now | None \<Rightarrow> False)"

definition settle_entry :: "instant \<Rightarrow> timer_entry \<Rightarrow> wheel \<times> timer_entry list \<Rightarrow> wheel_panic + wheel \<times> timer_entry list" where
  "settle_entry now entry = (\<lambda>(w, due).
     if te_deadline entry \<le> now then Inr (w, due @ [entry])
     else bindE (wheel_insert entry w) (\<lambda>w'. Inr (w', due)))"

definition open_slot ::
  "instant \<Rightarrow> cell \<Rightarrow> (wheel \<times> timer_entry list) \<times> bool \<Rightarrow> wheel_panic + (wheel \<times> timer_entry list) \<times> bool" where
  "open_slot now c = (\<lambda>((w, due), opened).
     if \<not> in_grid w c then Inl (SlotPanic (lev c) (pos c))
     else if \<not> slot_ready now (slot_at w c) then Inr ((w, due), opened)
     else bindE (foldE (settle_entry now) (sl_entries (slot_at w c)) (set_slot c empty_slot w, due))
            (\<lambda>st. Inr (st, True)))"

definition cells :: "cell list" where
  "cells = map (\<lambda>(l, i). Cell l i) (List.product [0..<LEVELS] [0..<SLOTS])"

definition scan :: "instant \<Rightarrow> wheel \<times> timer_entry list \<Rightarrow> wheel_panic + (wheel \<times> timer_entry list) \<times> bool" where
  "scan now st = foldE (open_slot now) cells (st, False)"

section \<open>The scan repeats only while it finds ready slots\<close>

definition ready_cells :: "instant \<Rightarrow> wheel \<Rightarrow> cell set" where
  "ready_cells now w = {c. in_grid w c \<and> slot_ready now (slot_at w c)}"

lemma in_grid_set [simp]: "in_grid (set_slot c x w) c' = in_grid w c'"
  by (cases "lev c < length (wh_levels w)") (auto simp: in_grid_def set_slot_def nth_list_update)

lemma slot_at_set: "in_grid w c \<Longrightarrow> slot_at (set_slot c x w) c' = (if c' = c then x else slot_at w c')"
  by (cases c; cases c') (auto simp: in_grid_def slot_at_def set_slot_def nth_list_update)

lemma finite_grid: "finite {c. in_grid w c}"
proof (rule finite_subset)
  show "{c. in_grid w c} \<subseteq>
      (\<lambda>(l, i). Cell l i) ` Sigma {..<length (wh_levels w)} (\<lambda>l. {..<length (wh_levels w ! l)})"
    by (auto simp: in_grid_def intro!: image_eqI [where x = "(lev x, pos x)" for x :: cell])
qed auto

lemma finite_ready: "finite (ready_cells now w)"
  by (rule finite_subset [OF _ finite_grid [of w]]) (auto simp: ready_cells_def)

lemma insert_ready:
  "wheel_insert entry w = Inr w' \<Longrightarrow> now < te_deadline entry \<Longrightarrow> ready_cells now w' = ready_cells now w"
  by (auto simp: wheel_insert_def Let_def ready_cells_def slot_at_set slot_ready_def split: if_splits option.splits)

lemma settle_ready:
  "foldE (settle_entry now) es (w, due) = Inr (w', due') \<Longrightarrow> ready_cells now w' = ready_cells now w"
proof (induction es arbitrary: w due)
  case (Cons entry es)
  then show ?case
    by (auto simp: settle_entry_def result_simps not_le split: if_splits dest!: insert_ready)
qed simp

lemma open_ready:
  assumes "open_slot now c ((w, due), opened) = Inr ((w', due'), opened')"
  shows "ready_cells now w' \<subseteq> ready_cells now w" "opened' \<Longrightarrow> \<not> opened \<Longrightarrow> ready_cells now w' \<subset> ready_cells now w"
proof -
  have "\<not> slot_ready now empty_slot" by (simp add: slot_ready_def empty_slot_def)
  then have cleared: "ready_cells now (set_slot c empty_slot w) = ready_cells now w - {c}" if "in_grid w c"
    using that by (auto simp: ready_cells_def slot_at_set)
  show "ready_cells now w' \<subseteq> ready_cells now w" "opened' \<Longrightarrow> \<not> opened \<Longrightarrow> ready_cells now w' \<subset> ready_cells now w"
    using assms cleared
    by (auto simp: open_slot_def result_simps ready_cells_def split: if_splits dest!: settle_ready)
qed

lemma scan_fold_ready:
  "foldE (open_slot now) cs ((w, due), opened) = Inr ((w', due'), opened') \<Longrightarrow>
     ready_cells now w' \<subseteq> ready_cells now w \<and> (opened' \<longrightarrow> opened \<or> ready_cells now w' \<subset> ready_cells now w)"
proof (induction cs arbitrary: w due opened)
  case (Cons c cs)
  then obtain w1 due1 opened1 where w1: "open_slot now c ((w, due), opened) = Inr ((w1, due1), opened1)"
    "foldE (open_slot now) cs ((w1, due1), opened1) = Inr ((w', due'), opened')"
    by (auto simp: result_simps)
  from open_ready [OF w1(1)] Cons.IH [OF w1(2)] show ?case by blast
qed simp

function collect_loop :: "instant \<Rightarrow> wheel \<times> timer_entry list \<Rightarrow> wheel_panic + wheel \<times> timer_entry list" where
  "collect_loop now st =
     (case scan now st of
        Inl e \<Rightarrow> Inl e
      | Inr (st', opened) \<Rightarrow> if opened then collect_loop now st' else Inr st')"
  by pat_completeness auto
termination
proof (relation "measure (\<lambda>(now, st). card (ready_cells now (fst st)))")
  fix now st p st' opened
  assume "scan now st = Inr p" and "(st', opened) = p" and "opened"
  then have "ready_cells now (fst st') \<subset> ready_cells now (fst st)"
    using scan_fold_ready [of now cells "fst st" "snd st" False "fst st'" "snd st'" True]
    by (auto simp: scan_def)
  then show "((now, st'), now, st) \<in> measure (\<lambda>(now, st). card (ready_cells now (fst st)))"
    by (simp add: psubset_card_mono [OF finite_ready])
qed simp

declare collect_loop.simps [simp del]

definition collect_due :: "instant \<Rightarrow> wheel \<Rightarrow> wheel_panic + timer_entry list \<times> wheel" where
  "collect_due now w =
     bindE (collect_loop now (observe now w, [])) (\<lambda>(w', due). Inr (sort_key te_deadline due, w'))"

definition next_deadline :: "wheel \<Rightarrow> instant option" where
  "next_deadline w = fold (\<lambda>x best. case sl_earliest x of
        Some earliest \<Rightarrow> Some (case best of Some prev \<Rightarrow> if prev \<le> earliest then prev else earliest | None \<Rightarrow> earliest)
      | None \<Rightarrow> best) (concat (wh_levels w)) None"

definition sleeper :: "timer_entry \<Rightarrow> flow list" where
  "sleeper e = (case te_payload e of WakeSleeper fl \<Rightarrow> [fl] | WakeReceiver _ _ _ _ \<Rightarrow> [])"

definition drain_sleepers :: "wheel \<Rightarrow> flow list \<times> wheel" where
  "drain_sleepers w =
     (concat (map sleeper (concat (map sl_entries (concat (wh_levels w))))),
      w\<lparr>wh_levels := map (map (\<lambda>_. empty_slot)) (wh_levels w)\<rparr>)"

section \<open>Deadlines\<close>

text \<open>\<^verbatim>\<open>Instant::checked_add\<close>: the sum where it can be represented.\<close>

definition checked_add_instant :: "instant \<Rightarrow> instant \<Rightarrow> nat \<Rightarrow> instant option" where
  "checked_add_instant latest now d = (if now + d \<le> latest then Some (now + d) else None)"

function farthest_loop :: "instant \<Rightarrow> instant \<Rightarrow> nat \<Rightarrow> nat \<Rightarrow> nat \<Rightarrow> nat" where
  "farthest_loop latest now lo hi best =
     (if lo \<le> hi then
        let mid = lo + (hi - lo) div 2 in
        if checked_add_instant latest now mid \<noteq> None then
          if mid = u64_max then mid else farthest_loop latest now (mid + 1) hi mid
        else if mid = 0 then best
        else farthest_loop latest now lo (mid - 1) best
      else best)"
  by pat_completeness auto
termination
  by (relation "measure (\<lambda>(latest, now, lo, hi, best). Suc hi - lo)") auto

declare farthest_loop.simps [simp del]

definition farthest_deadline :: "instant \<Rightarrow> instant \<Rightarrow> instant" where
  "farthest_deadline latest now =
     (case checked_add_instant latest now (farthest_loop latest now 0 u64_max 0) of Some d \<Rightarrow> d | None \<Rightarrow> now)"

definition deadline_from_now :: "instant \<Rightarrow> instant \<Rightarrow> nat \<Rightarrow> instant" where
  "deadline_from_now latest now delay =
     (case checked_add_instant latest now delay of Some d \<Rightarrow> d | None \<Rightarrow> farthest_deadline latest now)"

lemma farthest_loop_eq:
  assumes "now \<le> latest" and "hi \<le> u64_max" and "best = lo - 1" and "lo \<le> Suc (min u64_max (latest - now))"
    and "min u64_max (latest - now) \<le> hi"
  shows "farthest_loop latest now lo hi best = min u64_max (latest - now)"
  using assms
proof (induction latest now lo hi best rule: farthest_loop.induct)
  case (1 latest now lo hi best)
  define mid where "mid = lo + (hi - lo) div 2"
  show ?case
  proof (cases "lo \<le> hi")
    case True
    then have mid: "lo \<le> mid" "mid \<le> hi" by (simp_all add: mid_def)
    show ?thesis
    proof (cases "now + mid \<le> latest")
      case fits: True
      show ?thesis
      proof (cases "mid = u64_max")
        case True
        with \<open>lo \<le> hi\<close> fits show ?thesis
          by (subst farthest_loop.simps) (simp add: Let_def mid_def [symmetric] checked_add_instant_def)
      next
        case False
        have "farthest_loop latest now (mid + 1) hi mid = min u64_max (latest - now)"
          using "1.prems" True fits False mid by (intro "1.IH"(1) [OF True mid_def]) (auto simp: checked_add_instant_def)
        with True fits False show ?thesis
          by (subst farthest_loop.simps) (simp add: Let_def mid_def [symmetric] checked_add_instant_def)
      qed
    next
      case over: False
      then have "mid \<noteq> 0" using "1.prems"(1) by auto
      have "farthest_loop latest now lo (mid - 1) best = min u64_max (latest - now)"
        using "1.prems" True over mid \<open>mid \<noteq> 0\<close> by (intro "1.IH"(2) [OF True mid_def]) (auto simp: checked_add_instant_def)
      with True over \<open>mid \<noteq> 0\<close> show ?thesis
        by (subst farthest_loop.simps) (simp add: Let_def mid_def [symmetric] checked_add_instant_def)
    qed
  next
    case False
    with "1.prems" show ?thesis by (subst farthest_loop.simps) auto
  qed
qed

text \<open>A delay that cannot be added is the longest one that can.\<close>

lemma deadline_from_now_eq:
  assumes "now \<le> latest"
  shows "deadline_from_now latest now delay = (if now + delay \<le> latest then now + delay else min latest (now + u64_max))"
proof -
  have "farthest_loop latest now 0 u64_max 0 = min u64_max (latest - now)"
    by (rule farthest_loop_eq [OF assms]) simp_all
  then show ?thesis
    using assms by (auto simp: deadline_from_now_def farthest_deadline_def checked_add_instant_def min_def)
qed

section \<open>The wheel as a multiset\<close>

definition content :: "wheel \<Rightarrow> timer_entry multiset" where
  "content w = mset (concat (map sl_entries (concat (wh_levels w))))"

lemma mset_concat_nth: "mset (concat (map f xs)) = (\<Sum>i<length xs. mset (f (xs ! i)))"
  by (simp add: mset_concat sum_list_sum_nth atLeast0LessThan comp_def)

lemma sum_grid:
  "(\<Sum>c \<in> {c. in_grid w c}. f (slot_at w c)) = (\<Sum>l<length (wh_levels w). \<Sum>i<length (wh_levels w ! l). f (wh_levels w ! l ! i))"
proof -
  have "(\<Sum>l<length (wh_levels w). \<Sum>i<length (wh_levels w ! l). f (wh_levels w ! l ! i)) =
    (\<Sum>(l, i) \<in> Sigma {..<length (wh_levels w)} (\<lambda>l. {..<length (wh_levels w ! l)}). f (wh_levels w ! l ! i))"
    by (rule sum.Sigma) auto
  also have "\<dots> = (\<Sum>c \<in> {c. in_grid w c}. f (slot_at w c))"
    by (rule sum.reindex_bij_witness [where i = "\<lambda>c. (lev c, pos c)" and j = "\<lambda>(l, i). Cell l i"])
      (auto simp: in_grid_def slot_at_def)
  finally show ?thesis by simp
qed

lemma content_sum: "content w = (\<Sum>c \<in> {c. in_grid w c}. mset (sl_entries (slot_at w c)))"
proof -
  have "concat (map sl_entries (concat ls)) = concat (map (\<lambda>l. concat (map sl_entries l)) ls)" for ls
    by (induction ls) simp_all
  then have "content w = mset (concat (map (\<lambda>l. concat (map sl_entries l)) (wh_levels w)))"
    unfolding content_def by metis
  also have "\<dots> = (\<Sum>l<length (wh_levels w). \<Sum>i<length (wh_levels w ! l). mset (sl_entries (wh_levels w ! l ! i)))"
    by (simp only: mset_concat_nth)
  finally show ?thesis by (simp only: sum_grid [of "\<lambda>x. mset (sl_entries x)"])
qed

lemma content_set:
  assumes "in_grid w c"
  shows "content (set_slot c x w) + mset (sl_entries (slot_at w c)) = content w + mset (sl_entries x)"
proof -
  let ?f = "\<lambda>w c. mset (sl_entries (slot_at w c))"
  have split: "(\<Sum>d \<in> {d. in_grid w d}. f d) = f c + (\<Sum>d \<in> {d. in_grid w d} - {c}. f d)" for f :: "cell \<Rightarrow> timer_entry multiset"
    by (rule sum.remove [OF finite_grid]) (simp add: assms)
  have "(\<Sum>d \<in> {d. in_grid w d} - {c}. ?f (set_slot c x w) d) = (\<Sum>d \<in> {d. in_grid w d} - {c}. ?f w d)"
    by (rule sum.cong) (auto simp: slot_at_set assms)
  then show ?thesis
    by (simp add: content_sum split slot_at_set assms ac_simps)
qed

lemma content_elem: "e \<in># content w \<longleftrightarrow> (\<exists>c. in_grid w c \<and> e \<in> set (sl_entries (slot_at w c)))"
  by (auto simp: content_sum set_mset_sum [OF finite_grid])

definition slot_ok :: "wheel_slot \<Rightarrow> bool" where
  "slot_ok x \<longleftrightarrow> sl_earliest x = (if sl_entries x = [] then None else Some (Min (te_deadline ` set (sl_entries x))))"

definition wheel_ok :: "wheel \<Rightarrow> bool" where
  "wheel_ok w \<longleftrightarrow> length (wh_levels w) = LEVELS \<and> (\<forall>l < LEVELS. length (wh_levels w ! l) = SLOTS) \<and>
     (\<forall>c. in_grid w c \<longrightarrow> slot_ok (slot_at w c))"

lemma wheel_okD:
  assumes "wheel_ok w"
  shows "in_grid w c \<longleftrightarrow> lev c < LEVELS \<and> pos c < SLOTS" "in_grid w c \<Longrightarrow> slot_ok (slot_at w c)"
  using assms by (auto simp: wheel_ok_def in_grid_def)

lemma wheel_ok_set: "wheel_ok w \<Longrightarrow> in_grid w c \<Longrightarrow> slot_ok x \<Longrightarrow> wheel_ok (set_slot c x w)"
  by (auto simp: wheel_ok_def slot_at_set) (auto simp: set_slot_def in_grid_def nth_list_update)

lemma empty_slot_ok [simp]: "slot_ok empty_slot" "sl_entries empty_slot = []"
  by (simp_all add: slot_ok_def empty_slot_def)

lemma place_level_less: "level < LEVELS \<Longrightarrow> place_level delta level horizon < LEVELS"
proof (induction delta level horizon rule: place_level.induct)
  case (1 delta level horizon)
  then show ?case by (subst place_level.simps) auto
qed

lemma place_in_grid: "wheel_ok w \<Longrightarrow> in_grid w (place cursor t)"
  using place_level_less [of 0]
  by (auto simp: wheel_okD(1) place_def Let_def LEVELS_def SLOTS_def)

lemma insert_ok:
  assumes "wheel_ok w"
  shows "\<exists>w'. wheel_insert entry w = Inr w' \<and> wheel_ok w' \<and> content w' = add_mset entry (content w)"
proof -
  define c where "c = place (wh_cursor w) (max (tick_of w (te_deadline entry)) (wh_cursor w))"
  have c: "in_grid w c" unfolding c_def by (rule place_in_grid [OF assms])
  define x where "x = \<lparr>sl_entries = sl_entries (slot_at w c) @ [entry], sl_earliest =
    Some (case sl_earliest (slot_at w c) of
        Some prev \<Rightarrow> if prev \<le> te_deadline entry then prev else te_deadline entry
      | None \<Rightarrow> te_deadline entry)\<rparr>"
  have "slot_ok x"
  proof (cases "sl_entries (slot_at w c) = []")
    case True
    then show ?thesis using wheel_okD(2) [OF assms c] by (simp add: slot_ok_def x_def)
  next
    case False
    define m where "m = Min (te_deadline ` set (sl_entries (slot_at w c)))"
    from False have "Min (te_deadline ` set (sl_entries (slot_at w c) @ [entry])) = min (te_deadline entry) m"
      by (simp add: Min_insert m_def)
    with False wheel_okD(2) [OF assms c] show ?thesis
      by (simp add: slot_ok_def x_def m_def [symmetric] min_def del: set_append)
  qed
  moreover have "wheel_insert entry w = Inr (set_slot c x w)"
    using c by (simp add: wheel_insert_def Let_def c_def [symmetric] x_def)
  moreover have "content (set_slot c x w) = add_mset entry (content w)"
    using content_set [OF c, of x] by (simp add: x_def)
  ultimately show ?thesis using wheel_ok_set [OF assms c] by auto
qed

lemma settle_ok:
  assumes "wheel_ok w"
  shows "\<exists>w'. foldE (settle_entry now) es (w, due) = Inr (w', due @ filter (\<lambda>e. te_deadline e \<le> now) es) \<and> wheel_ok w' \<and>
    content w' = content w + mset (filter (\<lambda>e. now < te_deadline e) es)"
  using assms
proof (induction es arbitrary: w due)
  case (Cons e es)
  show ?case
  proof (cases "te_deadline e \<le> now")
    case True
    with Cons.IH [OF Cons.prems, of "due @ [e]"] show ?thesis by (simp add: settle_entry_def)
  next
    case False
    from insert_ok [OF Cons.prems, of e] obtain w1 where w1: "wheel_insert e w = Inr w1" "wheel_ok w1"
      "content w1 = add_mset e (content w)" by blast
    with False Cons.IH [OF w1(2), of due] show ?thesis by (auto simp: settle_entry_def)
  qed
qed simp

lemma not_ready_later:
  assumes "slot_ok x" and "\<not> slot_ready now x" and "e \<in> set (sl_entries x)"
  shows "now < te_deadline e"
proof -
  have "sl_earliest x = Some (Min (te_deadline ` set (sl_entries x)))"
    using assms(1,3) by (auto simp: slot_ok_def)
  moreover have "Min (te_deadline ` set (sl_entries x)) \<le> te_deadline e" using assms(3) by simp
  ultimately show ?thesis using assms(2) by (simp add: slot_ready_def)
qed

lemma open_ok:
  assumes "wheel_ok w" and "in_grid w c" and "\<forall>e \<in> set due. te_deadline e \<le> now"
  shows "\<exists>w' due' opened'. open_slot now c ((w, due), opened) = Inr ((w', due'), opened') \<and> wheel_ok w' \<and>
    content w' + mset due' = content w + mset due \<and> (\<forall>e \<in> set due'. te_deadline e \<le> now) \<and> c \<notin> ready_cells now w'"
proof (cases "slot_ready now (slot_at w c)")
  case False
  with assms show ?thesis by (auto simp: open_slot_def ready_cells_def)
next
  case True
  let ?es = "sl_entries (slot_at w c)" and ?w = "set_slot c empty_slot w"
  have "wheel_ok ?w" by (rule wheel_ok_set [OF assms(1,2)]) simp
  from settle_ok [OF this, of now ?es due] obtain w' where w': "wheel_ok w'"
    "foldE (settle_entry now) ?es (?w, due) = Inr (w', due @ filter (\<lambda>e. te_deadline e \<le> now) ?es)"
    "content w' = content ?w + mset (filter (\<lambda>e. now < te_deadline e) ?es)" by blast
  have "mset (filter (\<lambda>e. now < te_deadline e) ?es) + mset (filter (\<lambda>e. te_deadline e \<le> now) ?es) = mset ?es"
    by (induction ?es) (auto simp: not_le)
  then have "content w' + mset (due @ filter (\<lambda>e. te_deadline e \<le> now) ?es) = content w + mset due"
    using w'(3) content_set [OF assms(2), of empty_slot] by (simp add: ac_simps)
  moreover have "c \<notin> ready_cells now ?w"
    using assms(2) by (simp add: ready_cells_def slot_at_set) (simp add: slot_ready_def empty_slot_def)
  ultimately show ?thesis
    using True assms(2,3) w'(1,2) settle_ready [OF w'(2)] by (simp add: open_slot_def del: mset_append) auto
qed

lemma scan_fold_ok:
  assumes "wheel_ok w" and "\<forall>c \<in> set cs. in_grid w c" and "\<forall>e \<in> set due. te_deadline e \<le> now"
  shows "\<exists>w' due' opened'. foldE (open_slot now) cs ((w, due), opened) = Inr ((w', due'), opened') \<and> wheel_ok w' \<and>
    content w' + mset due' = content w + mset due \<and> (\<forall>e \<in> set due'. te_deadline e \<le> now) \<and>
    set cs \<inter> ready_cells now w' = {}"
  using assms
proof (induction cs arbitrary: w due opened)
  case (Cons c cs)
  then obtain w1 due1 opened1 where w1: "open_slot now c ((w, due), opened) = Inr ((w1, due1), opened1)" "wheel_ok w1"
    "content w1 + mset due1 = content w + mset due" "\<forall>e \<in> set due1. te_deadline e \<le> now" "c \<notin> ready_cells now w1"
    using open_ok [of w c due now opened] by auto
  have "\<forall>c \<in> set cs. in_grid w1 c"
    using Cons.prems(2) wheel_okD(1) [OF w1(2)] wheel_okD(1) [OF Cons.prems(1)] by auto
  from Cons.IH [OF w1(2) this w1(4), of opened1] obtain w' due' opened' where
    w': "foldE (open_slot now) cs ((w1, due1), opened1) = Inr ((w', due'), opened')" "wheel_ok w'"
    "content w' + mset due' = content w1 + mset due1" "\<forall>e \<in> set due'. te_deadline e \<le> now"
    "set cs \<inter> ready_cells now w' = {}" by blast
  have "c \<notin> ready_cells now w'" using scan_fold_ready [OF w'(1)] w1(5) by blast
  with w1 w' show ?case by (intro exI [of _ w'] exI [of _ due'] exI [of _ opened']) simp
qed simp

lemma set_cells: "set cells = {c. lev c < LEVELS \<and> pos c < SLOTS}"
  by (auto simp: cells_def intro!: image_eqI [where x = "(lev x, pos x)" for x :: cell])

lemma collect_loop_ok:
  assumes "wheel_ok w" and "\<forall>e \<in> set due. te_deadline e \<le> now"
  shows "\<exists>w' due'. collect_loop now (w, due) = Inr (w', due') \<and> wheel_ok w' \<and>
    content w' + mset due' = content w + mset due \<and> (\<forall>e \<in> set due'. te_deadline e \<le> now) \<and> ready_cells now w' = {}"
proof -
  have "\<exists>w' due'. collect_loop now st = Inr (w', due') \<and> wheel_ok w' \<and>
    content w' + mset due' = content (fst st) + mset (snd st) \<and> (\<forall>e \<in> set due'. te_deadline e \<le> now) \<and> ready_cells now w' = {}"
    if "wheel_ok (fst st)" "\<forall>e \<in> set (snd st). te_deadline e \<le> now" for st
    using that
  proof (induction now st rule: collect_loop.induct)
    case (1 now st)
    have "\<forall>c \<in> set cells. in_grid (fst st) c" by (simp add: set_cells wheel_okD(1) [OF "1.prems"(1)])
    from scan_fold_ok [OF "1.prems"(1) this "1.prems"(2), of False] obtain w1 due1 opened where
      w1: "scan now st = Inr ((w1, due1), opened)" "wheel_ok w1" "content w1 + mset due1 = content (fst st) + mset (snd st)"
      "\<forall>e \<in> set due1. te_deadline e \<le> now" "set cells \<inter> ready_cells now w1 = {}"
      by (auto simp: scan_def)
    show ?case
    proof (cases opened)
      case True
      from "1.IH" [OF w1(1) refl True] w1 True show ?thesis
        by (subst (1) collect_loop.simps) simp
    next
      case False
      have "ready_cells now w1 = {}"
        using w1(5) by (auto simp: ready_cells_def set_cells wheel_okD(1) [OF w1(2)])
      with False w1 show ?thesis by (subst collect_loop.simps) simp
    qed
  qed
  from this [of "(w, due)"] assms show ?thesis by simp
qed

lemma observe_simps [simp]: "wheel_ok (observe now w) = wheel_ok w" "content (observe now w) = content w"
  by (simp_all add: observe_def wheel_ok_def content_def in_grid_def slot_at_def)

lemma filter_mset_all: "(\<And>x. x \<in># M \<Longrightarrow> P x) \<Longrightarrow> filter_mset P M = M"
  by (induction M) auto

lemma filter_mset_none: "(\<And>x. x \<in># M \<Longrightarrow> \<not> P x) \<Longrightarrow> filter_mset P M = {#}"
  by (induction M) auto

lemma collect_due_ok:
  assumes "wheel_ok w"
  shows "\<exists>due w'. collect_due now w = Inr (due, w') \<and> wheel_ok w' \<and> sorted (map te_deadline due) \<and>
    mset due = filter_mset (\<lambda>e. te_deadline e \<le> now) (content w) \<and>
    content w' = filter_mset (\<lambda>e. now < te_deadline e) (content w)"
proof -
  have "wheel_ok (observe now w)" using assms by simp
  from collect_loop_ok [OF this, of "[]" now] obtain w' due where
    w': "collect_loop now (observe now w, []) = Inr (w', due)" "wheel_ok w'" "content w' + mset due = content w"
    "\<forall>e \<in> set due. te_deadline e \<le> now" "ready_cells now w' = {}" by auto
  have late: "now < te_deadline e" if "e \<in># content w'" for e
  proof -
    from that obtain c where c: "in_grid w' c" "e \<in> set (sl_entries (slot_at w' c))" by (auto simp: content_elem)
    then show ?thesis
      using not_ready_later [OF wheel_okD(2) [OF w'(2) c(1)] _ c(2)] w'(5) by (auto simp: ready_cells_def)
  qed
  have "filter_mset (\<lambda>e. te_deadline e \<le> now) (content w') = {#}"
    "filter_mset (\<lambda>e. te_deadline e \<le> now) (mset due) = mset due"
    "filter_mset (\<lambda>e. now < te_deadline e) (content w') = content w'"
    "filter_mset (\<lambda>e. now < te_deadline e) (mset due) = {#}"
    using late w'(4) by (auto simp: not_le not_less intro!: filter_mset_all filter_mset_none)
  then have "filter_mset (\<lambda>e. te_deadline e \<le> now) (content w' + mset due) = mset due"
    "filter_mset (\<lambda>e. now < te_deadline e) (content w' + mset due) = content w'" by simp_all
  then show ?thesis using w'(1,2) unfolding w'(3) by (simp add: collect_due_def)
qed

section \<open>The earliest deadline and the sleepers\<close>

definition earliest_of :: "timer_entry multiset \<Rightarrow> instant option" where
  "earliest_of M = (if M = {#} then None else Some (Min (te_deadline ` set_mset M)))"

lemma fold_earliest:
  assumes "\<forall>x \<in> set xs. slot_ok x"
  shows "fold (\<lambda>x best. case sl_earliest x of
        Some earliest \<Rightarrow> Some (case best of Some prev \<Rightarrow> if prev \<le> earliest then prev else earliest | None \<Rightarrow> earliest)
      | None \<Rightarrow> best) xs (earliest_of M) = earliest_of (M + mset (concat (map sl_entries xs)))"
  using assms
proof (induction xs arbitrary: M)
  case (Cons x xs)
  have "(case sl_earliest x of
      Some earliest \<Rightarrow> Some (case earliest_of M of Some prev \<Rightarrow> if prev \<le> earliest then prev else earliest | None \<Rightarrow> earliest)
    | None \<Rightarrow> earliest_of M) = earliest_of (M + mset (sl_entries x))"
  proof (cases "sl_entries x = [] \<or> M = {#}")
    case True
    then show ?thesis using Cons.prems by (auto simp: slot_ok_def earliest_of_def)
  next
    case False
    then have "Min (te_deadline ` set_mset (M + mset (sl_entries x))) =
      min (Min (te_deadline ` set_mset M)) (Min (te_deadline ` set (sl_entries x)))"
      by (simp add: image_Un Min_Un)
    with False Cons.prems show ?thesis by (simp add: slot_ok_def earliest_of_def min_def)
  qed
  with Cons.IH [of "M + mset (sl_entries x)"] Cons.prems show ?case by (simp add: ac_simps)
qed simp

lemma slots_ok: "wheel_ok w \<Longrightarrow> x \<in> set (concat (wh_levels w)) \<Longrightarrow> slot_ok x"
proof -
  assume ok: "wheel_ok w" and "x \<in> set (concat (wh_levels w))"
  then obtain l i where "l < length (wh_levels w)" "i < length (wh_levels w ! l)" "x = wh_levels w ! l ! i"
    by (auto simp: in_set_conv_nth)
  then show ?thesis using wheel_okD(2) [OF ok, of "Cell l i"] by (simp add: in_grid_def slot_at_def)
qed

lemma next_deadline_eq: "wheel_ok w \<Longrightarrow> next_deadline w = earliest_of (content w)"
  using fold_earliest [of "concat (wh_levels w)" "{#}"] slots_ok [of w]
  by (simp add: next_deadline_def content_def earliest_of_def)

lemma wheel_ok_new: "wheel_ok (Wheel_new now)" "content (Wheel_new now) = {#}"
proof -
  show ok: "wheel_ok (Wheel_new now)"
    by (auto simp: wheel_ok_def Wheel_new_def in_grid_def slot_at_def)
  show "content (Wheel_new now) = {#}"
    by (simp add: content_def Wheel_new_def concat_replicate_trivial map_concat flip: map_replicate_const)
qed

lemma drain_ok:
  assumes "wheel_ok w" and "drain_sleepers w = (fls, w')"
  shows "wheel_ok w'" "content w' = {#}" "mset fls = (\<Sum>e \<in># content w. mset (sleeper e))"
proof -
  have w': "wh_levels w' = map (map (\<lambda>_. empty_slot)) (wh_levels w)"
    "fls = concat (map sleeper (concat (map sl_entries (concat (wh_levels w)))))"
    using assms(2) by (auto simp: drain_sleepers_def)
  show "wheel_ok w'" using assms(1) by (auto simp: wheel_ok_def w' in_grid_def slot_at_def)
  have "concat (map sl_entries (concat (map (map (\<lambda>_. empty_slot)) ls))) = []" for ls :: "wheel_slot list list"
  proof (induction ls)
    case (Cons l ls)
    have "concat (map sl_entries (map (\<lambda>_. empty_slot) l)) = []" for l :: "wheel_slot list" by (induction l) auto
    with Cons show ?case by simp
  qed simp
  then show "content w' = {#}" by (simp add: content_def w')
  have "mset (concat (map sleeper es)) = (\<Sum>e \<in># mset es. mset (sleeper e))" for es by (induction es) auto
  then show "mset fls = (\<Sum>e \<in># content w. mset (sleeper e))" by (simp add: w' content_def)
qed

section \<open>The shared wheel and its thread\<close>

record timer_wheel =
  tw_poisoned :: bool
  tw_wheel :: wheel
  tw_shutdown :: bool

definition TimerWheel_new :: "instant \<Rightarrow> timer_wheel" where
  "TimerWheel_new now = \<lparr>tw_poisoned = False, tw_wheel = Wheel_new now, tw_shutdown = False\<rparr>"

text \<open>A panic while the lock is held poisons it. A refused entry is returned.\<close>

definition timer_push :: "timer_entry \<Rightarrow> (timer_wheel, wheel_panic, timer_entry + unit) fallible" where
  "timer_push entry tw =
     (if tw_poisoned tw then (Inr (Inl entry), tw)
      else case wheel_insert entry (tw_wheel tw) of
        Inl p \<Rightarrow> (Inl p, tw\<lparr>tw_poisoned := True\<rparr>)
      | Inr w \<Rightarrow> (Inr (Inr ()), tw\<lparr>tw_wheel := w\<rparr>))"

definition schedule_sleep :: "instant \<Rightarrow> instant \<Rightarrow> nat \<Rightarrow> flow \<Rightarrow> (timer_wheel, wheel_panic, flow + unit) fallible" where
  "schedule_sleep latest now delay fl =
     bindS (timer_push \<lparr>te_deadline = deadline_from_now latest now delay, te_payload = WakeSleeper fl\<rparr>) (\<lambda>r.
       returnS (case r of Inr _ \<Rightarrow> Inr () | Inl _ \<Rightarrow> Inl fl))"

definition schedule_receive_timeout ::
  "instant \<Rightarrow> instant \<Rightarrow> nat \<Rightarrow> flow_id \<Rightarrow> flow_id \<Rightarrow> u8 \<Rightarrow> u64 \<Rightarrow> (timer_wheel, wheel_panic, bool) fallible" where
  "schedule_receive_timeout latest now delay pid owner dest_reg epoch =
     bindS (timer_push \<lparr>te_deadline = deadline_from_now latest now delay,
                        te_payload = WakeReceiver pid owner dest_reg epoch\<rparr>) (\<lambda>r.
       returnS (case r of Inr _ \<Rightarrow> True | Inl _ \<Rightarrow> False))"

definition timer_shutdown :: "timer_wheel \<Rightarrow> timer_wheel" where
  "timer_shutdown tw = tw\<lparr>tw_shutdown := True\<rparr>"

definition timer_drain :: "timer_wheel \<Rightarrow> flow list \<times> timer_wheel" where
  "timer_drain tw =
     (if tw_poisoned tw then ([], tw)
      else case drain_sleepers (tw_wheel tw) of (fls, w) \<Rightarrow> (fls, tw\<lparr>tw_wheel := w\<rparr>))"

text \<open>
  One turn of the timer thread, at the two instants it reads the clock: it stops, fires, waits
  on the condition variable, or starts over.
\<close>

datatype drive_action = DriveStop | DriveFire "timer_entry list" | DriveWait nat | DriveAgain

definition drive_turn :: "instant \<Rightarrow> instant \<Rightarrow> (timer_wheel, wheel_panic, drive_action) fallible" where
  "drive_turn now later tw =
     (if tw_poisoned tw then (Inr DriveStop, tw)
      else if tw_shutdown tw then (Inr DriveStop, tw)
      else case collect_due now (tw_wheel tw) of
        Inl p \<Rightarrow> (Inl p, tw\<lparr>tw_poisoned := True\<rparr>)
      | Inr (due, w) \<Rightarrow>
          (Inr (if due \<noteq> [] then DriveFire due
                else case next_deadline w of
                  Some d \<Rightarrow> if d \<le> later then DriveAgain else DriveWait (d - later)
                | None \<Rightarrow> DriveWait 250000000),
           tw\<lparr>tw_wheel := w\<rparr>))"

section \<open>Runs of the wheel\<close>

inductive wheel_reach :: "wheel \<Rightarrow> timer_entry multiset \<Rightarrow> bool" where
  wheel_start: "wheel_reach (Wheel_new now) {#}"
| wheel_arm: "wheel_reach w M \<Longrightarrow> wheel_insert e w = Inr w' \<Longrightarrow> wheel_reach w' (add_mset e M)"
| wheel_fire: "wheel_reach w M \<Longrightarrow> collect_due now w = Inr (due, w') \<Longrightarrow> wheel_reach w' (M - mset due)"
| wheel_drain: "wheel_reach w M \<Longrightarrow> drain_sleepers w = (fls, w') \<Longrightarrow> wheel_reach w' {#}"

lemma wheel_reach_ok: "wheel_reach w M \<Longrightarrow> wheel_ok w \<and> content w = M"
proof (induction rule: wheel_reach.induct)
  case (wheel_start now)
  then show ?case by (simp add: wheel_ok_new)
next
  case (wheel_arm w M e w')
  then show ?case using insert_ok [of w e] by auto
next
  case (wheel_fire w M now due w')
  then have w: "wheel_ok w" "content w = M" by auto
  have "M = filter_mset (\<lambda>e. te_deadline e \<le> now) M + filter_mset (\<lambda>e. now < te_deadline e) M"
    by (metis (no_types, lifting) filter_mset_cong multiset_partition not_le)
  with collect_due_ok [OF w(1), of now] wheel_fire.hyps(2) w(2) show ?case
    by (metis add_diff_cancel_left' old.prod.inject sum.inject(2))
next
  case (wheel_drain w M fls w')
  then show ?case using drain_ok by blast
qed

lemma drive_turn_spec:
  assumes "wheel_reach (tw_wheel tw) M" and "\<not> tw_poisoned tw" and "\<not> tw_shutdown tw"
  shows "\<exists>action tw'. drive_turn now later tw = (Inr action, tw') \<and>
    (case action of
       DriveStop \<Rightarrow> False
     | DriveFire due \<Rightarrow> due \<noteq> [] \<and> mset due = filter_mset (\<lambda>e. te_deadline e \<le> now) M
     | DriveWait left \<Rightarrow> 0 < left \<and> (\<forall>e \<in># M. now < te_deadline e \<and> later + left \<le> te_deadline e)
     | DriveAgain \<Rightarrow> (\<exists>e \<in># M. te_deadline e \<le> later))"
proof -
  from wheel_reach_ok [OF assms(1)] have w: "wheel_ok (tw_wheel tw)" "content (tw_wheel tw) = M" by auto
  from collect_due_ok [OF w(1), of now] obtain due w' where
    w': "collect_due now (tw_wheel tw) = Inr (due, w')" "wheel_ok w'"
    "mset due = filter_mset (\<lambda>e. te_deadline e \<le> now) M" "content w' = filter_mset (\<lambda>e. now < te_deadline e) M"
    using w(2) by auto
  show ?thesis
  proof (cases "due = []")
    case False
    with w'(1,3) assms(2,3) show ?thesis by (simp add: drive_turn_def)
  next
    case True
    have none_due: "now < te_deadline e" if "e \<in># M" for e
      using that w'(3) True by (auto simp: not_le filter_mset_eq_mempty_iff dest!: sym [where s = "{#}"])
    then have "content w' = M" by (simp add: w'(4) filter_mset_all)
    then have next_dl: "next_deadline w' = earliest_of M" by (simp add: next_deadline_eq [OF w'(2)])
    show ?thesis
    proof (cases "M = {#}")
      case True
      then show ?thesis using \<open>due = []\<close> next_dl w'(1) assms(2,3) by (simp add: drive_turn_def earliest_of_def)
    next
      case False
      define d where "d = Min (te_deadline ` set_mset M)"
      have "d \<in> te_deadline ` set_mset M" unfolding d_def by (rule Min_in) (use False in auto)
      moreover have "d \<le> te_deadline e" if "e \<in># M" for e unfolding d_def using that by simp
      moreover have "next_deadline w' = Some d" using next_dl False by (simp add: earliest_of_def d_def)
      ultimately show ?thesis
        using \<open>due = []\<close> w'(1) assms(2,3) none_due by (auto simp: drive_turn_def)
    qed
  qed
qed

section \<open>The thread among other threads\<close>

text \<open>
  The timer thread holds the lock of the wheel from its turn until it waits, so arming a timer
  cannot fall between the two; shutting down takes another lock and can. \<^verbatim>\<open>th_decided\<close> is the
  end of a wait the thread has decided on and not entered, \<^verbatim>\<open>th_asleep\<close> the end of the wait it is in.
\<close>

record timer_thread =
  th_wheel :: timer_wheel
  th_decided :: "instant option"
  th_asleep :: "instant option"

datatype thread_event = ThreadTurn instant instant | ThreadWait | ThreadWake | ArmTimer timer_entry | ShutDown

definition thread_turn :: "instant \<Rightarrow> instant \<Rightarrow> timer_thread \<Rightarrow> timer_thread option" where
  "thread_turn now later th =
     (if th_decided th \<noteq> None \<or> th_asleep th \<noteq> None then None
      else case drive_turn now later (th_wheel th) of (r, tw) \<Rightarrow>
        Some (th\<lparr>th_wheel := tw, th_decided := (case r of Inr (DriveWait left) \<Rightarrow> Some (later + left) | _ \<Rightarrow> None)\<rparr>))"

fun thread_event_step :: "thread_event \<Rightarrow> timer_thread \<Rightarrow> timer_thread option" where
  "thread_event_step (ThreadTurn now later) th = thread_turn now later th"
| "thread_event_step ThreadWait th =
     (if th_decided th = None then None else Some (th\<lparr>th_decided := None, th_asleep := th_decided th\<rparr>))"
| "thread_event_step ThreadWake th = (if th_asleep th = None then None else Some (th\<lparr>th_asleep := None\<rparr>))"
| "thread_event_step (ArmTimer e) th =
     (if th_decided th \<noteq> None then None
      else Some (th\<lparr>th_wheel := snd (timer_push e (th_wheel th)), th_asleep := None\<rparr>))"
| "thread_event_step ShutDown th = Some (th\<lparr>th_wheel := timer_shutdown (th_wheel th), th_asleep := None\<rparr>)"

primrec thread_events :: "thread_event list \<Rightarrow> timer_thread \<Rightarrow> timer_thread option" where
  "thread_events [] th = Some th"
| "thread_events (ev # evs) th = Option.bind (thread_event_step ev th) (thread_events evs)"

definition thread_start :: "instant \<Rightarrow> timer_thread" where
  "thread_start now = \<lparr>th_wheel = TimerWheel_new now, th_decided = None, th_asleep = None\<rparr>"

definition armed :: "timer_thread \<Rightarrow> timer_entry multiset" where
  "armed th = content (tw_wheel (th_wheel th))"

definition thread_ok :: "timer_thread \<Rightarrow> bool" where
  "thread_ok th \<longleftrightarrow> \<not> tw_poisoned (th_wheel th) \<and> wheel_reach (tw_wheel (th_wheel th)) (armed th) \<and>
     (\<forall>u e. (th_decided th = Some u \<or> th_asleep th = Some u) \<longrightarrow> e \<in># armed th \<longrightarrow> u \<le> te_deadline e)"

lemma thread_ok_start [simp]: "thread_ok (thread_start now)"
  using wheel_start [of now] wheel_reach_ok [OF wheel_start [of now]]
  by (simp add: thread_ok_def thread_start_def TimerWheel_new_def armed_def)

lemma drive_turn_reach:
  assumes "wheel_reach (tw_wheel tw) M" and "\<not> tw_poisoned tw" and "drive_turn now later tw = (r, tw')"
  shows "\<not> tw_poisoned tw'" "\<exists>M'. wheel_reach (tw_wheel tw') M'"
    "\<And>left e. r = Inr (DriveWait left) \<Longrightarrow> e \<in># content (tw_wheel tw') \<Longrightarrow> later + left \<le> te_deadline e"
proof -
  obtain due w where due: "collect_due now (tw_wheel tw) = Inr (due, w)" "wheel_ok w"
    using collect_due_ok wheel_reach_ok [OF assms(1)] by blast
  have stop: "tw_shutdown tw \<Longrightarrow> r = Inr DriveStop \<and> tw' = tw"
    using assms(2,3) by (simp add: drive_turn_def)
  have go: "\<not> tw_shutdown tw \<Longrightarrow> tw' = tw\<lparr>tw_wheel := w\<rparr>"
    using assms(2,3) due(1) by (simp add: drive_turn_def)
  show "\<not> tw_poisoned tw'" using stop go assms(2) by (cases "tw_shutdown tw") auto
  show "\<exists>M'. wheel_reach (tw_wheel tw') M'"
    using stop go assms(1) wheel_fire [OF assms(1) due(1)] by (cases "tw_shutdown tw") auto
  show "later + left \<le> te_deadline e" if "r = Inr (DriveWait left)" "e \<in># content (tw_wheel tw')" for left e
  proof -
    from that(1) stop have run: "\<not> tw_shutdown tw" by auto
    have "e \<in># content w" using that(2) go [OF run] by simp
    moreover have "content w = filter_mset (\<lambda>e. now < te_deadline e) M"
      using collect_due_ok [of "tw_wheel tw" now] wheel_reach_ok [OF assms(1)] due(1) by auto
    ultimately have "e \<in># M" by simp
    with drive_turn_spec [OF assms(1,2) run, of now later] assms(3) that(1) show ?thesis by auto
  qed
qed

lemma thread_ok_step:
  assumes "thread_ok th" and "thread_event_step ev th = Some th'"
  shows "thread_ok th'"
proof (cases ev)
  case (ThreadTurn now later)
  obtain r tw where turn: "drive_turn now later (th_wheel th) = (r, tw)" by fastforce
  have ok: "wheel_reach (tw_wheel (th_wheel th)) (armed th)" "\<not> tw_poisoned (th_wheel th)"
    using assms(1) by (simp_all add: thread_ok_def)
  note spec = drive_turn_reach [OF ok turn]
  have th': "th' = th\<lparr>th_wheel := tw, th_decided := (case r of Inr (DriveWait left) \<Rightarrow> Some (later + left) | _ \<Rightarrow> None)\<rparr>"
    "th_asleep th = None"
    using assms(2) turn ThreadTurn by (auto simp: thread_turn_def split: if_splits)
  have "wheel_reach (tw_wheel tw) (content (tw_wheel tw))" using spec(2) wheel_reach_ok by blast
  then show ?thesis
    using spec(1,3) by (auto simp: thread_ok_def th' armed_def split: sum.splits drive_action.splits)
next
  case ThreadWait
  with assms show ?thesis by (auto simp: thread_ok_def armed_def split: if_splits)
next
  case ThreadWake
  with assms show ?thesis by (auto simp: thread_ok_def armed_def split: if_splits)
next
  case (ArmTimer e)
  have reach: "wheel_reach (tw_wheel (th_wheel th)) (armed th)" "\<not> tw_poisoned (th_wheel th)"
    using assms(1) by (simp_all add: thread_ok_def)
  obtain w where w: "wheel_insert e (tw_wheel (th_wheel th)) = Inr w"
    using insert_ok wheel_reach_ok [OF reach(1)] by blast
  have "wheel_reach w (content w)" using wheel_arm [OF reach(1) w] wheel_reach_ok [OF wheel_arm [OF reach(1) w]] by simp
  with assms(2) reach(2) w ArmTimer show ?thesis
    by (auto simp: thread_ok_def armed_def timer_push_def split: if_splits)
next
  case ShutDown
  with assms show ?thesis by (auto simp: thread_ok_def armed_def timer_shutdown_def)
qed

lemma thread_ok_events: "thread_ok th \<Longrightarrow> thread_events evs th = Some th' \<Longrightarrow> thread_ok th'"
  by (induction evs arbitrary: th) (auto simp: bind_eq_Some_conv intro: thread_ok_step)

lemma turn_decides:
  assumes "thread_ok th" and "\<not> tw_shutdown (th_wheel th)" and "th_decided th = None" and "th_asleep th = None"
    and "armed th \<noteq> {#}" and "\<And>e. e \<in># armed th \<Longrightarrow> now < te_deadline e \<and> later < te_deadline e"
  shows "\<exists>tw. thread_turn now later th = Some (th\<lparr>th_wheel := tw, th_decided := earliest_of (armed th)\<rparr>)"
proof -
  define d where "d = Min (te_deadline ` set_mset (armed th))"
  have ok: "wheel_reach (tw_wheel (th_wheel th)) (armed th)" "\<not> tw_poisoned (th_wheel th)"
    using assms(1) by (simp_all add: thread_ok_def)
  obtain due w where due: "collect_due now (tw_wheel (th_wheel th)) = Inr (due, w)" "wheel_ok w"
    "mset due = filter_mset (\<lambda>e. te_deadline e \<le> now) (armed th)" "content w = filter_mset (\<lambda>e. now < te_deadline e) (armed th)"
    using collect_due_ok [of "tw_wheel (th_wheel th)" now] wheel_reach_ok [OF ok(1)] by auto
  have "due = []" using due(3) assms(6) by (auto simp: filter_mset_none not_le)
  moreover have "content w = armed th" using due(4) assms(6) by (simp add: filter_mset_all)
  then have "next_deadline w = Some d" using next_deadline_eq [OF due(2)] assms(5) by (simp add: earliest_of_def d_def)
  moreover have "d \<in> te_deadline ` set_mset (armed th)" unfolding d_def by (rule Min_in) (use assms(5) in auto)
  then have "later < d" using assms(6) by auto
  moreover have "earliest_of (armed th) = Some d" using assms(5) by (simp add: earliest_of_def d_def)
  ultimately show ?thesis
    using due(1) ok(2) assms(2-5) by (auto simp: thread_turn_def drive_turn_def)
qed

definition late_entry :: timer_entry where
  "late_entry = \<lparr>te_deadline = 5, te_payload = WakeReceiver 1 1 0 1\<rparr>"

lemma armed_late:
  "\<exists>th. thread_event_step (ArmTimer late_entry) (thread_start 0) = Some th \<and> armed th = {#late_entry#} \<and>
     \<not> tw_shutdown (th_wheel th) \<and> th_decided th = None \<and> th_asleep th = None"
proof -
  from insert_ok [OF wheel_ok_new(1), of late_entry 0] obtain w where
    w: "wheel_insert late_entry (Wheel_new 0) = Inr w" by blast
  from wheel_reach_ok [OF wheel_arm [OF wheel_start w]] have "content w = {#late_entry#}" by simp
  with w show ?thesis by (simp add: thread_start_def TimerWheel_new_def timer_push_def armed_def)
qed

section \<open>Properties\<close>

text \<open>C35: the timer wheel implements a multiset of deadlines. Whatever was armed, collected
  and drained before, collecting at an instant never panics and terminates; it returns
  exactly the armed entries whose deadline has been reached, earliest first, keeps exactly
  the others, and the next deadline it reports is their minimum, or none when there are none.\<close>

theorem timer_wheel_refines_multiset:
  assumes "wheel_reach w M"
  shows "\<exists>due w'. collect_due now w = Inr (due, w') \<and>
    sorted (map te_deadline due) \<and> mset due = filter_mset (\<lambda>e. te_deadline e \<le> now) M \<and>
    wheel_reach w' (filter_mset (\<lambda>e. now < te_deadline e) M) \<and>
    next_deadline w' = earliest_of (filter_mset (\<lambda>e. now < te_deadline e) M)"
proof -
  from wheel_reach_ok [OF assms] have w: "wheel_ok w" "content w = M" by auto
  from collect_due_ok [OF w(1), of now] obtain due w' where
    w': "collect_due now w = Inr (due, w')" "wheel_ok w'" "sorted (map te_deadline due)"
    "mset due = filter_mset (\<lambda>e. te_deadline e \<le> now) M" "content w' = filter_mset (\<lambda>e. now < te_deadline e) M"
    using w(2) by auto
  have "wheel_reach w' (M - mset due)" by (rule wheel_fire [OF assms w'(1)])
  moreover from wheel_reach_ok [OF this] have "M - mset due = filter_mset (\<lambda>e. now < te_deadline e) M"
    using w'(5) by simp
  ultimately show ?thesis using w' next_deadline_eq [OF w'(2)] by auto
qed

theorem timer_wheel_refines_multiset_witness:
  "\<exists>w due w'. wheel_insert late_entry (Wheel_new 0) = Inr w \<and> collect_due 10 w = Inr (due, w') \<and>
     mset due = {#late_entry#} \<and> next_deadline w' = None"
proof -
  from insert_ok [OF wheel_ok_new(1), of late_entry 0] obtain w where w: "wheel_insert late_entry (Wheel_new 0) = Inr w"
    by blast
  from timer_wheel_refines_multiset [OF wheel_arm [OF wheel_start w], of 10] show ?thesis
    using w by (auto simp: late_entry_def earliest_of_def)
qed



text \<open>C39: a shutdown can be missed. When timers are armed and none is due, a shutdown that
  comes after the thread has read the flag and before it waits leaves the thread asleep until
  the earliest deadline, with the flag set and nothing left to wake it; joining the thread
  takes that long. The same shutdown after the thread has started to wait wakes it at once.\<close>

theorem shutdown_missed_by_timer_thread:
  assumes "thread_events evs (thread_start t0) = Some th" and "\<not> tw_shutdown (th_wheel th)"
    and "th_decided th = None" and "th_asleep th = None" and "armed th \<noteq> {#}"
    and "\<forall>e \<in># armed th. now < te_deadline e \<and> later < te_deadline e"
  shows "\<exists>missed seen. thread_events [ThreadTurn now later, ShutDown, ThreadWait] th = Some missed \<and>
      tw_shutdown (th_wheel missed) \<and> th_asleep missed = earliest_of (armed th) \<and>
      thread_events [ThreadTurn now later, ThreadWait, ShutDown] th = Some seen \<and>
      tw_shutdown (th_wheel seen) \<and> th_asleep seen = None"
proof -
  have "\<exists>tw. thread_turn now later th = Some (th\<lparr>th_wheel := tw, th_decided := earliest_of (armed th)\<rparr>)"
    by (rule turn_decides [OF thread_ok_events [OF thread_ok_start assms(1)] assms(2-5)]) (use assms(6) in auto)
  then obtain tw where "thread_turn now later th = Some (th\<lparr>th_wheel := tw, th_decided := earliest_of (armed th)\<rparr>)" ..
  moreover have "earliest_of (armed th) \<noteq> None" using assms(5) by (simp add: earliest_of_def)
  ultimately show ?thesis by (auto simp: timer_shutdown_def)
qed

theorem shutdown_missed_by_timer_thread_witness:
  "\<exists>th. thread_events [ArmTimer late_entry, ThreadTurn 1 2, ShutDown, ThreadWait] (thread_start 0) = Some th \<and>
     tw_shutdown (th_wheel th) \<and> th_asleep th = Some 5"
proof -
  obtain th where th: "thread_event_step (ArmTimer late_entry) (thread_start 0) = Some th" "armed th = {#late_entry#}"
    "\<not> tw_shutdown (th_wheel th)" "th_decided th = None" "th_asleep th = None"
    using armed_late by blast
  have run: "thread_events [ArmTimer late_entry] (thread_start 0) = Some th" using th(1) by simp
  have "\<exists>missed seen. thread_events [ThreadTurn 1 2, ShutDown, ThreadWait] th = Some missed \<and>
      tw_shutdown (th_wheel missed) \<and> th_asleep missed = earliest_of (armed th) \<and>
      thread_events [ThreadTurn 1 2, ThreadWait, ShutDown] th = Some seen \<and>
      tw_shutdown (th_wheel seen) \<and> th_asleep seen = None"
    by (rule shutdown_missed_by_timer_thread [OF run th(3-5)]) (simp_all add: th(2), simp_all add: late_entry_def)
  moreover have "earliest_of (armed th) = Some 5" by (simp add: th(2) earliest_of_def) (simp add: late_entry_def)
  ultimately show ?thesis using th(1) by auto
qed

end
