(* ===== verification/Spec2Isabelle.thy ===== *)
theory Spec2Isabelle
  imports Bf_Value Bf_HashMap Bf_Cap Bf_CapTable Bf_Isa Bf_Format Bf_Verify Bf_Quota Bf_Vm Bf_VmSafe
    Bf_Queue Bf_Process Bf_Mailbox Bf_Index Bf_Links Bf_Monitors Bf_Directory Bf_Names Bf_Awaits Bf_Timer
begin

text \<open>
  A verification library for byteflow, an actor runtime whose flows run a small register
  bytecode. All paths below are relative to \<^verbatim>\<open>src/byteflow/src/\<close>.

  \<^bold>\<open>The program.\<close> A module is decoded from bytes (\<^verbatim>\<open>bytecode/format.rs\<close>), checked by a load-time
  verifier (\<^verbatim>\<open>bytecode/verify.rs\<close>) and run by an interpreter (\<^verbatim>\<open>vm/machine\<close>), one machine per
  flow. Flows share nothing: they send values (\<^verbatim>\<open>bytecode/value.rs\<close>) into each other's mailboxes
  (\<^verbatim>\<open>scheduler/mailbox\<close>), which the directory finds, and they may do so only with capabilities
  (\<^verbatim>\<open>scheduler/capability.rs\<close>). Memory, instructions and message rates are charged to budgets
  (\<^verbatim>\<open>memory.rs\<close>, \<^verbatim>\<open>scheduler/quota.rs\<close>). Links, monitors, names, timers and host tickets tie
  flows to each other and to the host, and are swept when a flow ends.

  \<^bold>\<open>Conventions\<close> (\<^verbatim>\<open>Bf_Prelude\<close>). Machine integers are words; \<^verbatim>\<open>usize\<close> is a natural number with
  the checked and saturating operations written out. A fallible function returns
  \<^typ>\<open>'e + 'a\<close>; a fallible method threads its state and returns it also when it fails. A mutex
  is a flag that says whether it is poisoned: a method is one critical section, hence one
  atomic step, and fails on a poisoned lock with the name of the site. A hash map is an
  association list with distinct keys (\<^verbatim>\<open>Bf_HashMap\<close>), so an iteration has some order, which no
  theorem relies on.

  \<^bold>\<open>Bytecode.\<close>
  \<^item> \<^verbatim>\<open>Bf_Float\<close>, \<^verbatim>\<open>Bf_Value\<close>: \<^verbatim>\<open>f64\<close> on bit patterns; values, envelopes, and the walks over
    them. The walks are equal to reference measures of depth and size, and rewriting
    capabilities leaks none.
  \<^item> \<^verbatim>\<open>Bf_Isa\<close>, \<^verbatim>\<open>Bf_Format\<close>: opcodes, instruction words, chunks, and the module format. Every
    writer and reader form a \<^verbatim>\<open>codec\<close>; decoding undoes encoding and accepts only encodings.
  \<^item> \<^verbatim>\<open>Bf_Verify\<close>: the verifier accepts exactly the well-formed chunks.
  \<^item> \<^verbatim>\<open>Bf_Vm\<close>, \<^verbatim>\<open>Bf_VmSafe\<close>: the interpreter, every opcode. A machine of a verified module keeps
    a well-formed call stack and never traps for a reason that verification rules out.

  \<^bold>\<open>Authority and accounting.\<close>
  \<^item> \<^verbatim>\<open>Bf_Cap\<close>, \<^verbatim>\<open>Bf_CapTable\<close>: rights, masks, attenuation, delegation, and the table with its
    revocation cells and random tokens. Narrowing never escalates and revocation is final,
    except in the race that a theorem exhibits.
  \<^item> \<^verbatim>\<open>Bf_Quota\<close>: budgets, token buckets and the flow limit. The compare-and-swap loops are
    linearizable; two accounts are instances of \<^verbatim>\<open>charge_account\<close>.

  \<^bold>\<open>Messages.\<close>
  \<^item> \<^verbatim>\<open>Bf_Queue\<close>: the ring of a mailbox implements a bounded list of hops (\<^verbatim>\<open>hop_store\<close>).
  \<^item> \<^verbatim>\<open>Bf_Process\<close>, \<^verbatim>\<open>Bf_Mailbox\<close>: flows and the methods of a mailbox. No hop that a parked
    receiver waits for stays queued, unless a refused send is retried; a timeout ends only
    the wait it was armed for.

  \<^bold>\<open>Relations between flows.\<close>
  \<^item> \<^verbatim>\<open>Bf_Index\<close>: locks, identifiers and adjacency indexes that the tables share.
  \<^item> \<^verbatim>\<open>Bf_Links\<close>, \<^verbatim>\<open>Bf_Monitors\<close>: an exit reaches exactly the linked peers and the watching
    owners; linking never leaves a link to a dead flow; creating a monitor races with the exit.
  \<^item> \<^verbatim>\<open>Bf_Directory\<close>: the shards are one map, an instance of \<^verbatim>\<open>keyed_store\<close>.
  \<^item> \<^verbatim>\<open>Bf_Names\<close>: the registry of names, and the tables of \<^verbatim>\<open>scheduler/finalize.rs\<close> for trapped
    exits, kill signals, parked senders and pending asks. An exit takes away exactly the
    names of the flow.
  \<^item> \<^verbatim>\<open>Bf_Awaits\<close>: host tickets and reported failures (\<^verbatim>\<open>scheduler/host_await.rs\<close>). A ticket is
    settled at most once; the three results of a failure that meets the end of its flow.
  \<^item> \<^verbatim>\<open>Bf_Timer\<close>: the timer wheel and its thread (\<^verbatim>\<open>scheduler/timer.rs\<close>). The wheel implements a
    multiset of deadlines and the thread never oversleeps one, but it can miss a shutdown.

  \<^bold>\<open>Concurrency.\<close> Where an operation takes several critical sections, its steps are separate and
  run in every interleaving with the steps of the other party: the loops of the budgets,
  linking and monitoring against an exit, a host failure against the end of a flow, and the
  timer thread against arming and shutdown. Memory is sequentially consistent.

  \<^bold>\<open>Loops.\<close> The interpreter's loop is bounded by the instruction budget it is called with, as in
  the source. The other loops are total functions with a termination proof; the scan of the
  timer wheel repeats only while it empties ready slots. No fuel is used for them.

  \<^bold>\<open>Parameters.\<close> Host functions, the system's random generator and the greatest instant of the
  clock are arguments of the definitions that use them.

  \<^bold>\<open>Not modelled.\<close>
  \<^item> The work list of the finalizer (\<^verbatim>\<open>finalize_flow\<close>, \<^verbatim>\<open>finalize_one\<close>, delivery of exits and kills
    in \<^verbatim>\<open>scheduler/finalize.rs\<close>): mutually recursive with the resumption of flows and acting on all
    stores at once. The sweeps that it calls are modelled, their composition is not, so no
    theorem says that a finalized flow leaves no trace in the runtime as a whole.
  \<^item> \<^verbatim>\<open>TimerWheel::fire\<close>, and the completer and delivery of \<^verbatim>\<open>scheduler/host_await.rs\<close>: they resume
    flows and end in the finalizer.
  \<^item> Supervisors and flow tables (\<^verbatim>\<open>scheduler/supervisor.rs\<close>, \<^verbatim>\<open>scheduler/flow_supervisor.rs\<close>,
    \<^verbatim>\<open>scheduler/table.rs\<close>): they act through the spawner, the finalizer and the record of shared
    state, which are not modelled.
  \<^item> Workers, run queues, start-up and the public interface (\<^verbatim>\<open>scheduler/worker.rs\<close>,
    \<^verbatim>\<open>scheduler/runqueue\<close>, \<^verbatim>\<open>scheduler/runtime.rs\<close>), apart from the two callers that create a
    monitor. The deques are lock-free code over raw memory and need a weak memory model.
  \<^item> The just-in-time compiler (\<^verbatim>\<open>jit\<close>), whose code generation is a third-party library.
  \<^item> The assembler, disassembler and builders, whose output passes through the modelled
    verifier; sockets and transport; logging, metrics, attestation and the command line.
\<close>

end
